(* ===== verification/Prelude.thy ===== *)
theory Prelude
  imports Main "HOL-Library.Word"
begin

text \<open>
  Shared vocabulary of the development: the names of the machine types the C++ sources use, the
  collections the component theories add their rules to, and the generic facts on words, lists
  and byte strings that more than one component needs.
\<close>

unbundle bit_operations_syntax

type_synonym uint8 = "8 word"
type_synonym uint16 = "16 word"
type_synonym uint32 = "32 word"
type_synonym uint64 = "64 word"
type_synonym bytes = "8 word list"

section \<open>Words as natural numbers\<close>

text \<open>Rules that turn word arithmetic into arithmetic on natural numbers.\<close>

named_theorems unat_simps

lemma unat_bound64 [simp]: "unat (x :: uint64) < 18446744073709551616"
  using unsigned_less [of x, where ?'a = nat] by simp

lemma unat_bound32 [simp]: "unat (x :: uint32) < 4294967296"
  using unsigned_less [of x, where ?'a = nat] by simp

lemma unat_bound8 [simp]: "unat (x :: uint8) < 256"
  using unsigned_less [of x, where ?'a = nat] by simp

lemma unat_plus_mod [unat_simps]:
  "unat (x + y :: 'a::len word) = (unat x + unat y) mod 2 ^ LENGTH('a)"
  by (simp add: unat_word_ariths)

lemma unat_mult_mod [unat_simps]:
  "unat (x * y :: 'a::len word) = (unat x * unat y) mod 2 ^ LENGTH('a)"
  by (simp add: unat_word_ariths)

lemma unat_div_eq [unat_simps]: "unat (x div y :: 'a::len word) = unat x div unat y"
  by (simp add: unat_div_distrib)

lemma unat_mod_eq [unat_simps]: "unat (x mod y :: 'a::len word) = unat x mod unat y"
  by (simp add: unat_mod_distrib)

lemma unat_drop_bit [unat_simps]: "unat (drop_bit n x :: 'a::len word) = unat x div 2 ^ n"
  unfolding unat_drop_bit_eq by (rule drop_bit_eq_div)

lemma unat_push_bit [unat_simps]:
  "unat (push_bit n x :: 'a::len word) = (unat x * 2 ^ n) mod 2 ^ LENGTH('a)"
  unfolding unsigned_push_bit_eq take_bit_eq_mod by (simp only: push_bit_eq_mult)

lemma unat_take_bit [unat_simps]: "unat (take_bit n x :: 'a::len word) = unat x mod 2 ^ n"
  unfolding unsigned_take_bit_eq by (rule take_bit_eq_mod)

lemma unat_sub_mod [unat_simps]:
  "unat (x - y :: 'a::len word) =
     (if unat y \<le> unat x then unat x - unat y else 2 ^ LENGTH('a) + unat x - unat y)"
  by (auto simp: unat_sub_if_size word_size)

lemma unat_ucast_mod [unat_simps]:
  "unat (ucast (x :: 'a::len word) :: 'b::len word) = unat x mod 2 ^ LENGTH('b)"
  by (simp only: unsigned_ucast_eq take_bit_eq_mod)

lemma unat_ucast_up [unat_simps]:
  "LENGTH('a) \<le> LENGTH('b) \<Longrightarrow> unat (ucast (x :: 'a::len word) :: 'b::len word) = unat x"
  by (simp add: is_up nat_int_comparison(1) uint_up_ucast)

lemma unat_plus_exact:
  "unat x + unat y < 2 ^ LENGTH('a) \<Longrightarrow> unat (x + y :: 'a::len word) = unat x + unat y"
  by (simp add: unat_plus_mod)

text \<open>The overflow test of unsigned addition that the sources use everywhere.\<close>

lemma plus_less_iff_overflow:
  "(x + y :: 'a::len word) < x \<longleftrightarrow> 2 ^ LENGTH('a) \<le> unat x + unat y"
  by (metis nat_less_le nle_le no_olen_add_nat word_le_less_eq word_less_nat_alt)

lemma unat_plus_split:
  fixes x y :: "'a::len word"
  shows "unat x + unat y = unat (x + y) + (if x + y < x then 2 ^ LENGTH('a) else 0)"
proof (cases "2 ^ LENGTH('a) \<le> unat x + unat y")
  case True
  have "unat x + unat y < 2 * 2 ^ LENGTH('a)"
    using unsigned_less [of x, where ?'a = nat] unsigned_less [of y, where ?'a = nat] by linarith
  with True show ?thesis
    by (simp add: plus_less_iff_overflow unat_plus_mod le_mod_geq)
next
  case False
  then show ?thesis by (simp add: plus_less_iff_overflow unat_plus_mod)
qed

text \<open>Concatenating a low and a high part with \<open>OR\<close>, as byte and limb packing code does.\<close>

lemma unat_or_push_bit:
  fixes x y :: "'a::len word"
  assumes x: "unat x < 2 ^ n" and y: "unat y * 2 ^ n < 2 ^ LENGTH('a)"
  shows "unat (x OR push_bit n y) = unat y * 2 ^ n + unat x"
proof -
  have tx: "take_bit n x = x" using x by (simp add: word_unat_eq_iff unat_simps)
  have "x AND push_bit n y = 0"
  proof (rule bit_word_eqI)
    fix i
    have "bit x i \<Longrightarrow> i < n" by (metis tx bit_take_bit_iff)
    then show "bit (x AND push_bit n y) i = bit (0 :: 'a word) i"
      by (auto simp: bit_simps)
  qed
  then have "x OR push_bit n y = x + push_bit n y"
    using word_plus_and_or [of x "push_bit n y"] by simp
  moreover have "unat (push_bit n y) = unat y * 2 ^ n" using y by (simp add: unat_simps)
  moreover have "unat x + unat y * 2 ^ n < 2 ^ LENGTH('a)"
  proof (cases "n \<le> LENGTH('a)")
    case True
    then have p: "(2::nat) ^ LENGTH('a) = 2 ^ (LENGTH('a) - n) * 2 ^ n"
      by (simp flip: power_add)
    with y have "unat y < 2 ^ (LENGTH('a) - n)" by simp
    then have "(unat y + 1) * 2 ^ n \<le> 2 ^ (LENGTH('a) - n) * 2 ^ n" by (intro mult_le_mono1) simp
    with x p show ?thesis by simp
  next
    case False
    then have "(2::nat) ^ LENGTH('a) < 2 ^ n" by simp
    with y have "unat y = 0" by (cases "unat y") auto
    then show ?thesis by simp
  qed
  ultimately show ?thesis by (simp add: unat_plus_exact)
qed

lemma unat_of_nat_small: "n < 2 ^ LENGTH('a) \<Longrightarrow> unat (of_nat n :: 'a::len word) = n"
  by (simp add: unat_of_nat take_bit_eq_mod)

lemma ucast_up_down:
  "LENGTH('a) \<le> LENGTH('b) \<Longrightarrow> ucast (ucast x :: 'b::len word) = (x :: 'a::len word)"
  by (rule bit_word_eqI) (auto simp: bit_simps)

text \<open>\<open>std::numeric_limits::max() - q\<close>.\<close>

lemma unat_max_minus: "unat (- 1 - q :: 'a::len word) = 2 ^ LENGTH('a) - 1 - unat q"
proof -
  have "unat q < 2 ^ LENGTH('a)" by (rule unsigned_less)
  then have "unat q \<le> 2 ^ LENGTH('a) - 1" by linarith
  then show ?thesis by (simp add: unat_sub_mod unsigned_minus_1_eq_mask mask_eq_exp_minus_1)
qed

text \<open>A loop that adds up words: modulo the word size always, exactly when nothing wraps.\<close>

lemma fold_plus_eq: "fold (\<lambda>x s. s + f x) xs s = s + (\<Sum>x\<leftarrow>xs. f x)"
  for s :: "'b::comm_monoid_add"
  by (induction xs arbitrary: s) (simp_all add: add.assoc)

lemma unat_sum_list_exact:
  fixes f :: "'b \<Rightarrow> 'a::len word"
  assumes "(\<Sum>x\<leftarrow>xs. unat (f x)) < 2 ^ LENGTH('a)"
  shows "unat (\<Sum>x\<leftarrow>xs. f x) = (\<Sum>x\<leftarrow>xs. unat (f x))"
  using assms by (induction xs) (simp_all add: unat_plus_exact)

section \<open>Numbers in a fixed number of digits\<close>

text \<open>The value of a big-endian digit list, and the digits of a value in a fixed width; the base
  conversions of the sources are two views of one number.\<close>

definition be_val :: "nat \<Rightarrow> nat list \<Rightarrow> nat" where
  "be_val b ds = foldl (\<lambda>v d. v * b + d) 0 ds"

fun be_digits :: "nat \<Rightarrow> nat \<Rightarrow> nat \<Rightarrow> nat list" where
  "be_digits b 0 v = []"
| "be_digits b (Suc n) v = be_digits b n (v div b) @ [v mod b]"

lemma be_val_Nil [simp]: "be_val b [] = 0"
  and be_val_snoc [simp]: "be_val b (ds @ [d]) = be_val b ds * b + d"
  by (simp_all add: be_val_def)

lemma length_be_digits [simp]: "length (be_digits b n v) = n"
  by (induction b n v rule: be_digits.induct) auto

lemma be_digits_less: "0 < b \<Longrightarrow> d \<in> set (be_digits b n v) \<Longrightarrow> d < b"
  by (induction b n v rule: be_digits.induct) auto

lemma be_val_less: "(\<And>d. d \<in> set ds \<Longrightarrow> d < b) \<Longrightarrow> be_val b ds < b ^ length ds"
proof (induction ds rule: rev_induct)
  case (snoc d ds)
  then have "be_val b ds + 1 \<le> b ^ length ds" "d < b" by auto
  then have "(be_val b ds + 1) * b \<le> b ^ length ds * b" by (intro mult_right_mono) auto
  with \<open>d < b\<close> show ?case by (simp add: add_mult_distrib mult.commute)
qed simp

lemma be_val_be_digits: "be_val b (be_digits b n v) = v mod b ^ n"
proof (induction b n v rule: be_digits.induct)
  case (2 b n v)
  have "v mod b ^ Suc n = v div b mod b ^ n * b + v mod b"
    using mod_mult2_eq [of v b "b ^ n"] by (simp add: mult.commute)
  then show ?case using 2 by simp
qed simp

lemma be_digits_be_val:
  "(\<And>d. d \<in> set ds \<Longrightarrow> d < b) \<Longrightarrow> be_digits b (length ds) (be_val b ds) = ds"
proof (induction ds rule: rev_induct)
  case (snoc d ds)
  then have "d < b" by simp
  then have "(be_val b ds * b + d) div b = be_val b ds" "(be_val b ds * b + d) mod b = d" by simp_all
  then show ?case using snoc by simp
qed simp

end
