(* ===== verification/StreamTools.thy ===== *)
theory StreamTools
  imports Prelude
begin

text \<open>
  \<^verbatim>\<open>src/Common/StreamTools.cpp\<close> over \<^verbatim>\<open>src/Common/MemoryInputStream.cpp\<close>: reading and writing raw
  bytes and variable-length integers. An input stream is the list of bytes that are still unread, so
  a reader takes that list and returns its value with the rest, or the exception it throws; a writer
  returns the bytes it appends, or the exception. The four overloads of \<open>readVarint\<close> have one text
  and differ in the width of the result, so one definition over the word length models them all.
  The theory ends with \<open>codec\<close>, the contract every serializable type of the development meets.
\<close>

section \<open>Streams, exceptions and their sequencing\<close>

datatype stream_error = ReadFailed | ValueOverflow | InvalidRepresentation
  | ArraySizeTooBig | StringSizeTooBig | InvalidBlobSize | UnknownVariantTag
  | WrongTransactionVersion | WrongMajorVersion
  | UnexpectedSignaturesSize | SignaturesNotExpected | WrongValue

type_synonym 'a reader = "bytes \<Rightarrow> stream_error + ('a \<times> bytes)"
type_synonym writer = "stream_error + bytes"

definition rbind :: "'a reader \<Rightarrow> ('a \<Rightarrow> 'b reader) \<Rightarrow> 'b reader" where
  "rbind m f = (\<lambda>bs. case m bs of Inl e \<Rightarrow> Inl e | Inr (x, r) \<Rightarrow> f x r)"

definition rreturn :: "'a \<Rightarrow> 'a reader" where
  "rreturn x = (\<lambda>bs. Inr (x, bs))"

definition rthrow :: "stream_error \<Rightarrow> 'a reader" where
  "rthrow e = (\<lambda>bs. Inl e)"

definition wcat :: "writer \<Rightarrow> writer \<Rightarrow> writer" where
  "wcat a b = (case a of Inl e \<Rightarrow> Inl e | Inr x \<Rightarrow> (case b of Inl e \<Rightarrow> Inl e | Inr y \<Rightarrow> Inr (x @ y)))"

section \<open>Operations\<close>

definition read_bytes :: "nat \<Rightarrow> bytes reader" where
  "read_bytes n bs = (if length bs < n then Inl ReadFailed else Inr (take n bs, drop n bs))"

fun readVarint_loop :: "nat \<Rightarrow> 'a::len word \<Rightarrow> 'a word reader" where
  "readVarint_loop shift temp [] = Inl ReadFailed"
| "readVarint_loop shift temp (piece # rest) =
     (if LENGTH('a) - 7 \<le> shift \<and> 2 ^ (LENGTH('a) - shift) \<le> unat piece then Inl ValueOverflow
      else
        let temp = temp OR ucast (push_bit shift (ucast (piece AND 0x7F) :: uint64))
        in if piece AND 0x80 = 0
           then if piece = 0 \<and> shift \<noteq> 0 then Inl InvalidRepresentation else Inr (temp, rest)
           else readVarint_loop (shift + 7) temp rest)"

definition readVarint :: "'a::len word reader" where
  "readVarint = readVarint_loop 0 0"

function writeVarint :: "uint64 \<Rightarrow> bytes" where
  "writeVarint v = (if 0x80 \<le> v then ucast (v OR 0x80) # writeVarint (drop_bit 7 v) else [ucast v])"
  by pat_completeness auto
termination
proof (relation "measure unat")
  fix v :: uint64
  assume "0x80 \<le> v"
  then have "unat (0x80 :: uint64) \<le> unat v" by (simp only: word_le_nat_alt)
  then show "(drop_bit 7 v, v) \<in> measure unat" by (simp add: unat_simps)
qed simp

declare writeVarint.simps [simp del]

section \<open>Variable-length integers\<close>

text \<open>The reference encoding: base-128 digits of a natural number, least significant first.\<close>

fun varint_digits :: "nat \<Rightarrow> bytes" where
  "varint_digits n = (if n < 128 then [of_nat n] else of_nat (n mod 128 + 128) # varint_digits (n div 128))"

declare varint_digits.simps [simp del]

lemma last_digit: "unat (v :: uint64) < 128 \<Longrightarrow> ucast v = (of_nat (unat v) :: uint8)"
  by (rule word_unat_eq_iff [THEN iffD2]) (simp add: unat_simps unat_of_nat)

lemma take_bit_or_push_bit_1:
  "take_bit (Suc n) (v OR push_bit n 1) = (take_bit n v OR push_bit n 1 :: 'a::len word)"
  by (rule bit_word_eqI) (auto simp: bit_simps less_Suc_eq)
lemma unat_or_0x80: "unat ((v :: uint64) OR 0x80) mod 256 = unat v mod 128 + 128"
proof -
  have "unat (v OR 0x80) mod 256 = unat (take_bit (Suc 7) (v OR push_bit 7 1))"
    by (simp only: unat_take_bit) simp
  also have "\<dots> = unat (take_bit 7 v OR push_bit 7 1)"
    by (simp only: take_bit_or_push_bit_1)
  also have "\<dots> = unat v mod 128 + 128"
    using unat_or_push_bit [of "take_bit 7 v" 7 1] by (simp add: unat_simps)
  finally show ?thesis .
qed

lemma high_digit: "ucast ((v :: uint64) OR 0x80) = (of_nat (unat v mod 128 + 128) :: uint8)"
  by (rule word_unat_eq_iff [THEN iffD2]) (simp add: unat_simps unat_of_nat unat_or_0x80 del: of_nat_add)

lemma writeVarint_digits: "writeVarint v = varint_digits (unat v)"
proof (induction v rule: writeVarint.induct)
  case (1 v)
  show ?case
  proof (cases "0x80 \<le> v")
    case True
    then have "\<not> unat v < 128" by (simp add: word_le_nat_alt)
    with 1 True show ?thesis
      by (subst writeVarint.simps, subst varint_digits.simps) (simp add: high_digit unat_simps)
  next
    case False
    then have "unat v < 128" by (simp add: word_le_nat_alt)
    with False show ?thesis
      by (subst writeVarint.simps, subst varint_digits.simps) (simp only: last_digit if_True if_False)
  qed
qed

lemma piece_high: "(piece :: uint8) AND 0x80 = 0 \<longleftrightarrow> unat piece < 128"
proof -
  have "piece AND 0x80 = 0 \<longleftrightarrow> \<not> bit piece 7"
    using and_exp_eq_0_iff_not_bit[of piece 7] by simp
  also have "\<dots> \<longleftrightarrow> \<not> bit (unat piece) 7" by (simp only: bit_unsigned_iff) simp
  also have "\<dots> \<longleftrightarrow> unat piece div 128 \<noteq> 1"
    using less_mult_imp_div_less [of "unat piece" 2 128] unat_bound8 [of piece]
    by (auto simp: bit_iff_odd less_2_cases_iff simp del: unat_bound8)
  also have "\<dots> \<longleftrightarrow> unat piece < 128"
    using unat_bound8 [of piece] by linarith
  finally show ?thesis .
qed
lemma varint_accumulate:
  fixes temp :: "'a::len word" and piece :: uint8
  assumes "LENGTH('a) \<le> 64" "unat temp < 2 ^ shift" "unat piece mod 128 * 2 ^ shift < 2 ^ LENGTH('a)"
  shows "unat (temp OR ucast (push_bit shift (ucast (piece AND 0x7F) :: uint64))) =
         unat temp + unat piece mod 128 * 2 ^ shift"
proof -
  have piece_low: "unat (piece AND 0x7F :: uint8) = unat piece mod 128"
    using unat_take_bit [of 7 piece] by (simp add: take_bit_eq_mask mask_eq_exp_minus_1)
  let ?p = "unat piece mod 128"
  have "(2::nat) ^ LENGTH('a) \<le> 2 ^ 64" using assms(1) by (rule power_increasing) simp
  then have big: "?p * 2 ^ shift < 2 ^ 64" using assms(3) by linarith
  have "?p \<le> ?p * 2 ^ shift" by simp
  then have "?p < 2 ^ LENGTH('a)" using assms(3) by linarith
  then have ph: "unat (of_nat ?p :: 'a word) = ?p" by (simp add: unat_of_nat)
  have "ucast (push_bit shift (ucast (piece AND 0x7F) :: uint64)) = push_bit shift (of_nat ?p :: 'a word)"
    by (rule word_unat_eq_iff [THEN iffD2]) (use big assms(3) ph piece_low in \<open>simp add: unat_simps\<close>)
  then show ?thesis using unat_or_push_bit [of temp shift "of_nat ?p"] assms ph by simp
qed

lemma varint_step_bound:
  assumes "(t :: nat) < 2 ^ shift"
  shows "t + p mod 128 * 2 ^ shift < 2 ^ (shift + 7)"
proof -
  have "p mod 128 * 2 ^ shift \<le> 127 * 2 ^ shift" by (intro mult_le_mono1) simp
  with assms have "t + p mod 128 * 2 ^ shift < 2 ^ shift + 127 * 2 ^ shift" by linarith
  then show ?thesis by (simp add: power_add)
qed

text \<open>The two laws of the format: decoding inverts encoding, and only canonical encodings decode.\<close>

lemma readVarint_loop_digits:
  assumes len: "LENGTH('a) \<le> 64" "7 \<le> LENGTH('a)"
    and "unat temp < 2 ^ shift" "n * 2 ^ shift < 2 ^ LENGTH('a)" "shift = 0 \<or> 0 < n"
  shows "readVarint_loop shift (temp :: 'a::len word) (varint_digits n @ rest) =
         Inr (of_nat (unat temp + n * 2 ^ shift), rest)"
  using assms(3-)
proof (induction n arbitrary: shift temp rule: varint_digits.induct)
  case (1 n)
  note temp = "1.prems"(1) and fits = "1.prems"(2) and pos = "1.prems"(3)
  have shift: "shift < LENGTH('a)"
  proof (rule ccontr)
    assume "\<not> shift < LENGTH('a)"
    then have "(2::nat) ^ LENGTH('a) \<le> 2 ^ shift" by simp
    with fits have "n = 0" by (cases n) auto
    with pos \<open>\<not> shift < LENGTH('a)\<close> show False by simp
  qed
  have "(2::nat) ^ LENGTH('a) = 2 ^ (LENGTH('a) - shift) * 2 ^ shift"
    using shift by (simp flip: power_add)
  with fits have small: "n < 2 ^ (LENGTH('a) - shift)" by simp
  have "n mod 128 * 2 ^ shift \<le> n * 2 ^ shift" by simp
  with fits have low: "n mod 128 * 2 ^ shift < 2 ^ LENGTH('a)" by linarith
  show ?case
  proof (cases "n < 128")
    case True
    let ?p = "of_nat n :: uint8"
    have p: "unat ?p = n" using True by (simp add: unat_of_nat)
    then have p0: "?p = 0 \<longleftrightarrow> n = 0" by (simp add: word_unat_eq_iff)
    let ?t = "temp OR ucast (push_bit shift (ucast (?p AND 0x7F) :: uint64))"
    have t: "unat ?t = unat temp + n * 2 ^ shift"
      using varint_accumulate [of temp shift ?p] len temp low p True by simp
    have "?t = of_nat (unat temp + n * 2 ^ shift)"
      by (rule word_unat_eq_iff [THEN iffD2]) (simp only: unat_of_nat flip: t, simp)
    moreover have "\<not> (2 ^ (LENGTH('a) - shift) \<le> unat ?p)" using small p by simp
    moreover have "\<not> (?p = 0 \<and> shift \<noteq> 0)" using pos p0 by auto
    moreover have "?p AND 0x80 = 0" using p True by (simp add: piece_high)
    ultimately show ?thesis
      using True by (subst varint_digits.simps) (simp add: Let_def)
  next
    case False
    let ?p = "of_nat (n mod 128 + 128) :: uint8"
    have p: "unat ?p = n mod 128 + 128"
      by (simp only: unat_of_nat) simp
    let ?t = "temp OR ucast (push_bit shift (ucast (?p AND 0x7F) :: uint64))"
    have t: "unat ?t = unat temp + n mod 128 * 2 ^ shift"
      using varint_accumulate [of temp shift ?p] len temp low p by simp
    have "\<not> LENGTH('a) - 7 \<le> shift"
    proof
      assume "LENGTH('a) - 7 \<le> shift"
      then have "(2::nat) ^ (LENGTH('a) - shift) \<le> 2 ^ 7" by (intro power_increasing) simp_all
      with small False show False by simp
    qed
    moreover have "?p AND 0x80 \<noteq> 0" using p by (simp add: piece_high)
    moreover have "readVarint_loop (shift + 7) ?t (varint_digits (n div 128) @ rest) =
        Inr (of_nat (unat temp + n * 2 ^ shift), rest)"
    proof -
      have 1: "unat ?t < 2 ^ (shift + 7)"
        unfolding t using temp by (rule varint_step_bound)
      have "n div 128 * 2 ^ (shift + 7) = n div 128 * 128 * 2 ^ shift" by (simp add: power_add)
      also have "\<dots> \<le> n * 2 ^ shift" by (intro mult_le_mono1) simp
      finally have 2: "n div 128 * 2 ^ (shift + 7) < 2 ^ LENGTH('a)"
        using fits by (rule order_le_less_trans)
      have regroup: "(a + c * s) + b * (s * 128) = a + (b * 128 + c) * s" for a b c s :: nat
        by (simp add: algebra_simps)
      have "unat ?t + n div 128 * 2 ^ (shift + 7) =
          unat temp + (n div 128 * 128 + n mod 128) * 2 ^ shift"
        unfolding t using regroup [of "unat temp" "n mod 128" "2 ^ shift" "n div 128"]
        by (simp only: power_add) simp
      then have 3: "unat ?t + n div 128 * 2 ^ (shift + 7) = unat temp + n * 2 ^ shift"
        by (simp only: div_mult_mod_eq)
      have "shift + 7 = 0 \<or> 0 < n div 128" using False by simp
      from "1.IH" [OF False 1 2 this] show ?thesis unfolding 3 .
    qed
    ultimately show ?thesis
      using False by (subst varint_digits.simps) (simp add: Let_def)
  qed
qed

lemma readVarint_loop_canonical:
  assumes len: "LENGTH('a) \<le> 64" "7 \<le> LENGTH('a)"
    and "unat temp < 2 ^ shift" "shift < LENGTH('a)"
    and "readVarint_loop shift (temp :: 'a::len word) bs = Inr (v, rest)"
  shows "\<exists>n. bs = varint_digits n @ rest \<and> unat v = unat temp + n * 2 ^ shift \<and>
             n * 2 ^ shift < 2 ^ LENGTH('a) \<and> (shift = 0 \<or> 0 < n)"
  using assms(3-)
proof (induction bs arbitrary: shift temp)
  case Nil
  then show ?case by simp
next
  case (Cons piece bs)
  note temp = Cons.prems(1) and shift = Cons.prems(2) and res = Cons.prems(3)
  let ?t = "temp OR ucast (push_bit shift (ucast (piece AND 0x7F) :: uint64))"
  have noov: "\<not> (LENGTH('a) - 7 \<le> shift \<and> 2 ^ (LENGTH('a) - shift) \<le> unat piece)"
    using res by (auto split: if_splits)
  have split: "(2::nat) ^ LENGTH('a) = 2 ^ (LENGTH('a) - shift) * 2 ^ shift"
    using shift by (simp flip: power_add)
  have lt: "unat piece mod 128 < 2 ^ (LENGTH('a) - shift)"
  proof (cases "LENGTH('a) - 7 \<le> shift")
    case True
    with noov have "unat piece < 2 ^ (LENGTH('a) - shift)" by simp
    then show ?thesis by (meson le_less_trans mod_less_eq_dividend)
  next
    case False
    then have "(2::nat) ^ 7 \<le> 2 ^ (LENGTH('a) - shift)" by (intro power_increasing) simp_all
    then show ?thesis by (simp add: order_less_le_trans [of _ 128])
  qed
  then have fits: "unat piece mod 128 * 2 ^ shift < 2 ^ LENGTH('a)" by (simp add: split)
  have t: "unat ?t = unat temp + unat piece mod 128 * 2 ^ shift"
    using varint_accumulate [of temp shift piece] len temp fits by simp
  show ?case
  proof (cases "piece AND 0x80 = 0")
    case True
    then have p: "unat piece < 128" by (simp add: piece_high)
    have "v = ?t" "rest = bs" "\<not> (piece = 0 \<and> shift \<noteq> 0)"
      using res noov True by (auto simp: Let_def split: if_splits)
    moreover have "piece # bs = varint_digits (unat piece) @ bs"
      using p by (subst varint_digits.simps) simp
    ultimately show ?thesis
      using t p fits by (intro exI [of _ "unat piece"]) (auto simp: unat_gt_0)
  next
    case False
    then have p: "128 \<le> unat piece" by (simp add: piece_high)
    have rec: "readVarint_loop (shift + 7) ?t bs = Inr (v, rest)"
      using res noov False by (auto simp: Let_def split: if_splits)
    have shift7: "shift + 7 < LENGTH('a)"
    proof (rule ccontr)
      assume "\<not> shift + 7 < LENGTH('a)"
      then have *: "LENGTH('a) - shift \<le> 7" by simp
      then have "(2::nat) ^ (LENGTH('a) - shift) \<le> 2 ^ 7" by (intro power_increasing) simp_all
      with p * noov show False by simp
    qed
    have "unat ?t < 2 ^ (shift + 7)"
      unfolding t using temp by (rule varint_step_bound)
    from Cons.IH [OF this shift7 rec] obtain m where
      m: "bs = varint_digits m @ rest" "unat v = unat ?t + m * 2 ^ (shift + 7)"
        "m * 2 ^ (shift + 7) < 2 ^ LENGTH('a)" "0 < m" by auto
    let ?n = "m * 128 + unat piece mod 128"
    have pm: "unat piece mod 128 + 128 = unat piece"
      using p unat_bound8 [of piece] by (simp add: mod_if [of "unat piece"] del: unat_bound8)
    have "of_nat (?n mod 128 + 128) = piece"
      using pm by (simp del: of_nat_add)
    then have "piece # bs = varint_digits ?n @ rest"
      using m(1,4) by (subst varint_digits.simps) simp
    moreover have "unat v = unat temp + ?n * 2 ^ shift"
      using m(2) t by (simp add: power_add algebra_simps)
    moreover have "?n * 2 ^ shift < 2 ^ LENGTH('a)"
      using calculation(2) unsigned_less [of v, where ?'a = nat] by linarith
    ultimately show ?thesis using m(4) by (intro exI [of _ ?n]) simp
  qed
qed


lemma readVarint_writeVarint:
  fixes v :: uint64
  assumes "LENGTH('a) \<le> 64" "7 \<le> LENGTH('a)" "unat v < 2 ^ LENGTH('a)"
  shows "readVarint (writeVarint v @ rest) = Inr (ucast v :: 'a::len word, rest)"
proof -
  have "readVarint_loop 0 (0 :: 'a word) (varint_digits (unat v) @ rest) =
        Inr (of_nat (unat (0 :: 'a word) + unat v * 2 ^ 0), rest)"
    by (rule readVarint_loop_digits) (use assms in simp_all)
  then show ?thesis by (simp add: readVarint_def writeVarint_digits)
qed

lemma readVarint_canonical:
  assumes "LENGTH('a) \<le> 64" "7 \<le> LENGTH('a)" "readVarint bs = Inr (v :: 'a::len word, rest)"
  shows "bs = writeVarint (ucast v) @ rest"
proof -
  have "\<exists>n. bs = varint_digits n @ rest \<and> unat v = unat (0 :: 'a word) + n * 2 ^ 0 \<and>
             n * 2 ^ 0 < 2 ^ LENGTH('a) \<and> (0 = (0::nat) \<or> 0 < n)"
    by (rule readVarint_loop_canonical) (use assms in \<open>simp_all add: readVarint_def\<close>)
  then show ?thesis using assms(1) by (auto simp: writeVarint_digits unat_ucast_up)
qed

section \<open>The contract of a reader and a writer\<close>

text \<open>
  A serializable type has a writer, a reader and a well-formedness predicate. The contract says
  that the reader inverts the writer in front of any rest of the stream, and that it accepts
  nothing but what the writer produces.
\<close>

locale codec =
  fixes enc :: "'a \<Rightarrow> writer" and dec :: "'a reader" and wf :: "'a \<Rightarrow> bool"
  assumes enc_wf: "wf x \<Longrightarrow> \<exists>b. enc x = Inr b"
    and dec_enc: "wf x \<Longrightarrow> enc x = Inr b \<Longrightarrow> dec (b @ r) = Inr (x, r)"
    and dec_canonical: "dec bs = Inr (x, r) \<Longrightarrow> wf x \<and> (\<exists>b. enc x = Inr b \<and> bs = b @ r)"
begin

lemma enc_inject: "wf x \<Longrightarrow> wf y \<Longrightarrow> enc x = enc y \<Longrightarrow> x = y"
proof -
  assume wf: "wf x" "wf y" and eq: "enc x = enc y"
  obtain b where b: "enc x = Inr b" using enc_wf [OF wf(1)] ..
  with dec_enc [OF wf(1) b, of "[]"] dec_enc [OF wf(2), of b "[]"] eq show "x = y" by simp
qed

lemma enc_prefix_free:
  assumes "wf x" "wf y" "enc x = Inr a" "enc y = Inr b" "a @ r = b @ s"
  shows "x = y \<and> r = s"
  using dec_enc [OF assms(1,3), of r] dec_enc [OF assms(2,4), of s] assms(5) by simp

lemma dec_iff: "dec bs = Inr (x, r) \<longleftrightarrow> wf x \<and> (\<exists>b. enc x = Inr b \<and> bs = b @ r)"
  using dec_enc dec_canonical by blast

lemma dec_shorter: "dec bs = Inr (x, r) \<Longrightarrow> length r \<le> length bs"
  using dec_canonical by fastforce

end

lemma length_varint_digits: "n < 128 ^ Suc k \<Longrightarrow> length (varint_digits n) \<le> Suc k"
proof (induction k arbitrary: n)
  case (Suc k)
  show ?case
  proof (cases "n < 128")
    case False
    have "n div 128 < 128 ^ Suc k" using Suc.prems by (simp add: less_mult_imp_div_less mult.commute)
    from Suc.IH [OF this] False show ?thesis by (subst varint_digits.simps) simp
  qed (subst varint_digits.simps, simp)
qed (subst varint_digits.simps, simp)

lemma length_writeVarint: "length (writeVarint v) \<le> 10"
  using length_varint_digits [of "unat v" 9] unat_bound64 [of v] by (simp add: writeVarint_digits)

text \<open>A codec is given by when it encodes and by an equation for its reader.\<close>

lemma codec_intro:
  assumes "\<And>x. ok x \<Longrightarrow> \<exists>b. enc x = Inr b"
    and "\<And>bs x r. dec bs = Inr (x, r) \<longleftrightarrow> ok x \<and> (\<exists>b. enc x = Inr b \<and> bs = b @ r)"
  shows "codec enc dec ok"
  using assms by unfold_locales auto

section \<open>Reasoning about sequenced readers and writers\<close>

lemma rbind_Inr_iff: "rbind m f bs = Inr y \<longleftrightarrow> (\<exists>x r. m bs = Inr (x, r) \<and> f x r = Inr y)"
  by (auto simp: rbind_def split: sum.splits)

lemma wcat_Inr_iff: "wcat a b = Inr z \<longleftrightarrow> (\<exists>x y. a = Inr x \<and> b = Inr y \<and> z = x @ y)"
  by (auto simp: wcat_def split: sum.splits)

lemma wcat_Inr [simp]: "wcat (Inr x) (Inr y) = Inr (x @ y)"
  by (simp add: wcat_def)

lemma rreturn_Inr_iff [simp]: "rreturn x bs = Inr (y, r) \<longleftrightarrow> x = y \<and> bs = r"
  by (auto simp: rreturn_def)

lemma rthrow_neq [simp]: "rthrow e bs \<noteq> Inr y"
  by (simp add: rthrow_def)

lemma read_bytes_iff: "read_bytes n bs = Inr (b, r) \<longleftrightarrow> length b = n \<and> bs = b @ r"
  by (auto simp: read_bytes_def)

lemma guard_iff: "(if c then rthrow e else m) bs = Inr y \<longleftrightarrow> \<not> c \<and> m bs = Inr y"
  by simp

lemma wguard_iff: "(if c then Inl e else w) = (Inr y :: writer) \<longleftrightarrow> \<not> c \<and> w = Inr y"
  by simp

lemmas io_iff = rbind_Inr_iff wcat_Inr_iff rreturn_Inr_iff read_bytes_iff guard_iff wguard_iff

end
