(* ===== verification/CryptoTypes.thy ===== *)
theory CryptoTypes
  imports StreamTools
begin

text \<open>
  The data model of \<^verbatim>\<open>include/CryptoTypes.h\<close> and \<^verbatim>\<open>include/CryptoNote.h\<close>. The fixed-size byte arrays
  (\<open>Hash\<close>, keys, key images, signatures) are words of that many bits: byte \<open>i\<close> of the array is bits
  \<open>8 i\<close> to \<open>8 i + 7\<close>, so that copying the array in or out of a buffer is \<open>pod_bytes\<close> and
  \<open>pod_of_bytes\<close>, and reading the array as little-endian 64-bit limbs reads the word's limbs. A
  \<open>boost::variant\<close> is a datatype and a struct with a base struct is a record extension.
\<close>

section \<open>Fixed-size arrays\<close>

type_synonym Hash = "256 word"
type_synonym PublicKey = "256 word"
type_synonym SecretKey = "256 word"
type_synonym KeyDerivation = "256 word"
type_synonym KeyImage = "256 word"
type_synonym Signature = "512 word"

definition NULL_HASH :: Hash where
  "NULL_HASH = 0"

definition pod_bytes :: "nat \<Rightarrow> 'a::len word \<Rightarrow> bytes" where
  "pod_bytes n w = map (\<lambda>i. ucast (drop_bit (8 * i) w)) [0..<n]"

fun pod_of_bytes :: "bytes \<Rightarrow> 'a::len word" where
  "pod_of_bytes [] = 0"
| "pod_of_bytes (b # bs) = ucast b OR push_bit 8 (pod_of_bytes bs)"

section \<open>Transactions and blocks\<close>

datatype TransactionInput =
    BaseInput uint32  \<comment> \<open>blockIndex\<close>
  | KeyInput uint64 "uint32 list" KeyImage  \<comment> \<open>amount, outputIndexes, keyImage\<close>
  | MultisignatureInput uint64 uint8 uint32 uint32  \<comment> \<open>amount, signatureCount, outputIndex, term\<close>

datatype TransactionOutputTarget =
    KeyOutput PublicKey  \<comment> \<open>key\<close>
  | MultisignatureOutput "PublicKey list" uint8 uint32  \<comment> \<open>keys, requiredSignatureCount, term\<close>

record TransactionOutput =
  amount :: uint64
  target :: TransactionOutputTarget

record TransactionPrefix =
  version :: uint8
  unlockTime :: uint64
  inputs :: "TransactionInput list"
  outputs :: "TransactionOutput list"
  extra :: bytes

record Transaction = TransactionPrefix +
  signatures :: "Signature list list"

record BlockHeader =
  majorVersion :: uint8
  minorVersion :: uint8
  nonce :: uint32
  timestamp :: uint64
  previousBlockHash :: Hash

record Block = BlockHeader +
  baseTransaction :: Transaction
  transactionHashes :: "Hash list"

record AccountPublicAddress =
  spendPublicKey :: PublicKey
  viewPublicKey :: PublicKey

record AccountKeys =
  address :: AccountPublicAddress
  spendSecretKey :: SecretKey
  viewSecretKey :: SecretKey

record KeyPair =
  publicKey :: PublicKey
  secretKey :: SecretKey

section \<open>Arrays and their bytes\<close>

lemma length_pod_bytes [simp]: "length (pod_bytes n w) = n"
  by (simp add: pod_bytes_def)

lemma pod_bytes_0 [simp]: "pod_bytes 0 w = []"
  by (simp add: pod_bytes_def)

lemma pod_bytes_Suc:
  "pod_bytes (Suc n) w = ucast w # pod_bytes n (drop_bit 8 w)"
proof -
  have "pod_bytes (Suc n) w = map (\<lambda>i. ucast (drop_bit (8 * i) w)) (0 # map Suc [0..<n])"
    by (simp add: pod_bytes_def map_Suc_upt upt_conv_Cons del: upt_Suc)
  then show ?thesis by (simp add: pod_bytes_def comp_def ac_simps)
qed

lemma bit_pod_of_bytes_less: "bit (pod_of_bytes bs :: 'a::len word) i \<Longrightarrow> i < 8 * length bs"
proof (induction bs arbitrary: i)
  case (Cons b bs)
  show ?case
  proof (cases "i < 8")
    case False
    have "\<not> bit b i"
      using False bit_imp_le_length [of b i] by auto
    then have "bit (pod_of_bytes bs :: 'a word) (i - 8)"
      using Cons.prems by (auto simp: bit_simps)
    then have "i - 8 < 8 * length bs" by (rule Cons.IH)
    then show ?thesis by simp
  qed simp
qed simp

lemma pod_of_bytes_pod_bytes:
  "pod_of_bytes (pod_bytes n w) = take_bit (8 * n) (w :: 'a::len word)"
proof (induction n arbitrary: w)
  case (Suc n)
  have "pod_of_bytes (pod_bytes (Suc n) w) =
      ucast (ucast w :: uint8) OR push_bit 8 (take_bit (8 * n) (drop_bit 8 w))"
    by (simp add: pod_bytes_Suc Suc.IH)
  also have "\<dots> = take_bit (8 * Suc n) w"
    by (rule bit_word_eqI) (auto simp: bit_simps)
  finally show ?case .
qed simp

lemma pod_bytes_pod_of_bytes:
  "8 * length bs \<le> LENGTH('a) \<Longrightarrow> pod_bytes (length bs) (pod_of_bytes bs :: 'a::len word) = bs"
proof (induction bs)
  case (Cons b bs)
  let ?p = "pod_of_bytes bs :: 'a word"
  have "ucast (ucast b OR push_bit 8 ?p) = b"
    by (rule bit_word_eqI) (use Cons.prems in \<open>auto simp: bit_simps\<close>)
  moreover have "drop_bit 8 (ucast b OR push_bit 8 ?p) = ?p"
  proof (rule bit_word_eqI)
    fix i
    have "bit ?p i \<Longrightarrow> 8 + i < LENGTH('a)"
      using bit_pod_of_bytes_less [of bs i] Cons.prems by fastforce
    moreover have "\<not> bit b (8 + i)" using bit_imp_le_length [of b "8 + i"] by auto
    ultimately show "bit (drop_bit 8 (ucast b OR push_bit 8 ?p)) i = bit ?p i"
      by (auto simp: bit_simps)
  qed
  ultimately show ?case using Cons by (simp add: pod_bytes_Suc)
qed simp

lemma pod_of_bytes_full:
  "8 * n = LENGTH('a) \<Longrightarrow> pod_of_bytes (pod_bytes n w) = (w :: 'a::len word)"
  by (simp add: pod_of_bytes_pod_bytes)

end
