(* ===== verification/BinarySerializer.thy ===== *)
theory BinarySerializer
  imports CryptoTypes
begin

text \<open>
  \<^verbatim>\<open>src/Serialization/BinaryInputStreamSerializer.cpp\<close>, \<^verbatim>\<open>BinaryOutputStreamSerializer.cpp\<close> and the
  container templates of \<^verbatim>\<open>SerializationOverloads.h\<close>. Each \<open>operator()\<close> of the output serializer is
  a writer (\<open>out_\<dots>\<close>), the one of the input serializer with the same argument type a reader
  (\<open>in_\<dots>\<close>); the interpretations of \<open>codec\<close> are their contract. Signed integers are the words
  of their two's complement representation, as the casts in the code make them.
\<close>

section \<open>Scalars\<close>

definition out_uint8 :: "uint8 \<Rightarrow> writer" where
  "out_uint8 v = Inr (writeVarint (ucast v))"

definition out_uint16 :: "uint16 \<Rightarrow> writer" where
  "out_uint16 v = Inr (writeVarint (ucast v))"

definition out_uint32 :: "uint32 \<Rightarrow> writer" where
  "out_uint32 v = Inr (writeVarint (ucast v))"

definition out_uint64 :: "uint64 \<Rightarrow> writer" where
  "out_uint64 v = Inr (writeVarint v)"

definition out_bool :: "bool \<Rightarrow> writer" where
  "out_bool v = Inr [if v then 1 else 0]"

definition in_uint8 :: "uint8 reader" where
  "in_uint8 = readVarint"

definition in_uint16 :: "uint16 reader" where
  "in_uint16 = readVarint"

definition in_uint32 :: "uint32 reader" where
  "in_uint32 = readVarint"

definition in_uint64 :: "uint64 reader" where
  "in_uint64 = readVarint"

definition in_bool :: "bool reader" where
  "in_bool = rbind (read_bytes 1) (\<lambda>b. rreturn (b \<noteq> [0]))"

section \<open>Blobs and strings\<close>

definition max_container_size :: nat where
  "max_container_size = 100 * 1024 * 1024"

definition out_binary :: "bytes \<Rightarrow> writer" where
  "out_binary data = Inr data"

definition in_binary :: "nat \<Rightarrow> bytes reader" where
  "in_binary n = read_bytes n"

definition out_string :: "bytes \<Rightarrow> writer" where
  "out_string data = wcat (Inr (writeVarint (of_nat (length data)))) (Inr data)"

definition in_string :: "bytes reader" where
  "in_string = rbind in_uint64 (\<lambda>size.
     if max_container_size < unat size then rthrow StringSizeTooBig
     else if 0 < size then read_bytes (unat size)
     else rreturn [])"

definition out_pod :: "'a::len word \<Rightarrow> writer" where
  "out_pod w = out_binary (pod_bytes (LENGTH('a) div 8) w)"

definition in_pod :: "'a::len word reader" where
  "in_pod = rbind (in_binary (LENGTH('a) div 8)) (\<lambda>b. rreturn (pod_of_bytes b))"

section \<open>Containers\<close>

definition out_beginArray :: "nat \<Rightarrow> writer" where
  "out_beginArray n = Inr (writeVarint (of_nat n))"

definition in_beginArray :: "nat reader" where
  "in_beginArray = rbind in_uint64 (\<lambda>size.
     if max_container_size < unat size then rthrow ArraySizeTooBig else rreturn (unat size))"

fun out_items :: "('a \<Rightarrow> writer) \<Rightarrow> 'a list \<Rightarrow> writer" where
  "out_items f [] = Inr []"
| "out_items f (x # xs) = wcat (f x) (out_items f xs)"

fun in_items :: "'a reader \<Rightarrow> nat \<Rightarrow> 'a list reader" where
  "in_items f 0 = rreturn []"
| "in_items f (Suc n) = rbind f (\<lambda>x. rbind (in_items f n) (\<lambda>xs. rreturn (x # xs)))"

definition out_container :: "('a \<Rightarrow> writer) \<Rightarrow> 'a list \<Rightarrow> writer" where
  "out_container f xs = wcat (out_beginArray (length xs)) (out_items f xs)"

definition in_container :: "'a reader \<Rightarrow> 'a list reader" where
  "in_container f = rbind in_beginArray (in_items f)"

definition out_pair :: "('a \<Rightarrow> writer) \<Rightarrow> ('b \<Rightarrow> writer) \<Rightarrow> 'a \<times> 'b \<Rightarrow> writer" where
  "out_pair f g p = wcat (f (fst p)) (g (snd p))"

definition in_pair :: "'a reader \<Rightarrow> 'b reader \<Rightarrow> ('a \<times> 'b) reader" where
  "in_pair f g = rbind f (\<lambda>x. rbind g (\<lambda>y. rreturn (x, y)))"

text \<open>The vector form of \<open>serializeAsBinary\<close>: the elements' bytes as one string.\<close>

definition blob_of :: "'a::len word list \<Rightarrow> bytes" where
  "blob_of value = concat (map (pod_bytes (LENGTH('a) div 8)) value)"

fun blob_items :: "nat \<Rightarrow> bytes \<Rightarrow> 'a::len word list" where
  "blob_items 0 blob = []"
| "blob_items (Suc n) blob =
     pod_of_bytes (take (LENGTH('a) div 8) blob) # blob_items n (drop (LENGTH('a) div 8) blob)"

definition out_asBinary :: "'a::len word list \<Rightarrow> writer" where
  "out_asBinary value = out_string (blob_of value)"

definition in_asBinary :: "'a::len word list reader" where
  "in_asBinary = rbind in_string (\<lambda>blob.
     if length blob mod (LENGTH('a) div 8) \<noteq> 0 then rthrow InvalidBlobSize
     else rreturn (blob_items (length blob div (LENGTH('a) div 8)) blob))"

section \<open>The codecs of scalars, blobs and strings\<close>

lemma varint_codec:
  assumes "LENGTH('a) \<le> 64" "7 \<le> LENGTH('a)"
  shows "codec (\<lambda>v :: 'a::len word. Inr (writeVarint (ucast v))) readVarint (\<lambda>_. True)"
proof (rule codec_intro)
  fix bs r and x :: "'a word"
  have "unat (ucast x :: uint64) < 2 ^ LENGTH('a)"
    using assms by (simp add: unat_ucast_up)
  then show "readVarint bs = Inr (x, r) \<longleftrightarrow>
      True \<and> (\<exists>b. Inr (writeVarint (ucast x)) = (Inr b :: writer) \<and> bs = b @ r)"
    using readVarint_canonical [OF assms, of bs x r] readVarint_writeVarint [OF assms, of "ucast x" r] assms
    by (auto simp: ucast_up_down)
qed simp

interpretation u8: codec out_uint8 in_uint8 "\<lambda>_. True"
  using varint_codec [where 'a = 8] by (simp add: out_uint8_def [abs_def] in_uint8_def)

interpretation u16: codec out_uint16 in_uint16 "\<lambda>_. True"
  using varint_codec [where 'a = 16] by (simp add: out_uint16_def [abs_def] in_uint16_def)

interpretation u32: codec out_uint32 in_uint32 "\<lambda>_. True"
  using varint_codec [where 'a = 32] by (simp add: out_uint32_def [abs_def] in_uint32_def)

interpretation u64: codec out_uint64 in_uint64 "\<lambda>_. True"
  using varint_codec [where 'a = 64] by (simp add: out_uint64_def [abs_def] in_uint64_def)

lemmas scalar_out = out_uint8_def out_uint16_def out_uint32_def out_uint64_def

lemma in_uint64_iff: "in_uint64 bs = Inr (x, r) \<longleftrightarrow> bs = writeVarint x @ r"
  by (simp add: u64.dec_iff out_uint64_def)

lemma of_nat_size: "n \<le> max_container_size \<Longrightarrow> unat (of_nat n :: uint64) = n"
  by (simp add: max_container_size_def unat_of_nat_small)

lemma ex_unat_size:
  "(\<exists>s :: uint64. unat s \<le> max_container_size \<and> n = unat s \<and> P s) \<longleftrightarrow>
   n \<le> max_container_size \<and> P (of_nat n)"
proof
  assume "n \<le> max_container_size \<and> P (of_nat n)"
  then show "\<exists>s :: uint64. unat s \<le> max_container_size \<and> n = unat s \<and> P s"
    by (intro exI [of _ "of_nat n"]) (simp add: of_nat_size)
qed auto

lemma in_string_iff:
  "in_string bs = Inr (s, r) \<longleftrightarrow>
   length s \<le> max_container_size \<and> bs = writeVarint (of_nat (length s)) @ s @ r"
proof -
  have zero: "\<not> 0 < n \<longleftrightarrow> n = 0" for n :: uint64
    by (simp add: word_gt_0)
  have branch: "(if 0 < n then read_bytes (unat n) else rreturn []) bs' = Inr (s, r) \<longleftrightarrow>
      length s = unat n \<and> bs' = s @ r" for n :: uint64 and bs'
    by (cases "0 < n") (auto simp: read_bytes_iff zero)
  show ?thesis
    unfolding in_string_def rbind_Inr_iff in_uint64_iff guard_iff branch not_less
    using ex_unat_size [of "length s" "\<lambda>n. bs = writeVarint n @ s @ r"] by blast
qed

interpretation str: codec out_string in_string "\<lambda>s. length s \<le> max_container_size"
  by (rule codec_intro) (auto simp: in_string_iff out_string_def)

lemma in_beginArray_iff:
  "in_beginArray bs = Inr (n, r) \<longleftrightarrow> n \<le> max_container_size \<and> bs = writeVarint (of_nat n) @ r"
  unfolding in_beginArray_def rbind_Inr_iff in_uint64_iff guard_iff rreturn_Inr_iff not_less
  using ex_unat_size [of n "\<lambda>s. bs = writeVarint s @ r"] by blast

lemma pod_codec:
  assumes "LENGTH('a) mod 8 = 0"
  shows "codec (out_pod :: 'a::len word \<Rightarrow> writer) in_pod (\<lambda>_. True)"
proof -
  have full: "8 * (LENGTH('a) div 8) = LENGTH('a)"
    using assms by presburger
  have pack: "pod_bytes (LENGTH('a) div 8) (pod_of_bytes bs :: 'a word) = bs"
    if "length bs = LENGTH('a) div 8" for bs
    using that full pod_bytes_pod_of_bytes [where 'a = 'a, of bs] by simp
  show ?thesis
    by (intro codec_intro)
      (auto simp: out_pod_def in_pod_def out_binary_def in_binary_def io_iff pack
        pod_of_bytes_full [OF full])
qed

interpretation nonce32: codec "out_pod :: uint32 \<Rightarrow> writer" in_pod "\<lambda>_. True"
  by (rule pod_codec) simp

interpretation pod256: codec "out_pod :: 256 word \<Rightarrow> writer" in_pod "\<lambda>_. True"
  by (rule pod_codec) simp

interpretation pod512: codec "out_pod :: 512 word \<Rightarrow> writer" in_pod "\<lambda>_. True"
  by (rule pod_codec) simp

section \<open>Containers of any codec\<close>

context codec
begin

lemma in_items_iff:
  "in_items dec n bs = Inr (xs, r) \<longleftrightarrow>
   length xs = n \<and> list_all wf xs \<and> (\<exists>b. out_items enc xs = Inr b \<and> bs = b @ r)"
proof (induction n arbitrary: bs xs)
  case (Suc n)
  show ?case
    by (cases xs) (auto simp: rbind_Inr_iff wcat_Inr_iff dec_iff Suc.IH)
qed auto

lemma out_items_wf: "list_all wf xs \<Longrightarrow> \<exists>b. out_items enc xs = Inr b"
  by (induction xs) (use enc_wf in \<open>fastforce simp: wcat_Inr_iff\<close>)+

lemma container_codec:
  "codec (out_container enc) (in_container dec) (\<lambda>xs. length xs \<le> max_container_size \<and> list_all wf xs)"
proof (rule codec_intro)
  fix xs assume "length xs \<le> max_container_size \<and> list_all wf xs"
  then show "\<exists>b. out_container enc xs = Inr b"
    using out_items_wf [of xs] by (auto simp: out_container_def out_beginArray_def wcat_Inr_iff)
qed (auto simp: in_container_def out_container_def out_beginArray_def rbind_Inr_iff wcat_Inr_iff
      in_beginArray_iff in_items_iff)

end

section \<open>Vectors of plain data as one string\<close>

lemma length_blob_of: "length (blob_of (value :: 'a::len word list)) = LENGTH('a) div 8 * length value"
  by (induction "value") (simp_all add: blob_of_def)

lemma blob_items_blob_of:
  assumes "LENGTH('a) mod 8 = 0"
  shows "blob_items (length value) (blob_of value @ rest) = (value :: 'a::len word list)"
proof (induction "value")
  case (Cons w ws)
  have "8 * (LENGTH('a) div 8) = LENGTH('a)" using assms by presburger
  with Cons show ?case by (simp add: blob_of_def pod_of_bytes_full)
qed simp

lemma blob_of_blob_items:
  assumes "LENGTH('a) mod 8 = 0" and "length blob = n * (LENGTH('a) div 8)"
  shows "blob_of (blob_items n blob :: 'a::len word list) = blob"
  using assms(2)
proof (induction n arbitrary: blob)
  case (Suc n)
  let ?k = "LENGTH('a) div 8"
  have full: "8 * ?k = LENGTH('a)" using assms(1) by presburger
  have "pod_bytes ?k (pod_of_bytes (take ?k blob) :: 'a word) = take ?k blob"
    using pod_bytes_pod_of_bytes [of "take ?k blob", where 'a = 'a] full Suc.prems by simp
  moreover have "blob_of (blob_items n (drop ?k blob) :: 'a word list) = drop ?k blob"
    using Suc by simp
  ultimately show ?case by (simp add: blob_of_def)
qed (simp add: blob_of_def)

lemma length_blob_items [simp]: "length (blob_items n blob) = n"
  by (induction n blob rule: blob_items.induct) auto

lemma asBinary_codec:
  assumes "LENGTH('a) mod 8 = 0"
  shows "codec (out_asBinary :: 'a::len word list \<Rightarrow> writer) in_asBinary
    (\<lambda>xs. LENGTH('a) div 8 * length xs \<le> max_container_size)"
proof (rule codec_intro)
  fix bs r and xs :: "'a word list"
  let ?k = "LENGTH('a) div 8"
  have pos: "0 < ?k" using assms len_gt_0 [where 'a = 'a] by presburger
  have "in_asBinary bs = Inr (xs, r) \<longleftrightarrow>
      (\<exists>blob. in_string bs = Inr (blob, r) \<and> length blob mod ?k = 0 \<and>
         blob_items (length blob div ?k) blob = xs)"
    by (auto simp: in_asBinary_def rbind_Inr_iff guard_iff)
  also have "\<dots> \<longleftrightarrow> in_string bs = Inr (blob_of xs, r)"
    using blob_of_blob_items [OF assms] blob_items_blob_of [OF assms, of xs "[]"] pos
    by (auto simp: length_blob_of)
  also have "\<dots> \<longleftrightarrow> ?k * length xs \<le> max_container_size \<and>
      (\<exists>b. out_asBinary xs = Inr b \<and> bs = b @ r)"
    by (auto simp: in_string_iff out_asBinary_def out_string_def length_blob_of)
  finally show "in_asBinary bs = Inr (xs, r) \<longleftrightarrow> ?k * length xs \<le> max_container_size \<and>
      (\<exists>b. out_asBinary xs = Inr b \<and> bs = b @ r)" .
qed (simp add: out_asBinary_def out_string_def)

interpretation extra8: codec "out_asBinary :: bytes \<Rightarrow> writer" in_asBinary
  "\<lambda>xs. length xs \<le> max_container_size"
  using asBinary_codec [where 'a = 8] by simp

interpretation hashes_blob: codec "out_asBinary :: 256 word list \<Rightarrow> writer" in_asBinary
  "\<lambda>xs. 32 * length xs \<le> max_container_size"
  using asBinary_codec [where 'a = 256] by simp

text \<open>For each integer width the reader accepts exactly the bytes the writer produces: a
  variable-length integer has one accepted encoding, overlong and overflowing forms are rejected,
  and every value is read back with the rest of the stream untouched.\<close>

lemma varint_encoding_unique:
  "(in_uint8 bs = Inr (v8, r) \<longleftrightarrow> (\<exists>b. out_uint8 v8 = Inr b \<and> bs = b @ r)) \<and>
   (in_uint16 bs = Inr (v16, r) \<longleftrightarrow> (\<exists>b. out_uint16 v16 = Inr b \<and> bs = b @ r)) \<and>
   (in_uint32 bs = Inr (v32, r) \<longleftrightarrow> (\<exists>b. out_uint32 v32 = Inr b \<and> bs = b @ r)) \<and>
   (in_uint64 bs = Inr (v64, r) \<longleftrightarrow> (\<exists>b. out_uint64 v64 = Inr b \<and> bs = b @ r))"
  by (simp add: u8.dec_iff u16.dec_iff u32.dec_iff u64.dec_iff)

end
