(* ===== verification/CryptoNoteSerialization.thy ===== *)
theory CryptoNoteSerialization
  imports BinarySerializer
begin

text \<open>
  \<^verbatim>\<open>src/CryptoNoteCore/CryptoNoteSerialization.cpp\<close>: the binary form of transactions, blocks and
  keys. A C++ \<open>serialize\<close> function runs in both directions; its two readings are \<open>out_T\<close> and \<open>in_T\<close>.
  Every type is a \<open>codec\<close> on its well-formed values (\<open>wf_T\<close>), which are exactly the values the
  reader can return: what a node hashes and relays is the only encoding of what it decoded.
\<close>

section \<open>Inputs\<close>

definition getSignaturesCount :: "TransactionInput \<Rightarrow> nat" where
  "getSignaturesCount input = (case input of
     BaseInput _ \<Rightarrow> 0
   | KeyInput _ outputIndexes _ \<Rightarrow> length outputIndexes
   | MultisignatureInput _ signatureCount _ _ \<Rightarrow> unat signatureCount)"

definition out_varintVector :: "uint32 list \<Rightarrow> writer" where
  "out_varintVector v = wcat (out_beginArray (length v)) (out_items out_uint32 v)"

definition in_varintVector :: "uint32 list reader" where
  "in_varintVector = rbind in_beginArray (in_items in_uint32)"

definition input_tag :: "TransactionInput \<Rightarrow> uint8" where
  "input_tag i = (case i of BaseInput _ \<Rightarrow> 0xff | KeyInput _ _ _ \<Rightarrow> 0x2 | MultisignatureInput _ _ _ _ \<Rightarrow> 0x3)"

definition out_TransactionInput :: "TransactionInput \<Rightarrow> writer" where
  "out_TransactionInput i = wcat (out_binary [input_tag i]) (case i of
     BaseInput blockIndex \<Rightarrow> out_uint32 blockIndex
   | KeyInput amnt outputIndexes keyImage \<Rightarrow>
       wcat (out_uint64 amnt) (wcat (out_varintVector outputIndexes) (out_pod keyImage))
   | MultisignatureInput amnt signatureCount outputIndex trm \<Rightarrow>
       wcat (out_uint64 amnt) (wcat (out_uint8 signatureCount)
         (wcat (out_uint32 outputIndex) (out_uint32 trm))))"

definition in_inputVariant :: "uint8 \<Rightarrow> TransactionInput reader" where
  "in_inputVariant tag =
     (if tag = 0xff then rbind in_uint32 (\<lambda>blockIndex. rreturn (BaseInput blockIndex))
      else if tag = 0x2 then
        rbind in_uint64 (\<lambda>amnt. rbind in_varintVector (\<lambda>outputIndexes. rbind in_pod (\<lambda>keyImage.
          rreturn (KeyInput amnt outputIndexes keyImage))))
      else if tag = 0x3 then
        rbind in_uint64 (\<lambda>amnt. rbind in_uint8 (\<lambda>signatureCount. rbind in_uint32 (\<lambda>outputIndex.
          rbind in_uint32 (\<lambda>trm. rreturn (MultisignatureInput amnt signatureCount outputIndex trm)))))
      else rthrow UnknownVariantTag)"

definition in_TransactionInput :: "TransactionInput reader" where
  "in_TransactionInput = rbind (in_binary 1) (\<lambda>tag. in_inputVariant (hd tag))"

definition wf_TransactionInput :: "TransactionInput \<Rightarrow> bool" where
  "wf_TransactionInput i = (case i of
     KeyInput _ outputIndexes _ \<Rightarrow> length outputIndexes \<le> max_container_size | _ \<Rightarrow> True)"

section \<open>Outputs\<close>

definition target_tag :: "TransactionOutputTarget \<Rightarrow> uint8" where
  "target_tag t = (case t of KeyOutput _ \<Rightarrow> 0x2 | MultisignatureOutput _ _ _ \<Rightarrow> 0x3)"

definition out_TransactionOutputTarget :: "TransactionOutputTarget \<Rightarrow> writer" where
  "out_TransactionOutputTarget t = wcat (out_binary [target_tag t]) (case t of
     KeyOutput key \<Rightarrow> out_pod key
   | MultisignatureOutput keys requiredSignatureCount trm \<Rightarrow>
       wcat (out_container out_pod keys) (wcat (out_uint8 requiredSignatureCount) (out_uint32 trm)))"

definition in_targetVariant :: "uint8 \<Rightarrow> TransactionOutputTarget reader" where
  "in_targetVariant tag =
     (if tag = 0x2 then rbind in_pod (\<lambda>key. rreturn (KeyOutput key))
      else if tag = 0x3 then
        rbind (in_container in_pod) (\<lambda>keys. rbind in_uint8 (\<lambda>requiredSignatureCount.
          rbind in_uint32 (\<lambda>trm. rreturn (MultisignatureOutput keys requiredSignatureCount trm))))
      else rthrow UnknownVariantTag)"

definition in_TransactionOutputTarget :: "TransactionOutputTarget reader" where
  "in_TransactionOutputTarget = rbind (in_binary 1) (\<lambda>tag. in_targetVariant (hd tag))"

definition out_TransactionOutput :: "TransactionOutput \<Rightarrow> writer" where
  "out_TransactionOutput o1 = wcat (out_uint64 (amount o1)) (out_TransactionOutputTarget (target o1))"

definition in_TransactionOutput :: "TransactionOutput reader" where
  "in_TransactionOutput = rbind in_uint64 (\<lambda>amnt. rbind in_TransactionOutputTarget (\<lambda>tgt.
     rreturn \<lparr>amount = amnt, target = tgt\<rparr>))"

definition wf_TransactionOutput :: "TransactionOutput \<Rightarrow> bool" where
  "wf_TransactionOutput o1 = (case target o1 of
     MultisignatureOutput keys _ _ \<Rightarrow> length keys \<le> max_container_size | _ \<Rightarrow> True)"

section \<open>Transactions\<close>

definition TRANSACTION_VERSION_1 :: uint8 where
  "TRANSACTION_VERSION_1 = 1"

definition TRANSACTION_VERSION_2 :: uint8 where
  "TRANSACTION_VERSION_2 = 2"

definition out_TransactionPrefix :: "'z TransactionPrefix_scheme \<Rightarrow> writer" where
  "out_TransactionPrefix txP = wcat (out_uint8 (version txP))
     (if TRANSACTION_VERSION_2 < version txP then Inl WrongTransactionVersion
      else wcat (out_uint64 (unlockTime txP))
        (wcat (out_container out_TransactionInput (inputs txP))
          (wcat (out_container out_TransactionOutput (outputs txP)) (out_asBinary (extra txP)))))"

definition in_TransactionPrefix :: "TransactionPrefix reader" where
  "in_TransactionPrefix = rbind in_uint8 (\<lambda>ver.
     if TRANSACTION_VERSION_2 < ver then rthrow WrongTransactionVersion
     else rbind in_uint64 (\<lambda>unlock.
       rbind (in_container in_TransactionInput) (\<lambda>vin.
         rbind (in_container in_TransactionOutput) (\<lambda>vout.
           rbind in_asBinary (\<lambda>ext.
             rreturn \<lparr>version = ver, unlockTime = unlock, inputs = vin, outputs = vout, extra = ext\<rparr>)))))"

definition wf_TransactionPrefix :: "'z TransactionPrefix_scheme \<Rightarrow> bool" where
  "wf_TransactionPrefix txP \<longleftrightarrow> version txP \<le> TRANSACTION_VERSION_2 \<and>
     length (inputs txP) \<le> max_container_size \<and> list_all wf_TransactionInput (inputs txP) \<and>
     length (outputs txP) \<le> max_container_size \<and> list_all wf_TransactionOutput (outputs txP) \<and>
     length (extra txP) \<le> max_container_size"

text \<open>The loop of \<open>serialize(Transaction&)\<close> over the inputs, in each direction.\<close>

fun out_signatures :: "bool \<Rightarrow> TransactionInput list \<Rightarrow> Signature list list \<Rightarrow> writer" where
  "out_signatures signaturesNotExpected [] sigs = Inr []"
| "out_signatures signaturesNotExpected (i # is) sigs =
     (let signatureSize = getSignaturesCount i in
      if signaturesNotExpected then
        if signatureSize = 0 then out_signatures signaturesNotExpected is (tl sigs)
        else Inl SignaturesNotExpected
      else if signatureSize \<noteq> length (hd sigs) then Inl UnexpectedSignaturesSize
      else wcat (out_items out_pod (hd sigs)) (out_signatures signaturesNotExpected is (tl sigs)))"

definition out_Transaction :: "'z Transaction_scheme \<Rightarrow> writer" where
  "out_Transaction tx = wcat (out_TransactionPrefix tx)
     (let signaturesNotExpected = (signatures tx = []) in
      if \<not> signaturesNotExpected \<and> length (inputs tx) \<noteq> length (signatures tx)
      then Inl UnexpectedSignaturesSize
      else out_signatures signaturesNotExpected (inputs tx) (signatures tx))"

fun in_signatures :: "TransactionInput list \<Rightarrow> Signature list list reader" where
  "in_signatures [] = rreturn []"
| "in_signatures (i # is) =
     rbind (in_items in_pod (getSignaturesCount i)) (\<lambda>sigs.
       rbind (in_signatures is) (\<lambda>rest. rreturn (sigs # rest)))"

definition in_Transaction :: "Transaction reader" where
  "in_Transaction = rbind in_TransactionPrefix (\<lambda>p. rbind (in_signatures (inputs p)) (\<lambda>sigs.
     rreturn (TransactionPrefix.extend p (Transaction.fields sigs))))"

definition wf_Transaction :: "Transaction \<Rightarrow> bool" where
  "wf_Transaction tx \<longleftrightarrow> wf_TransactionPrefix tx \<and>
     map length (signatures tx) = map getSignaturesCount (inputs tx)"

section \<open>Blocks and keys\<close>

definition BLOCK_MAJOR_VERSION_1 :: uint8 where
  "BLOCK_MAJOR_VERSION_1 = 1"

definition BLOCK_MAJOR_VERSION_2 :: uint8 where
  "BLOCK_MAJOR_VERSION_2 = 2"

definition BLOCK_MAJOR_VERSION_3 :: uint8 where
  "BLOCK_MAJOR_VERSION_3 = 3"

definition out_BlockHeader :: "'z BlockHeader_scheme \<Rightarrow> writer" where
  "out_BlockHeader h = wcat (out_uint8 (majorVersion h))
     (if BLOCK_MAJOR_VERSION_3 < majorVersion h then Inl WrongMajorVersion
      else wcat (out_uint8 (minorVersion h)) (wcat (out_uint64 (timestamp h))
        (wcat (out_pod (previousBlockHash h)) (out_pod (nonce h)))))"

definition in_BlockHeader :: "BlockHeader reader" where
  "in_BlockHeader = rbind in_uint8 (\<lambda>major.
     if BLOCK_MAJOR_VERSION_3 < major then rthrow WrongMajorVersion
     else rbind in_uint8 (\<lambda>minor. rbind in_uint64 (\<lambda>time. rbind in_pod (\<lambda>prev. rbind in_pod (\<lambda>n.
       rreturn \<lparr>majorVersion = major, minorVersion = minor, nonce = n, timestamp = time,
         previousBlockHash = prev\<rparr>)))))"

definition out_Block :: "'z Block_scheme \<Rightarrow> writer" where
  "out_Block b = wcat (out_BlockHeader b)
     (wcat (out_Transaction (baseTransaction b)) (out_container out_pod (transactionHashes b)))"

definition in_Block :: "Block reader" where
  "in_Block = rbind in_BlockHeader (\<lambda>h. rbind in_Transaction (\<lambda>base.
     rbind (in_container in_pod) (\<lambda>hashes.
       rreturn (BlockHeader.extend h (Block.fields base hashes)))))"

definition wf_Block :: "Block \<Rightarrow> bool" where
  "wf_Block b \<longleftrightarrow> majorVersion b \<le> BLOCK_MAJOR_VERSION_3 \<and> wf_Transaction (baseTransaction b) \<and>
     length (transactionHashes b) \<le> max_container_size"

definition out_AccountPublicAddress :: "AccountPublicAddress \<Rightarrow> writer" where
  "out_AccountPublicAddress a = wcat (out_pod (spendPublicKey a)) (out_pod (viewPublicKey a))"

definition in_AccountPublicAddress :: "AccountPublicAddress reader" where
  "in_AccountPublicAddress = rbind in_pod (\<lambda>s. rbind in_pod (\<lambda>v.
     rreturn \<lparr>spendPublicKey = s, viewPublicKey = v\<rparr>))"

definition out_AccountKeys :: "AccountKeys \<Rightarrow> writer" where
  "out_AccountKeys k = wcat (out_AccountPublicAddress (address k))
     (wcat (out_pod (spendSecretKey k)) (out_pod (viewSecretKey k)))"

definition in_AccountKeys :: "AccountKeys reader" where
  "in_AccountKeys = rbind in_AccountPublicAddress (\<lambda>a. rbind in_pod (\<lambda>s. rbind in_pod (\<lambda>v.
     rreturn \<lparr>address = a, spendSecretKey = s, viewSecretKey = v\<rparr>)))"

definition out_KeyPair :: "KeyPair \<Rightarrow> writer" where
  "out_KeyPair p = wcat (out_pod (secretKey p)) (out_pod (publicKey p))"

definition in_KeyPair :: "KeyPair reader" where
  "in_KeyPair = rbind in_pod (\<lambda>s. rbind in_pod (\<lambda>p. rreturn \<lparr>publicKey = p, secretKey = s\<rparr>))"

section \<open>The codecs of inputs and outputs\<close>

interpretation u32_list: codec out_varintVector in_varintVector
  "\<lambda>v. length v \<le> max_container_size \<and> list_all (\<lambda>_. True) v"
  using u32.container_codec
  by (simp add: out_varintVector_def [abs_def] in_varintVector_def out_container_def [abs_def]
      in_container_def)

interpretation key_list: codec "out_container (out_pod :: 256 word \<Rightarrow> writer)" "in_container in_pod"
  "\<lambda>v. length v \<le> max_container_size \<and> list_all (\<lambda>_. True) v"
  by (rule pod256.container_codec)

lemmas scalar_iff = u8.dec_iff u16.dec_iff u32.dec_iff u64.dec_iff nonce32.dec_iff pod256.dec_iff
  pod512.dec_iff u32_list.dec_iff key_list.dec_iff extra8.dec_iff

lemma list_all_True [simp]: "list_all (\<lambda>_. True) xs"
  by (simp add: list_all_iff)

lemma in_byte_iff: "in_binary 1 bs = Inr (tag, r) \<longleftrightarrow> (\<exists>t. tag = [t] \<and> bs = t # r)"
  by (auto simp: in_binary_def read_bytes_iff length_Suc_conv)

lemma in_tagged_iff:
  "rbind (in_binary 1) (\<lambda>tag. f (hd tag)) bs = Inr y \<longleftrightarrow> (\<exists>t r. bs = t # r \<and> f t r = Inr y)"
  unfolding rbind_Inr_iff in_byte_iff by auto

lemma in_inputVariant_iff:
  "in_inputVariant t bs = Inr (x, r) \<longleftrightarrow>
   input_tag x = t \<and> wf_TransactionInput x \<and> (\<exists>b. out_TransactionInput x = Inr (t # b) \<and> bs = b @ r)"
proof (cases x)
  case (BaseInput i)
  then show ?thesis
    by (auto simp: in_inputVariant_def out_TransactionInput_def out_binary_def wf_TransactionInput_def
        input_tag_def rbind_Inr_iff wcat_Inr_iff scalar_iff split: if_splits)
next
  case (KeyInput a ois k)
  then show ?thesis
    by (auto simp: in_inputVariant_def out_TransactionInput_def out_binary_def wf_TransactionInput_def
        input_tag_def rbind_Inr_iff wcat_Inr_iff scalar_iff split: if_splits)
next
  case (MultisignatureInput a s i t)
  then show ?thesis
    by (auto simp: in_inputVariant_def out_TransactionInput_def out_binary_def wf_TransactionInput_def
        input_tag_def rbind_Inr_iff wcat_Inr_iff scalar_iff split: if_splits)
qed

lemma out_TransactionInput_tag:
  "out_TransactionInput x = Inr b \<Longrightarrow> \<exists>b'. b = input_tag x # b'"
  by (auto simp: out_TransactionInput_def out_binary_def wcat_Inr_iff)

interpretation txin: codec out_TransactionInput in_TransactionInput wf_TransactionInput
proof (rule codec_intro)
  fix x assume "wf_TransactionInput x"
  then show "\<exists>b. out_TransactionInput x = Inr b"
    using u32_list.enc_wf
    by (auto simp: out_TransactionInput_def wf_TransactionInput_def out_binary_def out_pod_def scalar_out
        wcat_Inr_iff split: TransactionInput.splits)
next
  fix bs x r
  show "in_TransactionInput bs = Inr (x, r) \<longleftrightarrow>
      wf_TransactionInput x \<and> (\<exists>b. out_TransactionInput x = Inr b \<and> bs = b @ r)"
    unfolding in_TransactionInput_def in_tagged_iff in_inputVariant_iff
    using out_TransactionInput_tag by fastforce
qed

lemma in_targetVariant_iff:
  "in_targetVariant t bs = Inr (x, r) \<longleftrightarrow>
   target_tag x = t \<and> wf_TransactionOutput \<lparr>amount = 0, target = x\<rparr> \<and>
   (\<exists>b. out_TransactionOutputTarget x = Inr (t # b) \<and> bs = b @ r)"
proof (cases x)
  case (KeyOutput k)
  then show ?thesis
    by (auto simp: in_targetVariant_def out_TransactionOutputTarget_def out_binary_def
        wf_TransactionOutput_def target_tag_def rbind_Inr_iff wcat_Inr_iff scalar_iff split: if_splits)
next
  case (MultisignatureOutput ks n t)
  then show ?thesis
    by (auto simp: in_targetVariant_def out_TransactionOutputTarget_def out_binary_def
        wf_TransactionOutput_def target_tag_def rbind_Inr_iff wcat_Inr_iff scalar_iff split: if_splits)
qed

lemma out_TransactionOutputTarget_tag:
  "out_TransactionOutputTarget x = Inr b \<Longrightarrow> \<exists>b'. b = target_tag x # b'"
  by (auto simp: out_TransactionOutputTarget_def out_binary_def wcat_Inr_iff)

interpretation txtarget: codec out_TransactionOutputTarget in_TransactionOutputTarget
  "\<lambda>t. wf_TransactionOutput \<lparr>amount = 0, target = t\<rparr>"
proof (rule codec_intro)
  fix x assume "wf_TransactionOutput \<lparr>amount = 0, target = x\<rparr>"
  then show "\<exists>b. out_TransactionOutputTarget x = Inr b"
    using key_list.enc_wf
    by (auto simp: out_TransactionOutputTarget_def wf_TransactionOutput_def out_binary_def out_pod_def scalar_out
        wcat_Inr_iff split: TransactionOutputTarget.splits)
next
  fix bs x r
  show "in_TransactionOutputTarget bs = Inr (x, r) \<longleftrightarrow>
      wf_TransactionOutput \<lparr>amount = 0, target = x\<rparr> \<and>
      (\<exists>b. out_TransactionOutputTarget x = Inr b \<and> bs = b @ r)"
    unfolding in_TransactionOutputTarget_def in_tagged_iff in_targetVariant_iff
    using out_TransactionOutputTarget_tag by fastforce
qed

interpretation txout: codec out_TransactionOutput in_TransactionOutput wf_TransactionOutput
proof (rule codec_intro)
  fix x assume "wf_TransactionOutput x"
  then show "\<exists>b. out_TransactionOutput x = Inr b"
    using txtarget.enc_wf [of "target x"]
    by (auto simp: out_TransactionOutput_def wf_TransactionOutput_def scalar_out wcat_Inr_iff)
next
  fix bs r and x :: TransactionOutput
  show "in_TransactionOutput bs = Inr (x, r) \<longleftrightarrow>
      wf_TransactionOutput x \<and> (\<exists>b. out_TransactionOutput x = Inr b \<and> bs = b @ r)"
    by (cases x) (auto simp: in_TransactionOutput_def out_TransactionOutput_def rbind_Inr_iff
        wcat_Inr_iff scalar_iff txtarget.dec_iff wf_TransactionOutput_def)
qed

interpretation txins: codec "out_container out_TransactionInput" "in_container in_TransactionInput"
  "\<lambda>v. length v \<le> max_container_size \<and> list_all wf_TransactionInput v"
  by (rule txin.container_codec)

interpretation txouts: codec "out_container out_TransactionOutput" "in_container in_TransactionOutput"
  "\<lambda>v. length v \<le> max_container_size \<and> list_all wf_TransactionOutput v"
  by (rule txout.container_codec)

section \<open>The codecs of transactions, blocks and keys\<close>

interpretation prefix: codec out_TransactionPrefix in_TransactionPrefix wf_TransactionPrefix
proof (rule codec_intro)
  fix x :: TransactionPrefix assume "wf_TransactionPrefix x"
  then show "\<exists>b. out_TransactionPrefix x = Inr b"
    using txins.enc_wf [of "inputs x"] txouts.enc_wf [of "outputs x"] extra8.enc_wf [of "extra x"]
    by (auto simp: out_TransactionPrefix_def wf_TransactionPrefix_def scalar_out wcat_Inr_iff)
next
  fix bs r and x :: TransactionPrefix
  show "in_TransactionPrefix bs = Inr (x, r) \<longleftrightarrow>
      wf_TransactionPrefix x \<and> (\<exists>b. out_TransactionPrefix x = Inr b \<and> bs = b @ r)"
    by (cases x) (auto simp: in_TransactionPrefix_def out_TransactionPrefix_def rbind_Inr_iff not_less
        wcat_Inr_iff guard_iff wguard_iff scalar_iff txins.dec_iff txouts.dec_iff wf_TransactionPrefix_def)
qed

lemma out_TransactionPrefix_truncate [simp]:
  "out_TransactionPrefix (TransactionPrefix.truncate p) = out_TransactionPrefix p"
  by (simp add: out_TransactionPrefix_def TransactionPrefix.defs)

lemma wf_TransactionPrefix_truncate [simp]:
  "wf_TransactionPrefix (TransactionPrefix.truncate p) = wf_TransactionPrefix p"
  by (simp add: wf_TransactionPrefix_def TransactionPrefix.defs)

lemma in_signatures_iff:
  "in_signatures is bs = Inr (sigs, r) \<longleftrightarrow> map length sigs = map getSignaturesCount is \<and>
   (\<exists>b. out_signatures False is sigs = Inr b \<and> bs = b @ r)"
proof (induction "is" arbitrary: bs sigs)
  case (Cons i "is")
  show ?case
    by (cases sigs) (auto simp: rbind_Inr_iff wcat_Inr_iff Cons.IH pod512.in_items_iff Let_def)
qed auto

lemma out_signatures_wf:
  "map length sigs = map getSignaturesCount is \<Longrightarrow> \<exists>b. out_signatures False is sigs = Inr b"
proof (induction "is" arbitrary: sigs)
  case (Cons i "is")
  then obtain s ss where "sigs = s # ss" "length s = getSignaturesCount i"
    "map length ss = map getSignaturesCount is" by auto
  then show ?case
    using Cons.IH [of ss] pod512.out_items_wf [of s] by (auto simp: wcat_Inr_iff)
qed simp

lemma Transaction_extend_iff:
  "TransactionPrefix.extend p (Transaction.fields sigs) = tx \<longleftrightarrow>
   p = TransactionPrefix.truncate tx \<and> sigs = signatures tx"
  by (cases p; cases tx) (auto simp: TransactionPrefix.defs Transaction.defs)

lemma Block_extend_iff:
  "BlockHeader.extend h (Block.fields base hashes) = b \<longleftrightarrow>
   h = BlockHeader.truncate b \<and> base = baseTransaction b \<and> hashes = transactionHashes b"
  by (cases h; cases b) (auto simp: BlockHeader.defs Block.defs)

lemma wf_Transaction_lengths:
  "wf_Transaction tx \<Longrightarrow> length (signatures tx) = length (inputs tx)"
  unfolding wf_Transaction_def by (metis length_map)

lemma out_Transaction_expected:
  assumes "length (signatures tx) = length (inputs tx)"
  shows "out_Transaction tx = wcat (out_TransactionPrefix tx) (out_signatures False (inputs tx) (signatures tx))"
  using assms by (cases "signatures tx = []") (auto simp: out_Transaction_def Let_def)

interpretation tx: codec out_Transaction in_Transaction wf_Transaction
proof (rule codec_intro)
  fix x assume wf: "wf_Transaction x"
  then show "\<exists>b. out_Transaction x = Inr b"
    using prefix.enc_wf [of "TransactionPrefix.truncate x"] out_signatures_wf [of "signatures x" "inputs x"]
      out_Transaction_expected [OF wf_Transaction_lengths [OF wf]]
    by (auto simp: wf_Transaction_def wcat_Inr_iff)
next
  fix bs r and x :: Transaction
  have "in_Transaction bs = Inr (x, r) \<longleftrightarrow>
      (\<exists>r'. in_TransactionPrefix bs = Inr (TransactionPrefix.truncate x, r') \<and>
        in_signatures (inputs x) r' = Inr (signatures x, r))"
    by (auto simp: in_Transaction_def rbind_Inr_iff Transaction_extend_iff)
      (auto simp: TransactionPrefix.defs)
  also have "\<dots> \<longleftrightarrow> wf_Transaction x \<and>
      (\<exists>b. wcat (out_TransactionPrefix x) (out_signatures False (inputs x) (signatures x)) = Inr b \<and> bs = b @ r)"
    by (auto simp: prefix.dec_iff in_signatures_iff wf_Transaction_def wcat_Inr_iff)
  also have "\<dots> \<longleftrightarrow> wf_Transaction x \<and> (\<exists>b. out_Transaction x = Inr b \<and> bs = b @ r)"
    using wf_Transaction_lengths [of x] out_Transaction_expected [of x] by auto
  finally show "in_Transaction bs = Inr (x, r) \<longleftrightarrow>
      wf_Transaction x \<and> (\<exists>b. out_Transaction x = Inr b \<and> bs = b @ r)" .
qed

interpretation header: codec out_BlockHeader in_BlockHeader "\<lambda>h. majorVersion h \<le> BLOCK_MAJOR_VERSION_3"
proof (rule codec_intro)
  fix bs r and x :: BlockHeader
  show "in_BlockHeader bs = Inr (x, r) \<longleftrightarrow> majorVersion x \<le> BLOCK_MAJOR_VERSION_3 \<and>
      (\<exists>b. out_BlockHeader x = Inr b \<and> bs = b @ r)"
    by (cases x) (auto simp: in_BlockHeader_def out_BlockHeader_def rbind_Inr_iff not_less
        wcat_Inr_iff guard_iff wguard_iff scalar_iff)
qed (auto simp: out_BlockHeader_def scalar_out out_pod_def out_binary_def)

lemma out_BlockHeader_truncate [simp]:
  "out_BlockHeader (BlockHeader.truncate b) = out_BlockHeader b"
  by (simp add: out_BlockHeader_def BlockHeader.defs)

lemma majorVersion_truncate [simp]: "majorVersion (BlockHeader.truncate b) = majorVersion b"
  by (simp add: BlockHeader.defs)

interpretation block: codec out_Block in_Block wf_Block
proof (rule codec_intro)
  fix x assume "wf_Block x"
  then show "\<exists>b. out_Block x = Inr b"
    using header.enc_wf [of "BlockHeader.truncate x"] tx.enc_wf [of "baseTransaction x"]
      key_list.enc_wf [of "transactionHashes x"]
    by (auto simp: out_Block_def wf_Block_def wcat_Inr_iff)
next
  fix bs r and x :: Block
  show "in_Block bs = Inr (x, r) \<longleftrightarrow> wf_Block x \<and> (\<exists>b. out_Block x = Inr b \<and> bs = b @ r)"
    by (auto simp: in_Block_def out_Block_def wf_Block_def rbind_Inr_iff wcat_Inr_iff Block_extend_iff
        header.dec_iff tx.dec_iff scalar_iff)
qed

interpretation accaddr: codec out_AccountPublicAddress in_AccountPublicAddress "\<lambda>_. True"
proof (rule codec_intro)
  fix bs r and x :: AccountPublicAddress
  show "in_AccountPublicAddress bs = Inr (x, r) \<longleftrightarrow>
      True \<and> (\<exists>b. out_AccountPublicAddress x = Inr b \<and> bs = b @ r)"
    by (cases x) (auto simp: in_AccountPublicAddress_def out_AccountPublicAddress_def io_iff scalar_iff)
qed (auto simp: out_AccountPublicAddress_def out_pod_def out_binary_def)

interpretation acckeys: codec out_AccountKeys in_AccountKeys "\<lambda>_. True"
proof (rule codec_intro)
  fix x
  show "\<exists>b. out_AccountKeys x = Inr b"
    using accaddr.enc_wf by (auto simp: out_AccountKeys_def out_pod_def out_binary_def wcat_Inr_iff)
next
  fix bs r and x :: AccountKeys
  show "in_AccountKeys bs = Inr (x, r) \<longleftrightarrow> True \<and> (\<exists>b. out_AccountKeys x = Inr b \<and> bs = b @ r)"
    by (cases x) (auto simp: in_AccountKeys_def out_AccountKeys_def io_iff scalar_iff accaddr.dec_iff)
qed

interpretation keypair: codec out_KeyPair in_KeyPair "\<lambda>_. True"
proof (rule codec_intro)
  fix bs r and x :: KeyPair
  show "in_KeyPair bs = Inr (x, r) \<longleftrightarrow> True \<and> (\<exists>b. out_KeyPair x = Inr b \<and> bs = b @ r)"
    by (cases x) (auto simp: in_KeyPair_def out_KeyPair_def io_iff scalar_iff)
qed (auto simp: out_KeyPair_def out_pod_def out_binary_def)

end
