(* ===== verification/DepositIndex.thy ===== *)
theory DepositIndex
  imports CryptoNoteSerialization
begin

text \<open>
  \<^verbatim>\<open>src/CryptoNoteCore/DepositIndex.cpp\<close>: the running totals of deposits and interest by height.
  The vector \<open>index\<close> holds an entry for each block that changes the total, \<open>blockCount\<close> counts
  all blocks. A \<open>DepositAmount\<close> is the word of its two's complement form, read with \<^const>\<open>sint\<close>.
  An operation whose \<open>assert\<close> fails returns \<open>None\<close>. The specification is the list of the
  \<open>(amount, interest)\<close> pairs of the blocks, oldest first.
\<close>

section \<open>State and operations\<close>

record DepositIndexEntry =
  entry_height :: uint32
  entry_amount :: uint64
  entry_interest :: uint64

record DepositIndex =
  di_index :: "DepositIndexEntry list"
  blockCount :: uint32

definition DepositIndex_new :: DepositIndex where
  "DepositIndex_new = \<lparr>di_index = [], blockCount = 0\<rparr>"

definition fullDepositAmount :: "DepositIndex \<Rightarrow> uint64" where
  "fullDepositAmount d = (if di_index d = [] then 0 else entry_amount (last (di_index d)))"

definition fullInterestAmount :: "DepositIndex \<Rightarrow> uint64" where
  "fullInterestAmount d = (if di_index d = [] then 0 else entry_interest (last (di_index d)))"

definition sumWillOverflow_int64 :: "uint64 \<Rightarrow> uint64 \<Rightarrow> bool" where
  "sumWillOverflow_int64 x y \<longleftrightarrow>
     0 < sint y \<and> 2 ^ 63 - 1 - sint y < sint x \<or> sint y < 0 \<and> sint x < - (2 ^ 63) - sint y"

definition sumWillOverflow_uint64 :: "uint64 \<Rightarrow> uint64 \<Rightarrow> bool" where
  "sumWillOverflow_uint64 x y \<longleftrightarrow> - 1 - y < x"

definition DepositIndex_pushBlock :: "DepositIndex \<Rightarrow> uint64 \<Rightarrow> uint64 \<Rightarrow> DepositIndex option" where
  "DepositIndex_pushBlock d amnt interest =
     (let (lastAmount, lastInterest) =
        (if di_index d = [] then (0, 0)
         else (entry_amount (last (di_index d)), entry_interest (last (di_index d)))) in
      if sumWillOverflow_int64 amnt lastAmount then None
      else if sumWillOverflow_uint64 interest lastInterest then None
      else if \<not> 0 \<le> sint (amnt + lastAmount) then None
      else Some (d\<lparr>di_index := (if amnt \<noteq> 0
          then di_index d @ [\<lparr>entry_height = blockCount d, entry_amount = amnt + lastAmount,
                              entry_interest = interest + lastInterest\<rparr>]
          else di_index d), blockCount := blockCount d + 1\<rparr>))"

definition DepositIndex_popBlock :: "DepositIndex \<Rightarrow> DepositIndex option" where
  "DepositIndex_popBlock d =
     (if blockCount d = 0 then None
      else let n = blockCount d - 1 in
        Some \<lparr>di_index = (if di_index d \<noteq> [] \<and> entry_height (last (di_index d)) = n
                then butlast (di_index d) else di_index d), blockCount = n\<rparr>)"

definition DepositIndex_size :: "DepositIndex \<Rightarrow> uint32" where
  "DepositIndex_size d = blockCount d"

text \<open>\<open>std::upper_bound\<close> as the number of entries before the iterator.\<close>

definition upperBound :: "DepositIndex \<Rightarrow> uint32 \<Rightarrow> nat" where
  "upperBound d height = length (takeWhile (\<lambda>e. \<not> height < entry_height e) (di_index d))"

definition DepositIndex_popBlocks :: "DepositIndex \<Rightarrow> uint32 \<Rightarrow> uint64 \<times> DepositIndex" where
  "DepositIndex_popBlocks d from =
     (if blockCount d \<le> from then (0, d)
      else
        let it = upperBound d from;
            it = (if it \<noteq> 0 then let it = it - 1 in if entry_height (di_index d ! it) \<noteq> from then it + 1 else it
                  else it);
            diff = blockCount d - from
        in (ucast diff, \<lparr>di_index = take it (di_index d), blockCount = blockCount d - diff\<rparr>))"

definition depositAmountAtHeight :: "DepositIndex \<Rightarrow> uint32 \<Rightarrow> uint64" where
  "depositAmountAtHeight d height =
     (if blockCount d = 0 then 0
      else let it = upperBound d height in if it = 0 then 0 else entry_amount (di_index d ! (it - 1)))"

definition depositInterestAtHeight :: "DepositIndex \<Rightarrow> uint32 \<Rightarrow> uint64" where
  "depositInterestAtHeight d height =
     (if blockCount d = 0 then 0
      else let it = upperBound d height in if it = 0 then 0 else entry_interest (di_index d ! (it - 1)))"

definition out_DepositIndexEntry :: "DepositIndexEntry \<Rightarrow> writer" where
  "out_DepositIndexEntry e =
     wcat (out_uint32 (entry_height e)) (wcat (out_uint64 (entry_amount e)) (out_uint64 (entry_interest e)))"

definition in_DepositIndexEntry :: "DepositIndexEntry reader" where
  "in_DepositIndexEntry = rbind in_uint32 (\<lambda>h. rbind in_uint64 (\<lambda>a. rbind in_uint64 (\<lambda>i.
     rreturn \<lparr>entry_height = h, entry_amount = a, entry_interest = i\<rparr>)))"

definition out_DepositIndex :: "DepositIndex \<Rightarrow> writer" where
  "out_DepositIndex d = wcat (out_uint32 (blockCount d)) (out_container out_DepositIndexEntry (di_index d))"

text \<open>Reading inserts at the back of the vector of the object read into.\<close>

definition in_DepositIndex :: "DepositIndex \<Rightarrow> DepositIndex reader" where
  "in_DepositIndex d = rbind in_uint32 (\<lambda>n. rbind (in_container in_DepositIndexEntry) (\<lambda>es.
     rreturn \<lparr>di_index = di_index d @ es, blockCount = n\<rparr>))"

section \<open>Specification: totals over the list of blocks\<close>

type_synonym deposit_blocks = "(uint64 \<times> uint64) list"

definition total_amount :: "deposit_blocks \<Rightarrow> uint64" where
  "total_amount bl = (\<Sum>b\<leftarrow>bl. fst b)"

text \<open>The interest of a block counts only when its amount is not zero: the code records no entry otherwise.\<close>

definition total_interest :: "deposit_blocks \<Rightarrow> uint64" where
  "total_interest bl = (\<Sum>b\<leftarrow>filter (\<lambda>b. fst b \<noteq> 0) bl. snd b)"

definition entries :: "deposit_blocks \<Rightarrow> DepositIndexEntry list" where
  "entries bl =
     map (\<lambda>h. \<lparr>entry_height = of_nat h, entry_amount = total_amount (take (Suc h) bl),
               entry_interest = total_interest (take (Suc h) bl)\<rparr>)
       (filter (\<lambda>h. fst (bl ! h) \<noteq> 0) [0..<length bl])"

definition deposit_repr :: "DepositIndex \<Rightarrow> deposit_blocks \<Rightarrow> bool" where
  "deposit_repr d bl \<longleftrightarrow> length bl < 2 ^ 32 \<and> d = \<lparr>di_index = entries bl, blockCount = of_nat (length bl)\<rparr>"

lemma totals_snoc:
  "total_amount (bl @ [(a, i)]) = total_amount bl + a"
  "total_interest (bl @ [(a, i)]) = total_interest bl + (if a = 0 then 0 else i)"
  by (simp_all add: total_amount_def total_interest_def)

lemma entries_snoc:
  "entries (bl @ [(a, i)]) = entries bl @
     (if a = 0 then [] else [\<lparr>entry_height = of_nat (length bl), entry_amount = total_amount bl + a,
                              entry_interest = total_interest bl + i\<rparr>])"
proof -
  have *: "map (\<lambda>h. \<lparr>entry_height = of_nat h, entry_amount = total_amount (take (Suc h) (bl @ [(a, i)])),
        entry_interest = total_interest (take (Suc h) (bl @ [(a, i)]))\<rparr>)
      (filter (\<lambda>h. fst ((bl @ [(a, i)]) ! h) \<noteq> 0) [0..<length bl]) = entries bl"
    unfolding entries_def by (rule map_cong) (auto simp: nth_append intro: filter_cong)
  show ?thesis
    unfolding entries_def [of "bl @ [(a, i)]"]
    using * totals_snoc [of bl a i] by (simp add: nth_append)
qed

lemma entries_Nil [simp]: "entries [] = []"
  by (simp add: entries_def)

lemma totals_Nil [simp]: "total_amount [] = 0" "total_interest [] = 0"
  by (simp_all add: total_amount_def total_interest_def)

lemma last_entry:
  "(if entries bl = [] then 0 else entry_amount (last (entries bl))) = total_amount bl"
  "(if entries bl = [] then 0 else entry_interest (last (entries bl))) = total_interest bl"
  by (induction bl rule: rev_induct) (auto simp: entries_snoc totals_snoc split: if_splits)

lemma entry_heights: "e \<in> set (entries bl) \<Longrightarrow> \<exists>h < length bl. entry_height e = of_nat h"
  by (auto simp: entries_def)

lemma height_less_iff:
  assumes "n < 2 ^ 32" "m < 2 ^ 32"
  shows "(of_nat n :: uint32) < of_nat m \<longleftrightarrow> n < m" "(of_nat n :: uint32) \<le> of_nat m \<longleftrightarrow> n \<le> m"
    "(of_nat n :: uint32) = of_nat m \<longleftrightarrow> n = m"
  using assms by (simp_all add: word_less_nat_alt word_le_nat_alt word_unat_eq_iff unat_of_nat_small)

lemma entries_takeWhile:
  assumes "length bl < 2 ^ 32" "n < 2 ^ 32"
  shows "takeWhile (\<lambda>e. \<not> of_nat n < entry_height e) (entries bl) = entries (take (Suc n) bl)"
  using assms(1)
proof (induction bl rule: rev_induct)
  case (snoc b bl)
  obtain a i where b: "b = (a, i)" by (cases b)
  have len: "length bl < 2 ^ 32" using snoc.prems by simp
  show ?case
  proof (cases "length bl \<le> n")
    case True
    have "\<not> of_nat n < entry_height e" if "e \<in> set (entries bl)" for e
      using entry_heights [OF that] True height_less_iff(1) [OF assms(2)] len by fastforce
    moreover have "\<not> (of_nat n :: uint32) < of_nat (length bl)"
      using height_less_iff(1) [OF assms(2) len] True by simp
    ultimately show ?thesis using True b by (simp add: entries_snoc takeWhile_append)
  next
    case False
    then have "(of_nat n :: uint32) < of_nat (length bl)" using height_less_iff(1) [OF assms(2) len] by simp
    then have "takeWhile (\<lambda>e. \<not> of_nat n < entry_height e) (entries (bl @ [b])) =
        takeWhile (\<lambda>e. \<not> of_nat n < entry_height e) (entries bl)"
      using b by (auto simp: entries_snoc takeWhile_append intro: takeWhile_eq_all_conv [THEN iffD2, symmetric])
    then show ?thesis using snoc.IH [OF len] False by simp
  qed
qed simp

section \<open>The operations implement the specification\<close>

lemma deposit_repr_new: "deposit_repr DepositIndex_new []"
  by (simp add: deposit_repr_def DepositIndex_new_def)

lemma deposit_repr_totals:
  "deposit_repr d bl \<Longrightarrow> fullDepositAmount d = total_amount bl"
  "deposit_repr d bl \<Longrightarrow> fullInterestAmount d = total_interest bl"
  using last_entry [of bl] by (auto simp: deposit_repr_def fullDepositAmount_def fullInterestAmount_def)

lemma pushBlock_unfold:
  "DepositIndex_pushBlock d a i =
     (if sumWillOverflow_int64 a (fullDepositAmount d) \<or> sumWillOverflow_uint64 i (fullInterestAmount d) \<or>
         sint (a + fullDepositAmount d) < 0 then None
      else Some (d\<lparr>di_index := di_index d @ (if a = 0 then [] else
          [\<lparr>entry_height = blockCount d, entry_amount = a + fullDepositAmount d,
            entry_interest = i + fullInterestAmount d\<rparr>]), blockCount := blockCount d + 1\<rparr>))"
  by (auto simp: DepositIndex_pushBlock_def fullDepositAmount_def fullInterestAmount_def Let_def)

lemma deposit_repr_push:
  assumes "deposit_repr d bl" "DepositIndex_pushBlock d a i = Some d'" "Suc (length bl) < 2 ^ 32"
  shows "deposit_repr d' (bl @ [(a, i)])"
  using assms deposit_repr_totals [OF assms(1)]
  by (auto simp: pushBlock_unfold deposit_repr_def entries_snoc ac_simps split: if_splits)

lemma deposit_repr_pop:
  assumes r: "deposit_repr d bl" and ne: "bl \<noteq> []"
  shows "DepositIndex_popBlock d = Some \<lparr>di_index = entries (butlast bl), blockCount = of_nat (length (butlast bl))\<rparr>"
proof -
  from ne obtain bl' a i where bl: "bl = bl' @ [(a, i)]" by (metis append_butlast_last_id surj_pair)
  have len: "Suc (length bl') < 2 ^ 32" using r bl by (simp add: deposit_repr_def)
  have "(of_nat (Suc (length bl')) :: uint32) \<noteq> 0"
    using height_less_iff(3) [OF len, of 0] by simp
  moreover have "entry_height (last (entries bl')) \<noteq> of_nat (length bl')" if "entries bl' \<noteq> []"
    using entry_heights [of "last (entries bl')" bl'] that len
    by (auto simp: height_less_iff(3) last_in_set)
  ultimately show ?thesis
    using r by (cases "a = 0") (auto simp: deposit_repr_def DepositIndex_popBlock_def bl entries_snoc Let_def)
qed

lemma upperBound_repr:
  assumes "deposit_repr d bl"
  shows "upperBound d h = length (entries (take (Suc (unat h)) bl))"
    "take (upperBound d h) (di_index d) = entries (take (Suc (unat h)) bl)"
proof -
  have "takeWhile (\<lambda>e. \<not> h < entry_height e) (di_index d) = entries (take (Suc (unat h)) bl)"
    using entries_takeWhile [of bl "unat h"] assms by (simp add: deposit_repr_def)
  then show "upperBound d h = length (entries (take (Suc (unat h)) bl))"
    "take (upperBound d h) (di_index d) = entries (take (Suc (unat h)) bl)"
    unfolding upperBound_def by (metis, metis takeWhile_eq_take)
qed

lemma lookup_repr:
  assumes r: "deposit_repr d bl"
  shows "depositAmountAtHeight d h = total_amount (take (Suc (unat h)) bl)"
    "depositInterestAtHeight d h = total_interest (take (Suc (unat h)) bl)"
proof -
  let ?es = "entries (take (Suc (unat h)) bl)"
  note ub = upperBound_repr [OF r, of h]
  have nth: "di_index d ! (length ?es - 1) = last ?es" if "?es \<noteq> []"
    using that ub by (metis diff_less last_conv_nth length_greater_0_conv nth_take zero_less_one)
  have "bl = []" if "blockCount d = 0"
    using that r height_less_iff(3) [of "length bl" 0] by (simp add: deposit_repr_def)
  then show "depositAmountAtHeight d h = total_amount (take (Suc (unat h)) bl)"
    "depositInterestAtHeight d h = total_interest (take (Suc (unat h)) bl)"
    using last_entry [of "take (Suc (unat h)) bl"] nth ub(1)
    by (auto simp: depositAmountAtHeight_def depositInterestAtHeight_def Let_def split: if_splits)
qed

lemma take_snoc_nth:
  assumes "take k xs = ys @ [y]"
  shows "xs ! length ys = y" "take (length ys) xs = ys"
proof -
  have "length (take k xs) = Suc (length ys)" using assms by simp
  then have k: "length ys < k" by simp
  then have "xs ! length ys = take k xs ! length ys" "take (length ys) xs = take (length ys) (take k xs)" by simp_all
  then show "xs ! length ys = y" "take (length ys) xs = ys" by (simp_all add: assms)
qed

lemma deposit_repr_popBlocks:
  assumes r: "deposit_repr d bl"
  shows "DepositIndex_popBlocks d h =
    (of_nat (length bl - unat h),
     \<lparr>di_index = entries (take (unat h) bl), blockCount = of_nat (length (take (unat h) bl))\<rparr>)"
proof (cases "length bl \<le> unat h")
  case True
  then have "blockCount d \<le> h" using r by (simp add: deposit_repr_def word_le_nat_alt unat_of_nat_small)
  then show ?thesis using True r by (simp add: DepositIndex_popBlocks_def deposit_repr_def)
next
  case False
  let ?n = "unat h"
  have len: "length bl < 2 ^ 32" and d: "di_index d = entries bl" "blockCount d = of_nat (length bl)"
    using r by (simp_all add: deposit_repr_def)
  have gt: "\<not> blockCount d \<le> h" using False len d by (simp add: word_le_nat_alt unat_of_nat_small)
  obtain a i where b: "bl ! ?n = (a, i)" by fastforce
  then have S: "take (Suc ?n) bl = take ?n bl @ [(a, i)]" using False by (simp add: take_Suc_conv_app_nth)
  have es: "entries (take (Suc ?n) bl) = entries (take ?n bl) @ (if a = 0 then [] else
      [\<lparr>entry_height = h, entry_amount = total_amount (take ?n bl) + a,
        entry_interest = total_interest (take ?n bl) + i\<rparr>])"
    unfolding S entries_snoc using False by simp
  let ?ub = "upperBound d h"
  let ?it = "if ?ub \<noteq> 0 then if entry_height (di_index d ! (?ub - 1)) \<noteq> h then ?ub - 1 + 1 else ?ub - 1 else ?ub"
  note ub = upperBound_repr [OF r, of h]
  have old: "entry_height e \<noteq> h" if e: "e \<in> set (entries (take ?n bl))" for e
  proof -
    obtain k where k: "k < ?n" "entry_height e = of_nat k" using entry_heights [OF e] by auto
    then have "unat (entry_height e) = k" using unat_bound32 [of h] by (simp add: unat_of_nat_small del: unat_bound32)
    then show ?thesis using k by auto
  qed
  have "take ?it (di_index d) = entries (take ?n bl)"
  proof (cases "a = 0")
    case True
    then have e: "entries (take (Suc ?n) bl) = entries (take ?n bl)" using es by simp
    have "entry_height (di_index d ! (?ub - 1)) \<noteq> h" if "?ub \<noteq> 0"
    proof -
      have "di_index d ! (?ub - 1) \<in> set (take ?ub (di_index d))"
        using that ub by (metis diff_less length_greater_0_conv neq0_conv nth_mem nth_take zero_less_one e list.size(3))
      then show ?thesis using old ub(2) e by simp
    qed
    then show ?thesis using ub(2) e by auto
  next
    case False
    then have "take ?ub (di_index d) = entries (take ?n bl) @ [\<lparr>entry_height = h,
        entry_amount = total_amount (take ?n bl) + a, entry_interest = total_interest (take ?n bl) + i\<rparr>]"
      using ub(2) es by simp
    note snoc = take_snoc_nth [OF this] and u = ub(1) [unfolded es]
    show ?thesis using snoc u False by simp
  qed
  moreover have "ucast (blockCount d - h) = (of_nat (length bl - ?n) :: uint64)"
  proof (rule word_unat_eq_iff [THEN iffD2])
    show "unat (ucast (blockCount d - h) :: uint64) = unat (of_nat (length bl - ?n) :: uint64)"
      using d(2) len False by (simp add: unat_simps unat_of_nat_small)
  qed
  ultimately show ?thesis using gt False unfolding DepositIndex_popBlocks_def Let_def by simp
qed

section \<open>Assertions and exact totals\<close>

lemma sint_add_exact:
  "- (2 ^ 63) \<le> sint x + sint y \<Longrightarrow> sint x + sint y < 2 ^ 63 \<Longrightarrow> sint (x + y :: uint64) = sint x + sint y"
  by (simp add: sint_word_ariths signed_take_bit_int_eq_self)

lemma sint_bounds: "- (2 ^ 63) \<le> sint (x :: uint64)" "sint (x :: uint64) < 2 ^ 63"
  using sint_ge [of x] sint_lt [of x] by simp_all

lemma sumWillOverflow_int64_iff:
  "sumWillOverflow_int64 x y \<longleftrightarrow> \<not> (- (2 ^ 63) \<le> sint x + sint y \<and> sint x + sint y < 2 ^ 63)"
  using sint_bounds [of x] sint_bounds [of y] unfolding sumWillOverflow_int64_def by linarith

lemma sumWillOverflow_uint64_iff: "sumWillOverflow_uint64 x y \<longleftrightarrow> \<not> unat x + unat y < 2 ^ 64"
  unfolding sumWillOverflow_uint64_def word_less_nat_alt unat_max_minus
  using unat_bound64 [of y] by (simp del: unat_bound64) linarith

lemma pushBlock_Some_iff:
  "(\<exists>d'. DepositIndex_pushBlock d a i = Some d') \<longleftrightarrow>
   0 \<le> sint a + sint (fullDepositAmount d) \<and> sint a + sint (fullDepositAmount d) < 2 ^ 63 \<and>
   unat i + unat (fullInterestAmount d) < 2 ^ 64"
  using sint_add_exact [of a "fullDepositAmount d"]
  by (auto simp: pushBlock_unfold sumWillOverflow_int64_iff sumWillOverflow_uint64_iff)

text \<open>The histories of an index: blocks pushed, popped, or cut off at a height, no assertion failing.\<close>

inductive deposit_run :: "DepositIndex \<Rightarrow> deposit_blocks \<Rightarrow> bool" where
  run_new: "deposit_run DepositIndex_new []"
| run_push: "deposit_run d bl \<Longrightarrow> Suc (length bl) < 2 ^ 32 \<Longrightarrow> DepositIndex_pushBlock d a i = Some d' \<Longrightarrow>
    deposit_run d' (bl @ [(a, i)])"
| run_pop: "deposit_run d bl \<Longrightarrow> DepositIndex_popBlock d = Some d' \<Longrightarrow> deposit_run d' (butlast bl)"
| run_popBlocks: "deposit_run d bl \<Longrightarrow> DepositIndex_popBlocks d h = (n, d') \<Longrightarrow> deposit_run d' (take (unat h) bl)"

definition exact_amount :: "deposit_blocks \<Rightarrow> int" where
  "exact_amount bl = (\<Sum>b\<leftarrow>bl. sint (fst b))"

definition exact_interest :: "deposit_blocks \<Rightarrow> nat" where
  "exact_interest bl = (\<Sum>b\<leftarrow>filter (\<lambda>b. fst b \<noteq> 0) bl. unat (snd b))"

definition totals_exact :: "deposit_blocks \<Rightarrow> bool" where
  "totals_exact bl \<longleftrightarrow> 0 \<le> exact_amount bl \<and> sint (total_amount bl) = exact_amount bl \<and>
     unat (total_interest bl) = exact_interest bl"

lemma totals_exact_snoc:
  assumes "totals_exact bl" and
    "0 \<le> sint a + sint (total_amount bl)" "sint a + sint (total_amount bl) < 2 ^ 63"
    "unat i + unat (total_interest bl) < 2 ^ 64"
  shows "totals_exact (bl @ [(a, i)])"
proof -
  have "sint (total_amount bl + a) = sint (total_amount bl) + sint a"
    using assms(2,3) by (intro sint_add_exact) linarith+
  moreover have "unat (total_interest bl + i) = unat (total_interest bl) + unat i"
    using assms(4) by (intro unat_plus_exact) simp
  ultimately show ?thesis
    using assms(1,2) by (simp add: totals_exact_def totals_snoc exact_amount_def exact_interest_def)
qed

lemma deposit_run_repr: "deposit_run d bl \<Longrightarrow> deposit_repr d bl \<and> (\<forall>n. totals_exact (take n bl))"
proof (induction rule: deposit_run.induct)
  case run_new
  then show ?case by (simp add: deposit_repr_new totals_exact_def exact_amount_def exact_interest_def)
next
  case (run_push d bl a i d')
  then have r: "deposit_repr d bl" and ex: "totals_exact (take n bl)" for n by auto
  have "totals_exact (bl @ [(a, i)])"
    using pushBlock_Some_iff [of d a i] run_push.hyps(3) ex [of "length bl"] deposit_repr_totals [OF r]
    by (intro totals_exact_snoc) auto
  then have "totals_exact (take n (bl @ [(a, i)]))" for n
    using ex [of n] by (cases "n \<le> length bl") auto
  then show ?case using deposit_repr_push [OF r run_push.hyps(3,2)] by blast
next
  case (run_pop d bl d')
  then have r: "deposit_repr d bl" by blast
  have "bl \<noteq> []" using run_pop.hyps(2) r by (auto simp: DepositIndex_popBlock_def deposit_repr_def)
  then show ?case
    using deposit_repr_pop [OF r] run_pop.hyps(2) run_pop.IH unfolding butlast_conv_take
    by (auto simp: deposit_repr_def)
next
  case (run_popBlocks d bl h n d')
  then show ?case using deposit_repr_popBlocks [of d bl h] by (auto simp: deposit_repr_def)
qed

lemma deposit_run_facts:
  assumes "deposit_run d bl"
  shows "deposit_repr d bl" "length bl < 2 ^ 32" "totals_exact (take n bl)" "totals_exact bl"
  using deposit_run_repr [OF assms] spec [of "\<lambda>n. totals_exact (take n bl)" "length bl"]
  by (auto simp: deposit_repr_def)

text \<open>C12: Whatever sequence of pushes, pops and cuts produced an index, it answers like the list of the
  blocks still in it: the block count, the deposit total at every height and the full total are the
  exact integer sums over the blocks up to there, never wrapped and never negative, and the interest
  totals the exact sums over the blocks whose net deposit is not zero.\<close>

theorem deposit_index_refines:
  assumes "deposit_run d bl"
  shows "DepositIndex_size d = of_nat (length bl) \<and>
    sint (depositAmountAtHeight d h) = exact_amount (take (Suc (unat h)) bl) \<and>
    0 \<le> sint (depositAmountAtHeight d h) \<and> sint (fullDepositAmount d) = exact_amount bl \<and>
    unat (depositInterestAtHeight d h) = exact_interest (take (Suc (unat h)) bl) \<and>
    unat (fullInterestAmount d) = exact_interest bl"
  using deposit_run_facts(3) [OF assms, of "Suc (unat h)"] deposit_run_facts(4) [OF assms]
    lookup_repr [OF deposit_run_facts(1) [OF assms]] deposit_repr_totals [OF deposit_run_facts(1) [OF assms]]
    deposit_run_facts(1) [OF assms]
  by (simp add: totals_exact_def DepositIndex_size_def deposit_repr_def)

definition sample_deposits :: DepositIndex where
  "sample_deposits = \<lparr>di_index = [\<lparr>entry_height = 0, entry_amount = 70, entry_interest = 5\<rparr>,
     \<lparr>entry_height = 2, entry_amount = 40, entry_interest = 12\<rparr>], blockCount = 3\<rparr>"

lemma sample_deposits_run: "deposit_run sample_deposits [(70, 5), (0, 9), (- 30, 7)]"
proof -
  have "deposit_run \<lparr>di_index = [\<lparr>entry_height = 0, entry_amount = 70, entry_interest = 5\<rparr>], blockCount = 1\<rparr>
      ([] @ [(70, 5)])"
    by (rule run_push [OF run_new]) (simp_all add: DepositIndex_pushBlock_def DepositIndex_new_def
        sumWillOverflow_int64_def sumWillOverflow_uint64_def)
  then have "deposit_run \<lparr>di_index = [\<lparr>entry_height = 0, entry_amount = 70, entry_interest = 5\<rparr>], blockCount = 2\<rparr>
      (([] @ [(70, 5)]) @ [(0, 9)])"
    by (rule run_push) (simp_all add: DepositIndex_pushBlock_def sumWillOverflow_int64_def sumWillOverflow_uint64_def)
  then have "deposit_run sample_deposits ((([] @ [(70, 5)]) @ [(0, 9)]) @ [(- 30, 7)])"
    by (rule run_push) (simp_all add: DepositIndex_pushBlock_def sample_deposits_def sumWillOverflow_int64_def
        sumWillOverflow_uint64_def)
  then show ?thesis by simp
qed

theorem deposit_index_refines_witness:
  "sint (depositAmountAtHeight sample_deposits 1) = 70 \<and> sint (fullDepositAmount sample_deposits) = 40 \<and>
   unat (fullInterestAmount sample_deposits) = 12"
  using deposit_index_refines [OF sample_deposits_run, of 1]
  by (simp add: exact_amount_def exact_interest_def)

text \<open>C30: The assertions of the index are exact: after any history, pushing a block fails exactly when
  the new deposit total would be negative or exceed a signed 64-bit number or the interest total an
  unsigned one, and popping fails exactly on an index of no blocks.\<close>

theorem deposit_index_errors:
  assumes "deposit_run d bl"
  shows "(DepositIndex_pushBlock d a i = None \<longleftrightarrow>
      exact_amount bl + sint a < 0 \<or> 2 ^ 63 \<le> exact_amount bl + sint a \<or> 2 ^ 64 \<le> exact_interest bl + unat i) \<and>
    (DepositIndex_popBlock d = None \<longleftrightarrow> bl = [])"
proof
  have "totals_exact bl" using deposit_run_facts(4) [OF assms] .
  then show "DepositIndex_pushBlock d a i = None \<longleftrightarrow>
      exact_amount bl + sint a < 0 \<or> 2 ^ 63 \<le> exact_amount bl + sint a \<or> 2 ^ 64 \<le> exact_interest bl + unat i"
    using pushBlock_Some_iff [of d a i] deposit_repr_totals [OF deposit_run_facts(1) [OF assms]]
    by (cases "DepositIndex_pushBlock d a i") (auto simp: totals_exact_def add.commute)
  show "DepositIndex_popBlock d = None \<longleftrightarrow> bl = []"
    using deposit_repr_pop [OF deposit_run_facts(1) [OF assms]] deposit_run_facts(1) [OF assms]
    by (cases "bl = []") (auto simp: deposit_repr_def DepositIndex_popBlock_def)
qed

theorem deposit_index_errors_witness:
  "DepositIndex_pushBlock sample_deposits (- 41) 0 = None \<and> DepositIndex_popBlock sample_deposits \<noteq> None"
  using deposit_index_errors [OF sample_deposits_run, of "- 41" 0]
  by (simp add: exact_amount_def)

text \<open>Popping undoes pushing: after any history, a block pushed is removed by popping one block and
  by cutting the index at its height, the index being what it was before, and a cut at a height leaves
  exactly the blocks below it.\<close>

lemma deposit_pop_undoes_push:
  assumes "deposit_run d bl" "Suc (length bl) < 2 ^ 32"
  shows "(\<forall>d'. DepositIndex_pushBlock d a i = Some d' \<longrightarrow>
      DepositIndex_popBlock d' = Some d \<and> DepositIndex_popBlocks d' (of_nat (length bl)) = (1, d)) \<and>
    DepositIndex_popBlocks d h = (of_nat (length bl - unat h),
      \<lparr>di_index = entries (take (unat h) bl), blockCount = of_nat (length (take (unat h) bl))\<rparr>)"
proof (intro conjI allI impI)
  note r = deposit_run_facts(1) [OF assms(1)]
  have d: "d = \<lparr>di_index = entries bl, blockCount = of_nat (length bl)\<rparr>" using r by (simp add: deposit_repr_def)
  fix d' assume push: "DepositIndex_pushBlock d a i = Some d'"
  note r' = deposit_repr_push [OF r push assms(2)]
  show "DepositIndex_popBlock d' = Some d" using deposit_repr_pop [OF r'] d by simp
  have "unat (of_nat (length bl) :: uint32) = length bl" using assms(2) by (simp add: unat_of_nat_small)
  then show "DepositIndex_popBlocks d' (of_nat (length bl)) = (1, d)"
    using deposit_repr_popBlocks [OF r', of "of_nat (length bl)"] d by simp
qed (rule deposit_repr_popBlocks [OF deposit_run_facts(1) [OF assms(1)]])

section \<open>Persistence\<close>

interpretation depentry: codec out_DepositIndexEntry in_DepositIndexEntry "\<lambda>_. True"
proof (rule codec_intro)
  fix bs r and x :: DepositIndexEntry
  show "in_DepositIndexEntry bs = Inr (x, r) \<longleftrightarrow> True \<and> (\<exists>b. out_DepositIndexEntry x = Inr b \<and> bs = b @ r)"
    by (cases x) (auto simp: in_DepositIndexEntry_def out_DepositIndexEntry_def io_iff scalar_iff)
qed (auto simp: out_DepositIndexEntry_def scalar_out)

interpretation depentries: codec "out_container out_DepositIndexEntry" "in_container in_DepositIndexEntry"
  "\<lambda>v. length v \<le> max_container_size \<and> list_all (\<lambda>_. True) v"
  by (rule depentry.container_codec)

interpretation depindex: codec out_DepositIndex "in_DepositIndex DepositIndex_new"
  "\<lambda>d. length (di_index d) \<le> max_container_size"
proof (rule codec_intro)
  fix x :: DepositIndex assume "length (di_index x) \<le> max_container_size"
  then show "\<exists>b. out_DepositIndex x = Inr b"
    using depentries.enc_wf [of "di_index x"] by (auto simp: out_DepositIndex_def scalar_out wcat_Inr_iff)
next
  fix bs r and x :: DepositIndex
  show "in_DepositIndex DepositIndex_new bs = Inr (x, r) \<longleftrightarrow>
      length (di_index x) \<le> max_container_size \<and> (\<exists>b. out_DepositIndex x = Inr b \<and> bs = b @ r)"
    by (cases x) (auto simp: in_DepositIndex_def out_DepositIndex_def DepositIndex_new_def io_iff scalar_iff
        depentries.dec_iff)
qed

lemma length_entries: "length (entries bl) \<le> length bl"
  using length_filter_le [of _ "[0..<length bl]"] by (auto simp: entries_def)

text \<open>An index saved and loaded into a new object is the same index, whatever its history, for up to
  the serializer's limit of entries; loading accepts nothing else.\<close>

lemma deposit_index_persists:
  assumes "deposit_run d bl" "length bl \<le> max_container_size"
  shows "\<exists>b. out_DepositIndex d = Inr b \<and> in_DepositIndex DepositIndex_new (b @ r) = Inr (d, r) \<and>
    (\<forall>bs. in_DepositIndex DepositIndex_new bs = Inr (d, r) \<longrightarrow> bs = b @ r)"
proof -
  have "length (di_index d) \<le> max_container_size"
    using assms(2) length_entries [of bl] deposit_run_facts(1) [OF assms(1)] by (simp add: deposit_repr_def)
  then show ?thesis using depindex.enc_wf [of d] depindex.dec_iff by fastforce
qed

end
