(* ===== verification/InvestmentIndex.thy ===== *)
theory InvestmentIndex
  imports DepositIndex
begin

text \<open>
  \<^verbatim>\<open>src/CryptoNoteCore/InvestmentIndex.cpp\<close>: the running totals of investments. The class has the
  fields of \<open>DepositIndex\<close> and the bodies of its operations are the same statements, so each
  operation is that of the deposit index on the same record.
\<close>

type_synonym InvestmentIndex = DepositIndex

definition InvestmentIndex_new :: InvestmentIndex where
  "InvestmentIndex_new = DepositIndex_new"

definition InvestmentIndex_fullDepositAmount :: "InvestmentIndex \<Rightarrow> uint64" where
  "InvestmentIndex_fullDepositAmount = fullDepositAmount"

definition InvestmentIndex_fullInterestAmount :: "InvestmentIndex \<Rightarrow> uint64" where
  "InvestmentIndex_fullInterestAmount = fullInterestAmount"

definition InvestmentIndex_pushBlock :: "InvestmentIndex \<Rightarrow> uint64 \<Rightarrow> uint64 \<Rightarrow> InvestmentIndex option" where
  "InvestmentIndex_pushBlock = DepositIndex_pushBlock"

definition InvestmentIndex_popBlock :: "InvestmentIndex \<Rightarrow> InvestmentIndex option" where
  "InvestmentIndex_popBlock = DepositIndex_popBlock"

definition InvestmentIndex_size :: "InvestmentIndex \<Rightarrow> uint32" where
  "InvestmentIndex_size = DepositIndex_size"

definition InvestmentIndex_popBlocks :: "InvestmentIndex \<Rightarrow> uint32 \<Rightarrow> uint64 \<times> InvestmentIndex" where
  "InvestmentIndex_popBlocks = DepositIndex_popBlocks"

definition investmentAmountAtHeight :: "InvestmentIndex \<Rightarrow> uint32 \<Rightarrow> uint64" where
  "investmentAmountAtHeight = depositAmountAtHeight"

definition InvestmentIndex_interestAtHeight :: "InvestmentIndex \<Rightarrow> uint32 \<Rightarrow> uint64" where
  "InvestmentIndex_interestAtHeight = depositInterestAtHeight"

definition out_InvestmentIndex :: "InvestmentIndex \<Rightarrow> writer" where
  "out_InvestmentIndex = out_DepositIndex"

definition in_InvestmentIndex :: "InvestmentIndex \<Rightarrow> InvestmentIndex reader" where
  "in_InvestmentIndex = in_DepositIndex"

lemma investment_index_refines:
  assumes "deposit_run d bl"
  shows "InvestmentIndex_size d = of_nat (length bl)"
    "sint (investmentAmountAtHeight d h) = exact_amount (take (Suc (unat h)) bl)"
    "unat (InvestmentIndex_interestAtHeight d h) = exact_interest (take (Suc (unat h)) bl)"
  using deposit_run_facts(3) [OF assms, of "Suc (unat h)"] lookup_repr [OF deposit_run_facts(1) [OF assms], of h]
    deposit_run_facts(1) [OF assms]
  by (simp_all add: totals_exact_def DepositIndex_size_def deposit_repr_def InvestmentIndex_size_def
      investmentAmountAtHeight_def InvestmentIndex_interestAtHeight_def)

end
