(* ===== verification/CryptoNoteTools.thy ===== *)
theory CryptoNoteTools
  imports CryptoNoteSerialization
begin

text \<open>
  \<^verbatim>\<open>src/CryptoNoteCore/CryptoNoteTools.h\<close> and \<^verbatim>\<open>CryptoNoteTools.cpp\<close>: whole objects to and from
  byte arrays, their sizes and hashes, and sums of amounts. The templates take the \<open>serialize\<close>
  function of the object's type (\<open>enc\<close> or \<open>dec\<close>) as an argument. A caught exception is \<open>None\<close>, or
  the flag \<open>False\<close> with the out-parameters the code leaves behind. \<open>cn_fast_hash\<close> is a parameter.
\<close>

section \<open>Operations\<close>

definition toBinaryArray :: "('a \<Rightarrow> writer) \<Rightarrow> 'a \<Rightarrow> bytes option" where
  "toBinaryArray enc object = (case enc object of Inl e \<Rightarrow> None | Inr ba \<Rightarrow> Some ba)"

definition fromBinaryArray :: "'a reader \<Rightarrow> bytes \<Rightarrow> 'a option" where
  "fromBinaryArray dec binaryArray = (case dec binaryArray of
     Inl e \<Rightarrow> None
   | Inr (object, rest) \<Rightarrow> if rest = [] then Some object else None)"

definition getBinaryArrayHash :: "(bytes \<Rightarrow> Hash) \<Rightarrow> bytes \<Rightarrow> Hash" where
  "getBinaryArrayHash cn_fast_hash binaryArray = cn_fast_hash binaryArray"

definition getObjectBinarySize :: "('a \<Rightarrow> writer) \<Rightarrow> 'a \<Rightarrow> bool \<times> uint64" where
  "getObjectBinarySize enc object = (case toBinaryArray enc object of
     None \<Rightarrow> (False, - 1) | Some ba \<Rightarrow> (True, of_nat (length ba)))"

definition getObjectHash :: "(bytes \<Rightarrow> Hash) \<Rightarrow> ('a \<Rightarrow> writer) \<Rightarrow> 'a \<Rightarrow> bool \<times> Hash" where
  "getObjectHash cn_fast_hash enc object = (case toBinaryArray enc object of
     None \<Rightarrow> (False, NULL_HASH) | Some ba \<Rightarrow> (True, getBinaryArrayHash cn_fast_hash ba))"

definition getObjectHashSize :: "(bytes \<Rightarrow> Hash) \<Rightarrow> ('a \<Rightarrow> writer) \<Rightarrow> 'a \<Rightarrow> bool \<times> Hash \<times> uint64" where
  "getObjectHashSize cn_fast_hash enc object = (case toBinaryArray enc object of
     None \<Rightarrow> (False, NULL_HASH, - 1)
   | Some ba \<Rightarrow> (True, getBinaryArrayHash cn_fast_hash ba, of_nat (length ba)))"

definition input_amount :: "TransactionInput \<Rightarrow> uint64" where
  "input_amount i = (case i of BaseInput _ \<Rightarrow> 0 | KeyInput a _ _ \<Rightarrow> a | MultisignatureInput a _ _ _ \<Rightarrow> a)"

definition getInputAmount :: "'z TransactionPrefix_scheme \<Rightarrow> uint64" where
  "getInputAmount transaction = fold (\<lambda>i amnt. case i of
       KeyInput a _ _ \<Rightarrow> amnt + a | MultisignatureInput a _ _ _ \<Rightarrow> amnt + a | _ \<Rightarrow> amnt)
     (inputs transaction) 0"

definition getInputsAmounts :: "'z TransactionPrefix_scheme \<Rightarrow> uint64 list" where
  "getInputsAmounts transaction = fold (\<lambda>i inputsAmounts. case i of
       KeyInput a _ _ \<Rightarrow> inputsAmounts @ [a] | MultisignatureInput a _ _ _ \<Rightarrow> inputsAmounts @ [a]
     | _ \<Rightarrow> inputsAmounts)
     (inputs transaction) []"

definition getOutputAmount :: "'z TransactionPrefix_scheme \<Rightarrow> uint64" where
  "getOutputAmount transaction = fold (\<lambda>out amnt. amnt + amount out) (outputs transaction) 0"

section \<open>Round trips and hashes of any codec\<close>

lemma fromBinaryArray_iff: "fromBinaryArray dec ba = Some x \<longleftrightarrow> dec ba = Inr (x, [])"
  by (auto simp: fromBinaryArray_def split: sum.splits)

lemma toBinaryArray_iff: "toBinaryArray enc x = Some ba \<longleftrightarrow> enc x = Inr ba"
  by (auto simp: toBinaryArray_def split: sum.splits)

context codec
begin

lemma from_iff_to: "fromBinaryArray dec ba = Some x \<longleftrightarrow> wf x \<and> toBinaryArray enc x = Some ba"
  by (simp add: fromBinaryArray_iff toBinaryArray_iff dec_iff)

lemma to_inject:
  "wf x \<Longrightarrow> wf y \<Longrightarrow> toBinaryArray enc x = toBinaryArray enc y \<Longrightarrow> x = y"
  using from_iff_to enc_wf [of x] by (metis option.inject toBinaryArray_iff)

lemma hash_collision:
  assumes "wf x" "wf y" "x \<noteq> y" "getObjectHash h enc x = getObjectHash h enc y"
  shows "\<exists>a b. toBinaryArray enc x = Some a \<and> toBinaryArray enc y = Some b \<and> a \<noteq> b \<and> h a = h b"
proof -
  obtain a b where ab: "toBinaryArray enc x = Some a" "toBinaryArray enc y = Some b"
    using enc_wf assms(1,2) by (meson toBinaryArray_iff)
  moreover have "a \<noteq> b" using to_inject [OF assms(1,2)] assms(3) ab by auto
  ultimately show ?thesis using assms(4) by (simp add: getObjectHash_def getBinaryArrayHash_def)
qed

lemma parsed_hash:
  "fromBinaryArray dec ba = Some x \<Longrightarrow> getObjectHash h enc x = (True, h ba)"
  by (simp add: from_iff_to getObjectHash_def getBinaryArrayHash_def)

end

section \<open>Transactions and blocks as byte arrays\<close>

text \<open>C8: A byte array parses as a transaction exactly when it is the serialization of a well-formed
  transaction, and then it parses as that one: every well-formed transaction has one encoding, the
  encoding is read back unchanged, and no other bytes are accepted for it.\<close>

theorem transaction_encoding_unique:
  "fromBinaryArray in_Transaction ba = Some t \<longleftrightarrow>
   wf_Transaction t \<and> toBinaryArray out_Transaction t = Some ba"
  by (rule tx.from_iff_to)

text \<open>C20: The same for blocks: the accepted byte arrays are the serializations of the well-formed
  blocks, one for each.\<close>

theorem block_encoding_unique:
  "fromBinaryArray in_Block ba = Some b \<longleftrightarrow> wf_Block b \<and> toBinaryArray out_Block b = Some ba"
  by (rule block.from_iff_to)

text \<open>C21: Two different well-formed transactions have the same identifier only if \<open>cn_fast_hash\<close>
  maps two different byte arrays, their encodings, to one hash.\<close>

theorem transaction_hash_binding:
  assumes "wf_Transaction t" "wf_Transaction u" "t \<noteq> u"
    and "getObjectHash h out_Transaction t = getObjectHash h out_Transaction u"
  shows "\<exists>a b. toBinaryArray out_Transaction t = Some a \<and> toBinaryArray out_Transaction u = Some b \<and>
    a \<noteq> b \<and> h a = h b"
  by (rule tx.hash_collision [OF assms])

theorem transaction_hash_binding_witness:
  "\<exists>a b. toBinaryArray out_Transaction
      \<lparr>version = 1, unlockTime = 0, inputs = [], outputs = [], extra = [], signatures = []\<rparr> = Some a \<and>
    toBinaryArray out_Transaction
      \<lparr>version = 1, unlockTime = 1, inputs = [], outputs = [], extra = [], signatures = []\<rparr> = Some b \<and>
    a \<noteq> b \<and> (\<lambda>_. NULL_HASH) a = (\<lambda>_. NULL_HASH) b"
proof (rule transaction_hash_binding)
  let ?t = "\<lambda>u. \<lparr>version = 1, unlockTime = u, inputs = [], outputs = [], extra = [], signatures = []\<rparr>"
  show wf: "wf_Transaction (?t 0)" "wf_Transaction (?t 1)"
    by (simp_all add: wf_Transaction_def wf_TransactionPrefix_def TRANSACTION_VERSION_2_def)
  obtain a b where "toBinaryArray out_Transaction (?t 0) = Some a"
    "toBinaryArray out_Transaction (?t 1) = Some b"
    using tx.enc_wf wf by (meson toBinaryArray_iff)
  then show "getObjectHash (\<lambda>_. NULL_HASH) out_Transaction (?t 0) =
      getObjectHash (\<lambda>_. NULL_HASH) out_Transaction (?t 1)"
    by (simp add: getObjectHash_def getBinaryArrayHash_def)
qed simp

text \<open>A transaction built without signature vectors, as \<open>constructMinerTx\<close> leaves it, is written
  like the one with an empty vector per input, which is what reading it back gives.\<close>

lemma out_signatures_unexpected:
  "out_signatures True is sigs = (if list_all (\<lambda>i. getSignaturesCount i = 0) is then Inr []
     else Inl SignaturesNotExpected)"
  by (induction "is" arbitrary: sigs) auto

lemma out_signatures_replicate:
  "list_all (\<lambda>i. getSignaturesCount i = 0) is \<Longrightarrow>
   out_signatures False is (replicate (length is) []) = Inr []"
  by (induction "is") auto

lemma out_Transaction_unsigned:
  assumes "signatures t = []" "list_all (\<lambda>i. getSignaturesCount i = 0) (inputs t)"
  shows "out_Transaction t = out_Transaction (t\<lparr>signatures := replicate (length (inputs t)) []\<rparr>)"
proof -
  have "out_TransactionPrefix (t\<lparr>signatures := s\<rparr>) = out_TransactionPrefix t" for s
    by (simp add: out_TransactionPrefix_def)
  then show ?thesis
    using assms out_signatures_replicate [OF assms(2)]
    by (cases "inputs t = []") (simp_all add: out_Transaction_def out_signatures_unexpected Let_def)
qed

text \<open>A transaction whose inputs need no signatures and that carries no signature vectors
  serializes, and its bytes parse as the same transaction with an empty vector for each input.\<close>

lemma unsigned_transaction_roundtrip:
  assumes "wf_TransactionPrefix t" "signatures t = []"
    and "list_all (\<lambda>i. getSignaturesCount i = 0) (inputs t)"
  shows "\<exists>ba. toBinaryArray out_Transaction t = Some ba \<and>
    fromBinaryArray in_Transaction ba = Some (t\<lparr>signatures := replicate (length (inputs t)) []\<rparr>)"
proof -
  let ?u = "t\<lparr>signatures := replicate (length (inputs t)) []\<rparr>"
  have "map getSignaturesCount (inputs t) = replicate (length (inputs t)) 0"
    using assms(3) by (auto simp: list_all_iff map_replicate_const [symmetric] intro: map_cong)
  then have "wf_Transaction ?u"
    using assms(1) by (simp add: wf_Transaction_def wf_TransactionPrefix_def)
  moreover obtain ba where "out_Transaction ?u = Inr ba" using tx.enc_wf [OF calculation] by blast
  ultimately show ?thesis
    by (simp add: tx.from_iff_to toBinaryArray_iff out_Transaction_unsigned [OF assms(2,3)])
qed

end
