(* ===== verification/Config.thy ===== *)
theory Config
  imports CryptoNoteSerialization
begin

text \<open>
  \<^verbatim>\<open>src/CryptoNoteConfig.h\<close>: the consensus and pool parameters, at their widths and with the
  expressions the header computes them from. The collection \<open>config\<close> unfolds them.
\<close>

named_theorems config

declare TRANSACTION_VERSION_1_def [config] TRANSACTION_VERSION_2_def [config]
  BLOCK_MAJOR_VERSION_1_def [config] BLOCK_MAJOR_VERSION_2_def [config] BLOCK_MAJOR_VERSION_3_def [config]

definition CRYPTONOTE_MAX_BLOCK_NUMBER :: uint64 where [config]:
  "CRYPTONOTE_MAX_BLOCK_NUMBER = 500000000"

definition CRYPTONOTE_MAX_BLOCK_BLOB_SIZE :: uint64 where [config]:
  "CRYPTONOTE_MAX_BLOCK_BLOB_SIZE = 500000000"

definition CRYPTONOTE_MAX_TX_SIZE :: uint64 where [config]:
  "CRYPTONOTE_MAX_TX_SIZE = 1000000000"

definition CRYPTONOTE_PUBLIC_ADDRESS_BASE58_PREFIX :: uint64 where [config]:
  "CRYPTONOTE_PUBLIC_ADDRESS_BASE58_PREFIX = 0xe6dc4e2"

definition CRYPTONOTE_BLOCK_FUTURE_TIME_LIMIT :: uint64 where [config]:
  "CRYPTONOTE_BLOCK_FUTURE_TIME_LIMIT = 60 * 60 * 2"

definition CRYPTONOTE_BLOCK_FUTURE_TIME_LIMIT_V1 :: uint64 where [config]:
  "CRYPTONOTE_BLOCK_FUTURE_TIME_LIMIT_V1 = 360"

definition CRYPTONOTE_MINED_MONEY_UNLOCK_WINDOW :: uint64 where [config]:
  "CRYPTONOTE_MINED_MONEY_UNLOCK_WINDOW = 15"

definition CRYPTONOTE_DEFAULT_TX_SPENDABLE_AGE :: uint64 where [config]:
  "CRYPTONOTE_DEFAULT_TX_SPENDABLE_AGE = 15"

definition BLOCKCHAIN_TIMESTAMP_CHECK_WINDOW :: uint64 where [config]:
  "BLOCKCHAIN_TIMESTAMP_CHECK_WINDOW = 30"

definition BLOCKCHAIN_TIMESTAMP_CHECK_WINDOW_V1 :: uint64 where [config]:
  "BLOCKCHAIN_TIMESTAMP_CHECK_WINDOW_V1 = 11"

definition MONEY_SUPPLY :: uint64 where [config]:
  "MONEY_SUPPLY = 100000000000000"

definition CRYPTONOTE_REWARD_BLOCKS_WINDOW :: uint64 where [config]:
  "CRYPTONOTE_REWARD_BLOCKS_WINDOW = 100"

definition CRYPTONOTE_BLOCK_GRANTED_FULL_REWARD_ZONE :: uint64 where [config]:
  "CRYPTONOTE_BLOCK_GRANTED_FULL_REWARD_ZONE = 100000"

definition CRYPTONOTE_COINBASE_BLOB_RESERVED_SIZE :: uint64 where [config]:
  "CRYPTONOTE_COINBASE_BLOB_RESERVED_SIZE = 600"

definition CRYPTONOTE_DISPLAY_DECIMAL_POINT :: uint64 where [config]:
  "CRYPTONOTE_DISPLAY_DECIMAL_POINT = 5"

definition POINT :: uint64 where [config]:
  "POINT = 1000"

definition COIN :: uint64 where [config]:
  "COIN = 100000"

definition MINIMUM_FEE :: uint64 where [config]:
  "MINIMUM_FEE = 100"

definition MINIMUM_FEE_BANKING :: uint64 where [config]:
  "MINIMUM_FEE_BANKING = 1000"

definition DEFAULT_DUST_THRESHOLD :: uint64 where [config]:
  "DEFAULT_DUST_THRESHOLD = 10"

definition DIFFICULTY_TARGET :: uint64 where [config]:
  "DIFFICULTY_TARGET = 120"

definition EXPECTED_NUMBER_OF_BLOCKS_PER_DAY :: uint64 where [config]:
  "EXPECTED_NUMBER_OF_BLOCKS_PER_DAY = 24 * 60 * 60 div DIFFICULTY_TARGET"

definition DIFFICULTY_WINDOW :: uint64 where [config]:
  "DIFFICULTY_WINDOW = EXPECTED_NUMBER_OF_BLOCKS_PER_DAY"

definition DIFFICULTY_WINDOW_V1 :: uint64 where [config]:
  "DIFFICULTY_WINDOW_V1 = DIFFICULTY_WINDOW"

definition DIFFICULTY_WINDOW_V2 :: uint64 where [config]:
  "DIFFICULTY_WINDOW_V2 = DIFFICULTY_WINDOW"

definition DIFFICULTY_WINDOW_V3 :: uint64 where [config]:
  "DIFFICULTY_WINDOW_V3 = 60"

definition DIFFICULTY_BLOCKS_COUNT :: uint64 where [config]:
  "DIFFICULTY_BLOCKS_COUNT = DIFFICULTY_WINDOW_V3 + 1"

definition DIFFICULTY_CUT :: uint64 where [config]:
  "DIFFICULTY_CUT = 60"

definition DIFFICULTY_CUT_V1 :: uint64 where [config]:
  "DIFFICULTY_CUT_V1 = DIFFICULTY_CUT"

definition DIFFICULTY_CUT_V2 :: uint64 where [config]:
  "DIFFICULTY_CUT_V2 = DIFFICULTY_CUT"

definition DIFFICULTY_LAG :: uint64 where [config]:
  "DIFFICULTY_LAG = 15"

definition DIFFICULTY_LAG_V1 :: uint64 where [config]:
  "DIFFICULTY_LAG_V1 = DIFFICULTY_LAG"

definition DIFFICULTY_LAG_V2 :: uint64 where [config]:
  "DIFFICULTY_LAG_V2 = DIFFICULTY_LAG"

definition MINIMUM_MIXIN :: uint64 where [config]:
  "MINIMUM_MIXIN = 4"

definition DEPOSIT_MIN_AMOUNT :: uint64 where [config]:
  "DEPOSIT_MIN_AMOUNT = 1 * COIN"

definition DEPOSIT_MIN_TERM :: uint32 where [config]:
  "DEPOSIT_MIN_TERM = 21900"

definition DEPOSIT_MAX_TERM :: uint32 where [config]:
  "DEPOSIT_MAX_TERM = 1 * 12 * 21900"

definition DEPOSIT_MIN_TOTAL_RATE_FACTOR :: uint64 where [config]:
  "DEPOSIT_MIN_TOTAL_RATE_FACTOR = 0"

definition DEPOSIT_MAX_TOTAL_RATE :: uint64 where [config]:
  "DEPOSIT_MAX_TOTAL_RATE = 4"

definition MAX_BLOCK_SIZE_INITIAL :: uint64 where [config]:
  "MAX_BLOCK_SIZE_INITIAL = CRYPTONOTE_BLOCK_GRANTED_FULL_REWARD_ZONE * 10"

definition MAX_BLOCK_SIZE_GROWTH_SPEED_NUMERATOR :: uint64 where [config]:
  "MAX_BLOCK_SIZE_GROWTH_SPEED_NUMERATOR = 100 * 1024"

definition MAX_BLOCK_SIZE_GROWTH_SPEED_DENOMINATOR :: uint64 where [config]:
  "MAX_BLOCK_SIZE_GROWTH_SPEED_DENOMINATOR = 365 * 24 * 60 * 60 div DIFFICULTY_TARGET"

definition CRYPTONOTE_LOCKED_TX_ALLOWED_DELTA_BLOCKS :: uint64 where [config]:
  "CRYPTONOTE_LOCKED_TX_ALLOWED_DELTA_BLOCKS = 1"

definition CRYPTONOTE_LOCKED_TX_ALLOWED_DELTA_SECONDS :: uint64 where [config]:
  "CRYPTONOTE_LOCKED_TX_ALLOWED_DELTA_SECONDS = DIFFICULTY_TARGET * CRYPTONOTE_LOCKED_TX_ALLOWED_DELTA_BLOCKS"

definition CRYPTONOTE_MAX_TX_SIZE_LIMIT :: uint64 where [config]:
  "CRYPTONOTE_MAX_TX_SIZE_LIMIT = (CRYPTONOTE_BLOCK_GRANTED_FULL_REWARD_ZONE div 4) - CRYPTONOTE_COINBASE_BLOB_RESERVED_SIZE"

definition CRYPTONOTE_OPTIMIZE_SIZE :: uint64 where [config]:
  "CRYPTONOTE_OPTIMIZE_SIZE = 100"

definition CRYPTONOTE_MEMPOOL_TX_LIVETIME :: uint64 where [config]:
  "CRYPTONOTE_MEMPOOL_TX_LIVETIME = (60 * 60 * 12)"

definition CRYPTONOTE_MEMPOOL_TX_FROM_ALT_BLOCK_LIVETIME :: uint64 where [config]:
  "CRYPTONOTE_MEMPOOL_TX_FROM_ALT_BLOCK_LIVETIME = (60 * 60 * 24)"

definition CRYPTONOTE_NUMBER_OF_PERIODS_TO_FORGET_TX_DELETED_FROM_POOL :: uint64 where [config]:
  "CRYPTONOTE_NUMBER_OF_PERIODS_TO_FORGET_TX_DELETED_FROM_POOL = 7"

definition FUSION_TX_MAX_SIZE :: uint64 where [config]:
  "FUSION_TX_MAX_SIZE = CRYPTONOTE_MAX_TX_SIZE_LIMIT * 2"

definition FUSION_TX_MIN_INPUT_COUNT :: uint64 where [config]:
  "FUSION_TX_MIN_INPUT_COUNT = 12"

definition FUSION_TX_MIN_IN_OUT_COUNT_RATIO :: uint64 where [config]:
  "FUSION_TX_MIN_IN_OUT_COUNT_RATIO = 4"

definition UPGRADE_HEIGHT :: uint64 where [config]:
  "UPGRADE_HEIGHT = 1"

definition UPGRADE_HEIGHT_V2 :: uint64 where [config]:
  "UPGRADE_HEIGHT_V2 = 1"

definition UPGRADE_HEIGHT_V3 :: uint64 where [config]:
  "UPGRADE_HEIGHT_V3 = 2"

definition UPGRADE_VOTING_THRESHOLD :: uint32 where [config]:
  "UPGRADE_VOTING_THRESHOLD = 90"

definition UPGRADE_VOTING_WINDOW :: uint64 where [config]:
  "UPGRADE_VOTING_WINDOW = EXPECTED_NUMBER_OF_BLOCKS_PER_DAY"

definition UPGRADE_WINDOW :: uint64 where [config]:
  "UPGRADE_WINDOW = EXPECTED_NUMBER_OF_BLOCKS_PER_DAY"

definition START_BLOCK_REWARD :: uint64 where [config]:
  "START_BLOCK_REWARD = (5000 * POINT)"

definition MAX_BLOCK_REWARD :: uint64 where [config]:
  "MAX_BLOCK_REWARD = (20 * COIN)"

definition REWARD_INCREASE_INTERVAL :: uint64 where [config]:
  "REWARD_INCREASE_INTERVAL = (21900)"

definition GENESIS_NONCE :: uint32 where [config]:
  "GENESIS_NONCE = 10000"

definition GENESIS_TIMESTAMP :: uint64 where [config]:
  "GENESIS_TIMESTAMP = 1527078920"

definition BLOCK_MINOR_VERSION_0 :: uint8 where [config]:
  "BLOCK_MINOR_VERSION_0 = 0"

definition BLOCK_MINOR_VERSION_1 :: uint8 where [config]:
  "BLOCK_MINOR_VERSION_1 = 1"

definition BLOCKS_IDS_SYNCHRONIZING_DEFAULT_COUNT :: uint64 where [config]:
  "BLOCKS_IDS_SYNCHRONIZING_DEFAULT_COUNT = 10000"

definition BLOCKS_SYNCHRONIZING_DEFAULT_COUNT :: uint64 where [config]:
  "BLOCKS_SYNCHRONIZING_DEFAULT_COUNT = 128"

definition COMMAND_RPC_GET_BLOCKS_FAST_MAX_COUNT :: uint64 where [config]:
  "COMMAND_RPC_GET_BLOCKS_FAST_MAX_COUNT = 1000"

end
