(* ===== verification/IntUtil.thy ===== *)
theory IntUtil
  imports Prelude
begin

text \<open>
  \<^verbatim>\<open>src/Common/int-util.h\<close>: the 128-bit product and the 128-by-32-bit long division that the
  reward, interest, fee-priority and proof-of-work code is built on. A C++ output parameter is a
  further component of the result. The main facts say that both routines are exact on natural
  numbers (\<open>mul128_exact\<close>, \<open>div128_32_exact\<close>); division by zero is undefined behaviour in the
  source, and every caller's lemma discharges \<open>divisor \<noteq> 0\<close>.
\<close>

section \<open>Definitions\<close>

definition hi_dword :: "uint64 \<Rightarrow> uint64" where
  "hi_dword val = drop_bit 32 val"

definition lo_dword :: "uint64 \<Rightarrow> uint64" where
  "lo_dword val = val AND 0xFFFFFFFF"

definition mul128 :: "uint64 \<Rightarrow> uint64 \<Rightarrow> uint64 \<times> uint64" where
  "mul128 multiplier multiplicand =
     (let a = hi_dword multiplier; b = lo_dword multiplier;
          c = hi_dword multiplicand; d = lo_dword multiplicand;
          ac = a * c; ad = a * d; bc = b * c; bd = b * d;
          adbc = ad + bc;
          adbc_carry = (if adbc < ad then 1 else 0);
          product_lo = bd + push_bit 32 adbc;
          product_lo_carry = (if product_lo < bd then 1 else 0);
          product_hi = ac + drop_bit 32 adbc + push_bit 32 adbc_carry + product_lo_carry
      in (product_lo, product_hi))"

definition div_with_reminder :: "uint64 \<Rightarrow> uint32 \<Rightarrow> uint32 \<Rightarrow> uint64 \<times> uint32" where
  "div_with_reminder dividend divisor rem =
     (let dividend = dividend OR push_bit 32 (ucast rem)
      in (dividend div ucast divisor, ucast (dividend mod ucast divisor)))"

definition div128_32 :: "uint64 \<Rightarrow> uint64 \<Rightarrow> uint32 \<Rightarrow> uint32 \<times> uint64 \<times> uint64" where
  "div128_32 dividend_hi dividend_lo divisor =
     (let (q3, r3) = div_with_reminder (hi_dword dividend_hi) divisor 0;
          (q2, r2) = div_with_reminder (lo_dword dividend_hi) divisor r3;
          (q1, r1) = div_with_reminder (hi_dword dividend_lo) divisor r2;
          (q0, r0) = div_with_reminder (lo_dword dividend_lo) divisor r1
      in (r0, push_bit 32 q3 OR q2, push_bit 32 q1 OR q0))"

section \<open>Exactness\<close>

lemma lo_dword_take_bit: "lo_dword v = take_bit 32 v"
  by (simp add: lo_dword_def take_bit_eq_mask mask_eq_exp_minus_1)

lemma unat_hi_dword: "unat (hi_dword v) = unat v div 4294967296"
  by (simp add: hi_dword_def unat_simps)

lemma unat_lo_dword: "unat (lo_dword v) = unat v mod 4294967296"
  by (simp add: lo_dword_take_bit unat_simps)

lemma unat_hi_dword_less [simp]: "unat (hi_dword v) < 4294967296"
  using unat_bound64 [of v] by (simp add: unat_hi_dword less_mult_imp_div_less)

lemma unat_lo_dword_less [simp]: "unat (lo_dword v) < 4294967296"
  by (simp add: unat_lo_dword)

lemma dword_split: "unat v = unat (hi_dword v) * 4294967296 + unat (lo_dword v)"
  by (simp add: unat_hi_dword unat_lo_dword)

lemma unat_mult_dwords:
  assumes "unat x < 4294967296" "unat y < 4294967296"
  shows "unat (x * y :: uint64) = unat x * unat y"
proof -
  have "unat x * unat y \<le> 4294967295 * 4294967295"
    using assms by (intro mult_le_mono) simp_all
  then show ?thesis by (simp add: unat_simps)
qed

text \<open>The schoolbook product on natural numbers, with the two carries made explicit.\<close>

lemma mul128_arith:
  fixes a b c d q r k plo k' :: nat
  assumes adbc: "a * d + b * c = q * 4294967296 + r + k * 18446744073709551616"
    and plo: "b * d + r * 4294967296 = plo + k' * 18446744073709551616"
  shows "(a * 4294967296 + b) * (c * 4294967296 + d) =
    (a * c + q + k * 4294967296 + k') * 18446744073709551616 + plo"
proof -
  have "(a * 4294967296 + b) * (c * 4294967296 + d) =
    a * c * 18446744073709551616 + (a * d + b * c) * 4294967296 + b * d"
    by (simp add: algebra_simps)
  also have "\<dots> = (a * c + q + k * 4294967296) * 18446744073709551616 + (b * d + r * 4294967296)"
    unfolding adbc by (simp add: algebra_simps)
  also have "\<dots> = (a * c + q + k * 4294967296 + k') * 18446744073709551616 + plo"
    unfolding plo by (simp add: algebra_simps)
  finally show ?thesis .
qed

lemma high_word_bound:
  "(h :: nat) * 18446744073709551616 + l \<le> 18446744073709551615 * 18446744073709551615 \<Longrightarrow>
   h < 18446744073709551616"
  by simp

lemma mul128_exact:
  "unat (snd (mul128 x y)) * 18446744073709551616 + unat (fst (mul128 x y)) = unat x * unat y"
proof -
  define a b c d where "a = hi_dword x" and "b = lo_dword x" and "c = hi_dword y" and "d = lo_dword y"
  note abcd = a_def b_def c_def d_def
  define adbc plo where "adbc = a * d + b * c" and "plo = b * d + push_bit 32 adbc"
  define k k' :: uint64 where "k = (if adbc < a * d then 1 else 0)" and "k' = (if plo < b * d then 1 else 0)"
  have prods: "unat (a * c) = unat a * unat c" "unat (a * d) = unat a * unat d"
    "unat (b * c) = unat b * unat c" "unat (b * d) = unat b * unat d"
    by (simp_all add: unat_mult_dwords abcd)
  have push: "unat (push_bit 32 adbc) = unat adbc mod 4294967296 * 4294967296"
    using mod_mult_mult2 [of "unat adbc" 4294967296 4294967296] by (simp add: unat_simps)
  have 1: "unat a * unat d + unat b * unat c =
      unat adbc div 4294967296 * 4294967296 + unat adbc mod 4294967296 + unat k * 18446744073709551616"
    using unat_plus_split [of "a * d" "b * c"] prods by (simp add: adbc_def k_def)
  have 2: "unat b * unat d + unat adbc mod 4294967296 * 4294967296 =
      unat plo + unat k' * 18446744073709551616"
    using unat_plus_split [of "b * d" "push_bit 32 adbc"] prods push by (simp add: plo_def k'_def)
  let ?hi = "unat a * unat c + unat adbc div 4294967296 + unat k * 4294967296 + unat k'"
  have eq: "unat x * unat y = ?hi * 18446744073709551616 + unat plo"
    using mul128_arith [OF 1 2] dword_split [of x] dword_split [of y] by (simp add: abcd)
  have "unat x * unat y \<le> 18446744073709551615 * 18446744073709551615"
    using unat_bound64 [of x] unat_bound64 [of y] by (intro mult_le_mono) linarith+
  then have hi: "?hi < 18446744073709551616"
    unfolding eq by (rule high_word_bound)
  have "mul128 x y = (plo, a * c + drop_bit 32 adbc + push_bit 32 k + k')"
    by (simp add: mul128_def Let_def abcd adbc_def plo_def k_def k'_def)
  moreover have "unat (a * c + drop_bit 32 adbc + push_bit 32 k + k') = ?hi"
  proof -
    have "unat (drop_bit 32 adbc) = unat adbc div 4294967296" by (simp add: unat_simps)
    moreover have "unat (push_bit 32 k) = unat k * 4294967296" by (simp add: k_def unat_simps)
    ultimately show ?thesis
      using hi prods(1) by (simp add: unat_plus_exact)
  qed
  ultimately show ?thesis using eq by simp
qed

lemma unat_div_with_reminder:
  assumes "unat r < unat divisor" "unat dividend < 4294967296"
  shows "unat (fst (div_with_reminder dividend divisor r)) =
           (unat r * 4294967296 + unat dividend) div unat divisor"
    and "unat (snd (div_with_reminder dividend divisor r)) =
           (unat r * 4294967296 + unat dividend) mod unat divisor"
proof -
  have "unat (dividend OR push_bit 32 (ucast r :: uint64)) = unat r * 4294967296 + unat dividend"
    using unat_or_push_bit [of dividend 32 "ucast r"] assms unat_bound32 [of r]
    by (simp add: unat_ucast_up)
  moreover have "unat (ucast divisor :: uint64) = unat divisor"
    by (simp add: unat_ucast_up)
  moreover have "n mod unat divisor < 4294967296" for n
    using assms(1) unat_bound32 [of divisor] mod_less_divisor [of "unat divisor" n] by linarith
  ultimately show "unat (fst (div_with_reminder dividend divisor r)) =
           (unat r * 4294967296 + unat dividend) div unat divisor"
    and "unat (snd (div_with_reminder dividend divisor r)) =
           (unat r * 4294967296 + unat dividend) mod unat divisor"
    by (simp_all add: div_with_reminder_def Let_def unat_simps)
qed

text \<open>One step of long division in base \<open>2\<^sup>32\<close>: the digit fits, the remainder stays below the divisor.\<close>

lemma long_division_step:
  fixes d r x :: nat
  assumes "r < d" "x < 4294967296"
  shows "(r * 4294967296 + x) div d < 4294967296"
    and "(r * 4294967296 + x) div d * d + (r * 4294967296 + x) mod d = r * 4294967296 + x"
    and "(r * 4294967296 + x) mod d < d"
proof -
  have "r * 4294967296 + x < d * 4294967296"
  proof -
    have "(r + 1) * 4294967296 \<le> d * 4294967296" using assms(1) by (intro mult_le_mono1) simp
    with assms(2) show ?thesis by simp
  qed
  then show "(r * 4294967296 + x) div d < 4294967296"
    by (simp add: less_mult_imp_div_less mult.commute)
qed (use assms(1) in simp_all)

lemma div128_32_exact:
  assumes d: "divisor \<noteq> 0" and res: "div128_32 hi lo divisor = (rm, qhi, qlo)"
  shows "unat hi * 18446744073709551616 + unat lo =
           (unat qhi * 18446744073709551616 + unat qlo) * unat divisor + unat rm"
    and "unat rm < unat divisor"
proof -
  let ?d = "unat divisor"
  define x3 x2 x1 x0 where x: "x3 = hi_dword hi" "x2 = lo_dword hi" "x1 = hi_dword lo" "x0 = lo_dword lo"
  obtain q3 r3 where s3: "div_with_reminder x3 divisor 0 = (q3, r3)" by fastforce
  obtain q2 r2 where s2: "div_with_reminder x2 divisor r3 = (q2, r2)" by fastforce
  obtain q1 r1 where s1: "div_with_reminder x1 divisor r2 = (q1, r1)" by fastforce
  obtain q0 r0 where s0: "div_with_reminder x0 divisor r1 = (q0, r0)" by fastforce
  have d0: "unat (0 :: uint32) < ?d" using d by (simp add: unat_gt_0)
  have x_lt: "unat x3 < 4294967296" "unat x2 < 4294967296" "unat x1 < 4294967296" "unat x0 < 4294967296"
    by (simp_all add: x)
  have e3: "unat q3 * ?d + unat r3 = unat x3" "unat q3 < 4294967296" "unat r3 < ?d"
    using unat_div_with_reminder [OF d0 x_lt(1)] long_division_step [OF d0 x_lt(1)] s3 by simp_all
  have e2: "unat q2 * ?d + unat r2 = unat r3 * 4294967296 + unat x2" "unat q2 < 4294967296" "unat r2 < ?d"
    using unat_div_with_reminder [OF e3(3) x_lt(2)] long_division_step [OF e3(3) x_lt(2)] s2 by simp_all
  have e1: "unat q1 * ?d + unat r1 = unat r2 * 4294967296 + unat x1" "unat q1 < 4294967296" "unat r1 < ?d"
    using unat_div_with_reminder [OF e2(3) x_lt(3)] long_division_step [OF e2(3) x_lt(3)] s1 by simp_all
  have e0: "unat q0 * ?d + unat r0 = unat r1 * 4294967296 + unat x0" "unat q0 < 4294967296" "unat r0 < ?d"
    using unat_div_with_reminder [OF e1(3) x_lt(4)] long_division_step [OF e1(3) x_lt(4)] s0 by simp_all
  have q: "rm = r0" "qhi = push_bit 32 q3 OR q2" "qlo = push_bit 32 q1 OR q0"
    using res s3 s2 s1 s0 by (simp_all add: div128_32_def x Let_def)
  have "unat qhi = unat q3 * 4294967296 + unat q2" "unat qlo = unat q1 * 4294967296 + unat q0"
    using unat_or_push_bit [of q2 32 q3] unat_or_push_bit [of q0 32 q1] e3(2) e2(2) e1(2) e0(2)
    by (simp_all add: q or.commute)
  then have "(unat qhi * 18446744073709551616 + unat qlo) * ?d + unat rm =
      (unat q3 * ?d) * 79228162514264337593543950336 + (unat q2 * ?d) * 18446744073709551616
      + (unat q1 * ?d) * 4294967296 + (unat q0 * ?d + unat r0)"
    by (simp add: q algebra_simps)
  also have "\<dots> = unat x3 * 79228162514264337593543950336 + unat x2 * 18446744073709551616
      + unat x1 * 4294967296 + unat x0"
    using e3(1) e2(1) e1(1) e0(1) by linarith
  also have "\<dots> = unat hi * 18446744073709551616 + unat lo"
    using dword_split [of hi] dword_split [of lo] by (simp add: x)
  finally show "unat hi * 18446744073709551616 + unat lo =
      (unat qhi * 18446744073709551616 + unat qlo) * ?d + unat rm" by simp
  show "unat rm < ?d" using e0(3) q by simp
qed

text \<open>the wide arithmetic is exact. \<open>mul128\<close> returns the two 64-bit halves of the full product, and
  \<open>div128_32\<close> of a 128-bit dividend by a non-zero 32-bit divisor returns the quotient's two halves and
  the remainder.
\<close>

lemma wide_arithmetic_exact:
  assumes "divisor \<noteq> 0"
    and "mul128 x y = (lo, hi)"
    and "div128_32 hi lo divisor = (rm, qhi, qlo)"
  shows "unat hi * 2 ^ 64 + unat lo = unat x * unat y \<and>
         unat qhi * 2 ^ 64 + unat qlo = unat x * unat y div unat divisor \<and>
         unat rm = unat x * unat y mod unat divisor"
proof -
  let ?q = "unat qhi * 18446744073709551616 + unat qlo"
  have p: "unat hi * 18446744073709551616 + unat lo = unat x * unat y"
    using mul128_exact [of x y] assms(2) by simp
  have "unat x * unat y = ?q * unat divisor + unat rm" "unat rm < unat divisor"
    using div128_32_exact [OF assms(1,3)] p by simp_all
  then have "unat x * unat y div unat divisor = ?q \<and> unat x * unat y mod unat divisor = unat rm"
    by simp
  with p show ?thesis by simp
qed

end
