(* ===== verification/FormatUtils.thy ===== *)
theory FormatUtils
  imports CryptoNoteTools Config IntUtil
begin

text \<open>
  The amount, offset and well-formedness functions of
  \<^verbatim>\<open>src/CryptoNoteCore/CryptoNoteFormatUtils.cpp\<close> and \<^verbatim>\<open>CryptoNoteFormatUtils.h\<close>. Loops over the
  inputs or outputs of a transaction are recursions over the list with the loop's variables as
  arguments; loops over an index are recursions on the index. \<open>check_key\<close> is a parameter.
\<close>

section \<open>Operations\<close>

definition get_inputs_money_amount :: "'z TransactionPrefix_scheme \<Rightarrow> uint64" where
  "get_inputs_money_amount tx = fold (\<lambda>i money. money + input_amount i) (inputs tx) 0"

definition get_block_height :: "'z Block_scheme \<Rightarrow> uint32" where
  "get_block_height b = (case inputs (baseTransaction b) of
     [BaseInput blockIndex] \<Rightarrow> blockIndex | _ \<Rightarrow> 0)"

definition check_inputs_types_supported :: "'z TransactionPrefix_scheme \<Rightarrow> bool" where
  "check_inputs_types_supported tx = list_all (\<lambda>i. case i of
       MultisignatureInput _ _ _ _ \<Rightarrow> \<not> version tx < TRANSACTION_VERSION_2
     | KeyInput _ _ _ \<Rightarrow> True | BaseInput _ \<Rightarrow> False) (inputs tx)"

datatype outs_error = ZeroAmountOutput | OutputWithInvalidKey | MultisignatureInOldVersion
  | InvalidRequiredSignatureCount | MultisignatureWithInvalidKey

definition check_out :: "(PublicKey \<Rightarrow> bool) \<Rightarrow> uint8 \<Rightarrow> TransactionOutput \<Rightarrow> outs_error option" where
  "check_out check_key ver out = (case target out of
     KeyOutput key \<Rightarrow>
       if amount out = 0 then Some ZeroAmountOutput
       else if \<not> check_key key then Some OutputWithInvalidKey
       else None
   | MultisignatureOutput keys requiredSignatureCount _ \<Rightarrow>
       if ver < TRANSACTION_VERSION_2 then Some MultisignatureInOldVersion
       else if unat requiredSignatureCount > length keys then Some InvalidRequiredSignatureCount
       else if list_ex (\<lambda>key. \<not> check_key key) keys then Some MultisignatureWithInvalidKey
       else None)"

fun check_outs_loop :: "(PublicKey \<Rightarrow> bool) \<Rightarrow> uint8 \<Rightarrow> TransactionOutput list \<Rightarrow> outs_error option" where
  "check_outs_loop check_key ver [] = None"
| "check_outs_loop check_key ver (out # outs) = (case check_out check_key ver out of
     Some e \<Rightarrow> Some e | None \<Rightarrow> check_outs_loop check_key ver outs)"

definition check_outs_valid :: "(PublicKey \<Rightarrow> bool) \<Rightarrow> 'z TransactionPrefix_scheme \<Rightarrow> outs_error option" where
  "check_outs_valid check_key tx = check_outs_loop check_key (version tx) (outputs tx)"

fun multisignature_diff_loop :: "(uint64 \<times> uint32) list \<Rightarrow> TransactionInput list \<Rightarrow> bool" where
  "multisignature_diff_loop inputsUsage [] = True"
| "multisignature_diff_loop inputsUsage (i # ins) = (case i of
     MultisignatureInput amnt _ outputIndex _ \<Rightarrow>
       if (amnt, outputIndex) \<in> set inputsUsage then False
       else multisignature_diff_loop ((amnt, outputIndex) # inputsUsage) ins
   | _ \<Rightarrow> multisignature_diff_loop inputsUsage ins)"

definition checkMultisignatureInputsDiff :: "'z TransactionPrefix_scheme \<Rightarrow> bool" where
  "checkMultisignatureInputsDiff tx = multisignature_diff_loop [] (inputs tx)"

text \<open>One turn of the loop of \<open>check_inputs_overflow\<close> up to the sum: the amount to add, or
  \<open>None\<close> where the code returns false.\<close>

definition input_amount_with_interest :: "TransactionInput \<Rightarrow> uint64 option" where
  "input_amount_with_interest i = (case i of
     BaseInput _ \<Rightarrow> Some 0
   | KeyInput amnt _ _ \<Rightarrow> Some amnt
   | MultisignatureInput amnt _ _ trm \<Rightarrow>
       if trm \<noteq> 0 then
         let (lo, hi) = mul128 amnt DEPOSIT_MAX_TOTAL_RATE;
             (_, maxInterestHi, maxInterestLo) = div128_32 hi lo 100
         in if maxInterestHi > 0 then None
            else if amnt > - 1 - maxInterestLo then None
            else Some (amnt + maxInterestLo)
       else Some amnt)"

fun inputs_overflow_loop :: "uint64 \<Rightarrow> TransactionInput list \<Rightarrow> bool" where
  "inputs_overflow_loop money [] = True"
| "inputs_overflow_loop money (i # is) = (case input_amount_with_interest i of
     None \<Rightarrow> False
   | Some amnt \<Rightarrow> if money > amnt + money then False else inputs_overflow_loop (money + amnt) is)"

definition check_inputs_overflow :: "'z TransactionPrefix_scheme \<Rightarrow> bool" where
  "check_inputs_overflow tx = inputs_overflow_loop 0 (inputs tx)"

fun outs_overflow_loop :: "uint64 \<Rightarrow> TransactionOutput list \<Rightarrow> bool" where
  "outs_overflow_loop money [] = True"
| "outs_overflow_loop money (out # outs) =
     (if money > amount out + money then False else outs_overflow_loop (money + amount out) outs)"

definition check_outs_overflow :: "'z TransactionPrefix_scheme \<Rightarrow> bool" where
  "check_outs_overflow tx = outs_overflow_loop 0 (outputs tx)"

definition check_money_overflow :: "'z TransactionPrefix_scheme \<Rightarrow> bool" where
  "check_money_overflow tx \<longleftrightarrow> check_inputs_overflow tx \<and> check_outs_overflow tx"

definition get_outs_money_amount :: "'z TransactionPrefix_scheme \<Rightarrow> uint64" where
  "get_outs_money_amount tx = fold (\<lambda>out money. money + amount out) (outputs tx) 0"

text \<open>The two offset conversions update the vector in place, one upwards, the other downwards.\<close>

function relative_to_absolute_loop :: "nat \<Rightarrow> uint32 list \<Rightarrow> uint32 list" where
  "relative_to_absolute_loop i res =
     (if i < length res then relative_to_absolute_loop (i + 1) (res[i := res ! i + res ! (i - 1)]) else res)"
  by pat_completeness auto
termination by (relation "measure (\<lambda>(i, res). length res - i)") auto

definition relative_output_offsets_to_absolute :: "uint32 list \<Rightarrow> uint32 list" where
  "relative_output_offsets_to_absolute off = relative_to_absolute_loop 1 off"

fun absolute_to_relative_loop :: "nat \<Rightarrow> uint32 list \<Rightarrow> uint32 list" where
  "absolute_to_relative_loop 0 res = res"
| "absolute_to_relative_loop (Suc i) res =
     absolute_to_relative_loop i (res[Suc i := res ! Suc i - res ! i])"

definition absolute_output_offsets_to_relative :: "uint32 list \<Rightarrow> uint32 list" where
  "absolute_output_offsets_to_relative off =
     (if off = [] then [] else absolute_to_relative_loop (length off - 1) (sort off))"

text \<open>\<open>decompose_amount_into_digits\<close> as the sequence of its handler calls: \<open>Chunk\<close> for
  \<open>chunk_handler\<close> and \<open>Dust\<close> for \<open>dust_handler\<close>.\<close>

datatype decomposed = Chunk uint64 | Dust uint64

function decompose_loop :: "uint64 \<Rightarrow> uint64 \<Rightarrow> uint64 \<Rightarrow> uint64 \<Rightarrow> bool \<Rightarrow> decomposed list" where
  "decompose_loop dust_threshold amnt order dust is_dust_handled =
     (if amnt = 0 then (if \<not> is_dust_handled \<and> dust \<noteq> 0 then [Dust dust] else [])
      else
        let chunk = (amnt mod 10) * order;
            amnt' = amnt div 10;
            order' = order * 10
        in if dust + chunk \<le> dust_threshold then
             decompose_loop dust_threshold amnt' order' (dust + chunk) is_dust_handled
           else
             (if \<not> is_dust_handled \<and> dust \<noteq> 0 then [Dust dust] else []) @
             (if chunk \<noteq> 0 then [Chunk chunk] else []) @
             decompose_loop dust_threshold amnt' order' dust (is_dust_handled \<or> dust \<noteq> 0))"
  by pat_completeness auto
termination
  by (relation "measure (\<lambda>(t, a, rest). unat a)") (simp_all add: unat_div_eq unat_gt_0)

definition decompose_amount_into_digits :: "uint64 \<Rightarrow> uint64 \<Rightarrow> decomposed list" where
  "decompose_amount_into_digits amnt dust_threshold =
     (if amnt = 0 then [] else decompose_loop dust_threshold amnt 1 0 False)"

fun decomposed_amount :: "decomposed \<Rightarrow> uint64" where
  "decomposed_amount (Chunk a) = a"
| "decomposed_amount (Dust a) = a"

definition decomposeAmount :: "uint64 \<Rightarrow> uint64 \<Rightarrow> uint64 list" where
  "decomposeAmount amnt dustThreshold = map decomposed_amount (decompose_amount_into_digits amnt dustThreshold)"

declare decompose_loop.simps [simp del] relative_to_absolute_loop.simps [simp del]

section \<open>Sums and their overflow checks\<close>

lemma less_plus_iff: "money > a + money \<longleftrightarrow> \<not> unat money + unat a < 2 ^ 64" for a money :: uint64
  unfolding add.commute [of a money] plus_less_iff_overflow not_less by simp

lemma outs_overflow_loop_iff:
  "outs_overflow_loop money outs \<longleftrightarrow> unat money + (\<Sum>out\<leftarrow>outs. unat (amount out)) < 2 ^ 64"
proof (induction outs arbitrary: money)
  case (Cons out outs)
  show ?case
  proof (cases "unat money + unat (amount out) < 2 ^ 64")
    case True
    then have "unat (money + amount out) = unat money + unat (amount out)"
      by (intro unat_plus_exact) simp
    with True show ?thesis unfolding outs_overflow_loop.simps less_plus_iff Cons.IH by (simp add: add.assoc)
  next
    case False
    then show ?thesis unfolding outs_overflow_loop.simps less_plus_iff by simp
  qed
qed simp

lemma interest_bound_exact:
  assumes "mul128 a DEPOSIT_MAX_TOTAL_RATE = (lo, hi)" and "div128_32 hi lo 100 = (rm, qhi, qlo)"
  shows "unat qhi * 18446744073709551616 + unat qlo = unat a * 4 div 100"
proof -
  define q where "q = unat qhi * 18446744073709551616 + unat qlo"
  have rate: "unat DEPOSIT_MAX_TOTAL_RATE = 4" by (simp add: DEPOSIT_MAX_TOTAL_RATE_def)
  have "unat hi * 18446744073709551616 + unat lo = unat a * 4"
    using mul128_exact [of a DEPOSIT_MAX_TOTAL_RATE] unfolding assms(1) rate fst_conv snd_conv .
  moreover have "(100 :: uint32) \<noteq> 0" "unat (100 :: uint32) = 100" by simp_all
  ultimately have "unat a * 4 = q * 100 + unat rm" "unat rm < 100"
    using div128_32_exact [OF _ assms(2)] unfolding q_def by metis+
  then have "q = unat a * 4 div 100" by (metis div_mult_self3 div_less add.right_neutral zero_neq_numeral)
  then show ?thesis unfolding q_def .
qed

text \<open>What an input can add to the sum: its amount, with the largest interest the rate
  \<open>DEPOSIT_MAX_TOTAL_RATE\<close> allows on a deposit.\<close>

definition input_claim :: "TransactionInput \<Rightarrow> nat" where
  "input_claim i = (case i of BaseInput _ \<Rightarrow> 0 | KeyInput a _ _ \<Rightarrow> unat a
   | MultisignatureInput a _ _ trm \<Rightarrow> if trm \<noteq> 0 then unat a + unat a * 4 div 100 else unat a)"

lemma input_amount_with_interest_exact:
  "input_amount_with_interest i =
   (if input_claim i < 18446744073709551616 then Some (of_nat (input_claim i)) else None)"
proof (cases i)
  case (MultisignatureInput a n x trm)
  show ?thesis
  proof (cases "trm = 0")
    case False
    obtain lo hi where m: "mul128 a DEPOSIT_MAX_TOTAL_RATE = (lo, hi)" by fastforce
    obtain rm qhi qlo where d: "div128_32 hi lo 100 = (rm, qhi, qlo)" using prod_cases3 by blast
    note q = interest_bound_exact [OF m d]
    have claim: "input_claim i = unat a + unat a * 4 div 100"
      using MultisignatureInput False by (simp add: input_claim_def)
    have "unat a < 18446744073709551616" using unat_bound64 [of a] by simp
    then have "unat a * 4 div 100 < 18446744073709551616" by linarith
    then have "unat qhi = 0" using q by linarith
    then have hi0: "qhi = 0" by (simp add: unat_eq_0)
    have lo: "unat qlo = unat a * 4 div 100" using q \<open>unat qhi = 0\<close> by linarith
    have sub: "unat (- 1 - qlo) = 18446744073709551615 - unat qlo"
      by (simp add: unat_max_minus)
    have test: "a > - 1 - qlo \<longleftrightarrow> \<not> input_claim i < 18446744073709551616"
      using unat_bound64 [of qlo] unfolding word_less_nat_alt sub claim lo by linarith
    have "input_claim i = unat a + unat qlo" using claim lo by simp
    then have val: "of_nat (input_claim i) = a + qlo" by simp
    have "input_amount_with_interest i = (if a > - 1 - qlo then None else Some (a + qlo))"
      unfolding input_amount_with_interest_def MultisignatureInput using False hi0 by (simp add: m d)
    then show ?thesis unfolding test val by simp
  qed (use MultisignatureInput in \<open>simp add: input_amount_with_interest_def input_claim_def\<close>)
qed (simp_all add: input_amount_with_interest_def input_claim_def)

lemma inputs_overflow_loop_iff:
  "inputs_overflow_loop money is \<longleftrightarrow> unat money + (\<Sum>i\<leftarrow>is. input_claim i) < 2 ^ 64"
proof (induction "is" arbitrary: money)
  case (Cons i "is")
  show ?case
  proof (cases "unat money + input_claim i < 2 ^ 64")
    case True
    then have "input_claim i < 18446744073709551616" by simp
    then have a: "input_amount_with_interest i = Some (of_nat (input_claim i))"
      and u: "unat (of_nat (input_claim i) :: uint64) = input_claim i"
      by (simp_all add: input_amount_with_interest_exact unat_of_nat_small)
    have "unat (money + of_nat (input_claim i)) = unat money + input_claim i"
      using True by (subst unat_plus_exact) (simp_all add: u)
    with True show ?thesis
      unfolding inputs_overflow_loop.simps a option.case less_plus_iff u Cons.IH by (simp add: add.assoc)
  next
    case False
    have "\<not> inputs_overflow_loop money (i # is)"
    proof (cases "input_claim i < 18446744073709551616")
      case True
      then have "input_amount_with_interest i = Some (of_nat (input_claim i))"
        "unat (of_nat (input_claim i) :: uint64) = input_claim i"
        by (simp_all add: input_amount_with_interest_exact unat_of_nat_small)
      with False show ?thesis unfolding inputs_overflow_loop.simps by (simp add: less_plus_iff)
    qed (simp add: input_amount_with_interest_exact)
    with False show ?thesis by simp
  qed
qed simp

lemma input_amount_le_claim: "unat (input_amount i) \<le> input_claim i"
  by (simp add: input_amount_def input_claim_def split: TransactionInput.splits)

lemma sum_list_le: "(\<And>x. f x \<le> g x) \<Longrightarrow> (\<Sum>x\<leftarrow>xs. f x) \<le> (\<Sum>x\<leftarrow>xs. g x :: nat)"
  by (induction xs) (simp_all add: add_mono)

text \<open>C22: \<open>check_money_overflow\<close> accepts exactly the transactions whose outputs, and whose inputs
  with 4 percent interest on every deposit, add up to less than \<open>2^64\<close> as natural numbers.\<close>

theorem money_overflow_exact:
  "check_money_overflow t \<longleftrightarrow>
   (\<Sum>i\<leftarrow>inputs t. input_claim i) < 2 ^ 64 \<and> (\<Sum>out\<leftarrow>outputs t. unat (amount out)) < 2 ^ 64"
  unfolding check_money_overflow_def check_inputs_overflow_def check_outs_overflow_def
    inputs_overflow_loop_iff outs_overflow_loop_iff by simp

text \<open>For an accepted transaction the wrapping sums of the code are the true sums.\<close>

lemma checked_sums_exact:
  assumes "check_money_overflow t"
  shows "unat (get_outs_money_amount t) = (\<Sum>out\<leftarrow>outputs t. unat (amount out)) \<and>
    unat (get_inputs_money_amount t) = (\<Sum>i\<leftarrow>inputs t. unat (input_amount i))"
proof -
  have "(\<Sum>i\<leftarrow>inputs t. input_claim i) < 2 ^ 64" "(\<Sum>out\<leftarrow>outputs t. unat (amount out)) < 2 ^ 64"
    using assms unfolding check_money_overflow_def check_inputs_overflow_def check_outs_overflow_def
      inputs_overflow_loop_iff outs_overflow_loop_iff by simp_all
  moreover from this(1) have "(\<Sum>i\<leftarrow>inputs t. unat (input_amount i)) < 2 ^ 64"
    using sum_list_le [of "\<lambda>i. unat (input_amount i)" input_claim "inputs t"] input_amount_le_claim
    by (meson le_less_trans)
  ultimately show ?thesis
    unfolding get_outs_money_amount_def get_inputs_money_amount_def fold_plus_eq
    using unat_sum_list_exact [of amount "outputs t"] unat_sum_list_exact [of input_amount "inputs t"]
    by simp
qed

section \<open>Output offsets\<close>

lemma length_relative_to_absolute_loop [simp]:
  "length (relative_to_absolute_loop i res) = length res"
  by (induction i res rule: relative_to_absolute_loop.induct) (subst relative_to_absolute_loop.simps, simp)

lemma relative_to_absolute_loop_nth:
  "0 < i \<Longrightarrow> j < length res \<Longrightarrow> relative_to_absolute_loop i res ! j =
     (if j < i then res ! j else relative_to_absolute_loop i res ! (j - 1) + res ! j)"
proof (induction i res arbitrary: j rule: relative_to_absolute_loop.induct)
  case (1 i res)
  show ?case
  proof (cases "i < length res")
    case True
    let ?res = "res[i := res ! i + res ! (i - 1)]"
    have unfold: "relative_to_absolute_loop i res = relative_to_absolute_loop (i + 1) ?res"
      using True by (subst relative_to_absolute_loop.simps) simp
    have IH: "relative_to_absolute_loop (i + 1) ?res ! k =
        (if k < i + 1 then ?res ! k else relative_to_absolute_loop (i + 1) ?res ! (k - 1) + ?res ! k)"
      if "k < length res" for k
      using "1.IH" [OF True, of k] that by simp
    consider "j < i" | "j = i" | "i < j" by linarith
    then show ?thesis
    proof cases
      case 2
      obtain k where k: "i = Suc k" using "1.prems"(1) gr0_implies_Suc by blast
      have "relative_to_absolute_loop i res ! k = res ! k"
        unfolding unfold using IH [of k] True k by simp
      moreover have "relative_to_absolute_loop i res ! i = res ! k + res ! i"
        unfolding unfold using IH [of i] True k by (simp add: add.commute)
      ultimately show ?thesis using 2 k by simp
    qed (use IH [of j] "1.prems" in \<open>simp_all add: unfold\<close>)
  qed (use "1.prems" in \<open>simp add: relative_to_absolute_loop.simps\<close>)
qed

lemma length_absolute_to_relative_loop [simp]:
  "length (absolute_to_relative_loop i res) = length res"
  by (induction i res rule: absolute_to_relative_loop.induct) auto

lemma absolute_to_relative_loop_nth:
  "i < length res \<Longrightarrow> j < length res \<Longrightarrow> absolute_to_relative_loop i res ! j =
     (if 0 < j \<and> j \<le> i then res ! j - res ! (j - 1) else res ! j)"
  by (induction i res arbitrary: j rule: absolute_to_relative_loop.induct)
    (auto simp: nth_list_update le_Suc_eq)

lemma length_offsets [simp]:
  "length (relative_output_offsets_to_absolute off) = length off"
  "length (absolute_output_offsets_to_relative off) = length off"
  by (simp_all add: relative_output_offsets_to_absolute_def absolute_output_offsets_to_relative_def)

lemma to_absolute_nth:
  "j < length off \<Longrightarrow> relative_output_offsets_to_absolute off ! j =
     (if j = 0 then off ! 0 else relative_output_offsets_to_absolute off ! (j - 1) + off ! j)"
  using relative_to_absolute_loop_nth [of 1 j off]
  by (auto simp: relative_output_offsets_to_absolute_def)

lemma to_relative_nth:
  "j < length off \<Longrightarrow> absolute_output_offsets_to_relative off ! j =
     (if j = 0 then sort off ! 0 else sort off ! j - sort off ! (j - 1))"
  using absolute_to_relative_loop_nth [of "length off - 1" "sort off" j]
  by (auto simp: absolute_output_offsets_to_relative_def)

lemma absolute_of_relative_nth:
  "j < length off \<Longrightarrow>
   relative_output_offsets_to_absolute (absolute_output_offsets_to_relative off) ! j = sort off ! j"
proof (induction j)
  case (Suc j)
  then show ?case using to_absolute_nth [of "Suc j"] to_relative_nth [of "Suc j"] by simp
next
  case 0
  then show ?case
    using to_absolute_nth [of 0 "absolute_output_offsets_to_relative off"] to_relative_nth [of 0 off]
    by simp
qed

text \<open>The absolute offsets are the partial sums, so they ascend as long as none of them wraps.\<close>

lemma unat_to_absolute_nth:
  assumes "(\<Sum>x\<leftarrow>off. unat x) < 2 ^ 32" and "j < length off"
  shows "unat (relative_output_offsets_to_absolute off ! j) = (\<Sum>x\<leftarrow>take (Suc j) off. unat x)"
  using assms(2)
proof (induction j)
  case 0
  then show ?case using to_absolute_nth [of 0 off] by (cases off) simp_all
next
  case (Suc j)
  have split: "(\<Sum>x\<leftarrow>take (Suc (Suc j)) off. unat x) = (\<Sum>x\<leftarrow>take (Suc j) off. unat x) + unat (off ! Suc j)"
    using Suc.prems by (simp add: take_Suc_conv_app_nth)
  have "(\<Sum>x\<leftarrow>take (Suc (Suc j)) off. unat x) \<le> (\<Sum>x\<leftarrow>off. unat x)"
    by (metis append_take_drop_id le_add1 map_append sum_list_append)
  then have "unat (relative_output_offsets_to_absolute off ! j + off ! Suc j) =
      (\<Sum>x\<leftarrow>take (Suc (Suc j)) off. unat x)"
    using Suc assms(1) split by (subst unat_plus_exact) simp_all
  then show ?case using to_absolute_nth [of "Suc j" off] Suc.prems by simp
qed

lemma sorted_to_absolute:
  assumes "(\<Sum>x\<leftarrow>off. unat x) < 2 ^ 32"
  shows "sorted (relative_output_offsets_to_absolute off)"
proof (rule sorted_iff_nth_Suc [THEN iffD2, rule_format])
  fix j assume "Suc j < length (relative_output_offsets_to_absolute off)"
  then have j: "Suc j < length off" by simp
  have "(\<Sum>x\<leftarrow>take (Suc j) off. unat x) \<le> (\<Sum>x\<leftarrow>take (Suc (Suc j)) off. unat x)"
    using j by (simp add: take_Suc_conv_app_nth)
  then show "relative_output_offsets_to_absolute off ! j \<le> relative_output_offsets_to_absolute off ! Suc j"
    unfolding word_le_nat_alt using unat_to_absolute_nth [OF assms] j by simp
qed

text \<open>C23: Turning offsets into relative ones and back sorts them: a ring of output indexes put into a
  transaction is read back as the same indexes in ascending order. Relative offsets whose sum fits in
  32 bits survive the way through absolute ones unchanged.\<close>

theorem offsets_roundtrip:
  "relative_output_offsets_to_absolute (absolute_output_offsets_to_relative offs) = sort offs \<and>
   ((\<Sum>x\<leftarrow>rel. unat x) < 2 ^ 32 \<longrightarrow>
     absolute_output_offsets_to_relative (relative_output_offsets_to_absolute rel) = rel)"
proof (intro conjI impI)
  show "relative_output_offsets_to_absolute (absolute_output_offsets_to_relative offs) = sort offs"
    by (rule nth_equalityI) (simp_all add: absolute_of_relative_nth)
next
  assume "(\<Sum>x\<leftarrow>rel. unat x) < 2 ^ 32"
  note sort = sorted_to_absolute [OF this, THEN sorted_sort_id]
  show "absolute_output_offsets_to_relative (relative_output_offsets_to_absolute rel) = rel"
  proof (rule nth_equalityI)
    fix j assume "j < length (absolute_output_offsets_to_relative (relative_output_offsets_to_absolute rel))"
    then show "absolute_output_offsets_to_relative (relative_output_offsets_to_absolute rel) ! j = rel ! j"
      using to_relative_nth [of j "relative_output_offsets_to_absolute rel"] to_absolute_nth [of j rel]
        to_absolute_nth [of 0 rel]
      by (cases j) (simp_all add: sort)
  qed simp
qed

theorem offsets_roundtrip_witness:
  "absolute_output_offsets_to_relative (relative_output_offsets_to_absolute [5, 3, 0, 12]) = [5, 3, 0, 12]"
  using offsets_roundtrip [of "[]" "[5, 3, 0, 12]"] by simp

section \<open>Decomposition into digits\<close>

definition pieces_total :: "decomposed list \<Rightarrow> nat" where
  "pieces_total ds = (\<Sum>x\<leftarrow>ds. unat (decomposed_amount x))"

lemma pieces_total_simps [simp]:
  "pieces_total [] = 0" "pieces_total (x # ds) = unat (decomposed_amount x) + pieces_total ds"
  "pieces_total (ds @ es) = pieces_total ds + pieces_total es"
  by (simp_all add: pieces_total_def)

fun well_decomposed :: "uint64 \<Rightarrow> decomposed \<Rightarrow> bool" where
  "well_decomposed t (Chunk a) = list_ex (\<lambda>k. list_ex (\<lambda>d. unat a = d * 10 ^ k) [1..<10]) [0..<20]"
| "well_decomposed t (Dust a) = (0 < a \<and> a \<le> t)"

text \<open>The state of the loop after \<open>k\<close> digits: \<open>dust\<close> is below \<open>10^k\<close> and within the threshold, and once
  a digit has been passed to \<open>chunk_handler\<close> no later non-zero digit can fit under the threshold.\<close>

definition decompose_inv :: "uint64 \<Rightarrow> uint64 \<Rightarrow> uint64 \<Rightarrow> nat \<Rightarrow> uint64 \<Rightarrow> bool \<Rightarrow> bool" where
  "decompose_inv t amnt order k dust h \<longleftrightarrow>
     (amnt \<noteq> 0 \<longrightarrow> unat order = 10 ^ k) \<and> unat dust < 10 ^ k \<and> dust \<le> t \<and>
     unat dust + unat amnt * 10 ^ k < 18446744073709551616 \<and> (h \<longrightarrow> unat t < 10 ^ k)"

lemma decompose_step:
  assumes inv: "decompose_inv t amnt order k dust h" and "amnt \<noteq> 0"
  defines "chunk \<equiv> (amnt mod 10) * order"
  shows "unat chunk = unat amnt mod 10 * 10 ^ k"
    and "unat (dust + chunk) = unat dust + unat chunk"
    and "unat amnt * 10 ^ k = unat chunk + unat (amnt div 10) * 10 ^ Suc k"
    and "k < 20"
    and "amnt div 10 \<noteq> 0 \<longrightarrow> unat (order * 10) = 10 ^ Suc k"
proof -
  have order: "unat order = 10 ^ k" and lim: "unat dust + unat amnt * 10 ^ k < 18446744073709551616"
    using inv \<open>amnt \<noteq> 0\<close> by (simp_all add: decompose_inv_def)
  have "(q * 10 + r) * 10 ^ k = r * 10 ^ k + q * 10 ^ Suc k" for q r :: nat
    by (simp add: add_mult_distrib)
  from this [of "unat amnt div 10" "unat amnt mod 10"]
  have split: "unat amnt * 10 ^ k = unat amnt mod 10 * 10 ^ k + unat amnt div 10 * 10 ^ Suc k"
    by simp
  have "unat amnt mod 10 * 10 ^ k < 18446744073709551616" using split lim by linarith
  then show c: "unat chunk = unat amnt mod 10 * 10 ^ k"
    unfolding chunk_def by (simp add: unat_mult_mod unat_mod_eq order)
  show "unat (dust + chunk) = unat dust + unat chunk"
    using c split lim by (intro unat_plus_exact) simp
  show "unat amnt * 10 ^ k = unat chunk + unat (amnt div 10) * 10 ^ Suc k"
    using c split by (simp add: unat_div_eq)
  have "0 < unat amnt" using \<open>amnt \<noteq> 0\<close> by (simp add: unat_gt_0)
  then have "10 ^ k \<le> unat amnt * 10 ^ k" by simp
  then have "(10::nat) ^ k < 18446744073709551616" using lim by linarith
  then have "(10::nat) ^ k < 10 ^ 20" by (rule less_trans) simp
  then show "k < 20" by (rule power_less_imp_less_exp [rotated]) simp
  show "amnt div 10 \<noteq> 0 \<longrightarrow> unat (order * 10) = 10 ^ Suc k"
  proof
    assume "amnt div 10 \<noteq> 0"
    then have "0 < unat (amnt div 10)" by (simp add: unat_gt_0)
    then have "0 < unat amnt div 10" by (simp add: unat_div_eq)
    then have "(10::nat) ^ Suc k \<le> unat amnt div 10 * 10 ^ Suc k" by simp
    then have "(10::nat) ^ Suc k < 18446744073709551616" using split lim by linarith
    then show "unat (order * 10) = 10 ^ Suc k" by (simp add: unat_mult_mod order mult.commute)
  qed
qed

lemma decompose_step_inv:
  assumes inv: "decompose_inv t amnt order k dust h" and "amnt \<noteq> 0"
  defines "chunk \<equiv> (amnt mod 10) * order"
  shows "dust + chunk \<le> t \<Longrightarrow> decompose_inv t (amnt div 10) (order * 10) (Suc k) (dust + chunk) h"
    and "\<not> dust + chunk \<le> t \<Longrightarrow> decompose_inv t (amnt div 10) (order * 10) (Suc k) dust True"
    and "dust + chunk \<le> t \<Longrightarrow> h \<Longrightarrow> chunk = 0"
proof -
  note step = decompose_step [OF assms(1,2), folded chunk_def]
  have I: "unat dust < 10 ^ k" "dust \<le> t" "h \<longrightarrow> unat t < 10 ^ k"
    "unat dust + unat amnt * 10 ^ k < 18446744073709551616"
    using inv by (simp_all add: decompose_inv_def)
  have "unat amnt mod 10 \<le> 9" by (simp add: Suc_leI less_Suc_eq_le)
  then have "unat amnt mod 10 * 10 ^ k \<le> 9 * 10 ^ k" by (rule mult_right_mono) simp
  then have dc: "unat dust + unat chunk < 10 ^ Suc k" using I(1) unfolding step(1) power_Suc by linarith
  have lim: "unat dust + unat chunk + unat (amnt div 10) * 10 ^ Suc k < 18446744073709551616"
    using I(4) unfolding step(3) by (simp add: add.assoc)
  have t': "h \<longrightarrow> unat t < 10 ^ Suc k" using I(3) by auto
  show "decompose_inv t (amnt div 10) (order * 10) (Suc k) (dust + chunk) h" if "dust + chunk \<le> t"
    unfolding decompose_inv_def step(2) using step(5) dc lim t' that by blast
  show "decompose_inv t (amnt div 10) (order * 10) (Suc k) dust True" if "\<not> dust + chunk \<le> t"
  proof -
    have "unat t < unat dust + unat chunk" using that unfolding not_le word_less_nat_alt step(2) .
    then have "unat t < 10 ^ Suc k" using dc by linarith
    moreover have "unat dust < 10 ^ Suc k" using dc by linarith
    moreover have "unat dust + unat (amnt div 10) * 10 ^ Suc k < 18446744073709551616" using lim by linarith
    ultimately show ?thesis unfolding decompose_inv_def using step(5) I(2) by blast
  qed
  show "chunk = 0" if "dust + chunk \<le> t" h
  proof (rule ccontr)
    assume "chunk \<noteq> 0"
    then have "unat amnt mod 10 \<noteq> 0" using step(1) by (metis mult_0 unat_eq_0)
    then have "10 ^ k \<le> unat chunk" unfolding step(1) by simp
    moreover have "unat dust + unat chunk \<le> unat t" using that(1) unfolding word_le_nat_alt step(2) .
    ultimately show False using I(3) that(2) by simp
  qed
qed

lemma chunk_digit:
  assumes "decompose_inv t amnt order k dust h" and "amnt \<noteq> 0" and "(amnt mod 10) * order \<noteq> 0"
  shows "well_decomposed t (Chunk ((amnt mod 10) * order))"
proof -
  note step = decompose_step [OF assms(1,2)]
  have "unat amnt mod 10 \<noteq> 0" using step(1) assms(3) by (metis mult_0 unat_eq_0)
  then have "unat amnt mod 10 \<in> set [1..<10]" by simp
  moreover have "k \<in> set [0..<20]" using step(4) by simp
  ultimately show ?thesis unfolding well_decomposed.simps list_ex_iff using step(1) by blast
qed

lemma decompose_loop_correct:
  "decompose_inv t amnt order k dust h \<Longrightarrow>
   pieces_total (decompose_loop t amnt order dust h) = unat amnt * 10 ^ k + (if h then 0 else unat dust) \<and>
   list_all (well_decomposed t) (decompose_loop t amnt order dust h) \<and>
   length (filter (\<lambda>x. case x of Dust _ \<Rightarrow> True | _ \<Rightarrow> False) (decompose_loop t amnt order dust h))
     \<le> (if h then 0 else 1)"
proof (induction t amnt order dust h arbitrary: k rule: decompose_loop.induct)
  case (1 t amnt order dust h)
  show ?case
  proof (cases "amnt = 0")
    case True
    then show ?thesis
      using "1.prems" by (subst (1 2 3) decompose_loop.simps) (simp add: decompose_inv_def word_gt_0)
  next
    case False
    let ?chunk = "(amnt mod 10) * order"
    note step = decompose_step [OF "1.prems" False] and next_inv = decompose_step_inv [OF "1.prems" False]
    show ?thesis
    proof (cases "dust + ?chunk \<le> t")
      case True
      have unfold: "decompose_loop t amnt order dust h =
          decompose_loop t (amnt div 10) (order * 10) (dust + ?chunk) h"
        using False True by (subst decompose_loop.simps) simp
      note IH = "1.IH"(1) [OF False refl refl refl True next_inv(1) [OF True]]
      have "(if h then 0 else unat (dust + ?chunk)) + unat (amnt div 10) * 10 ^ Suc k =
          unat amnt * 10 ^ k + (if h then 0 else unat dust)"
        using next_inv(3) [OF True] step(2,3) by auto
      then show ?thesis unfolding unfold using IH by (simp del: power_Suc)
    next
      case fits: False
      let ?h = "h \<or> dust \<noteq> 0"
      have unfold: "decompose_loop t amnt order dust h =
          (if \<not> h \<and> dust \<noteq> 0 then [Dust dust] else []) @ (if ?chunk \<noteq> 0 then [Chunk ?chunk] else []) @
          decompose_loop t (amnt div 10) (order * 10) dust ?h"
        using False fits by (subst decompose_loop.simps) simp
      have "decompose_inv t (amnt div 10) (order * 10) (Suc k) dust ?h"
        using next_inv(2) [OF fits] by (auto simp: decompose_inv_def)
      note IH = "1.IH"(2) [OF False refl refl refl fits this]
      have "dust \<le> t" using "1.prems" by (simp add: decompose_inv_def)
      then show ?thesis
        unfolding unfold using IH step(3) chunk_digit [OF "1.prems" False]
        by (auto simp: word_gt_0 simp del: power_Suc split: if_splits)
    qed
  qed
qed

lemma decompose_total:
  "(\<Sum>x\<leftarrow>decompose_amount_into_digits a t. unat (decomposed_amount x)) = unat a \<and>
   (\<Sum>x\<leftarrow>decomposeAmount a t. unat x) = unat a \<and>
   list_all (well_decomposed t) (decompose_amount_into_digits a t) \<and>
   length (filter (\<lambda>x. case x of Dust _ \<Rightarrow> True | _ \<Rightarrow> False) (decompose_amount_into_digits a t)) \<le> 1"
proof (cases "a = 0")
  case False
  have "decompose_inv t a 1 0 0 False"
    using unat_bound64 [of a] by (simp add: decompose_inv_def)
  from decompose_loop_correct [OF this] False show ?thesis
    by (simp add: decompose_amount_into_digits_def decomposeAmount_def pieces_total_def comp_def)
qed (simp add: decompose_amount_into_digits_def decomposeAmount_def)

text \<open>C24: Decomposing an amount neither loses nor creates money: the pieces add up to the amount,
  every chunk is a digit from 1 to 9 times a power of ten, and there is at most one dust piece, which
  is positive and at most the dust threshold.\<close>

theorem decompose_preserves_amount:
  "(\<Sum>x\<leftarrow>decompose_amount_into_digits a t. unat (decomposed_amount x)) = unat a \<and>
   (\<Sum>x\<leftarrow>decomposeAmount a t. unat x) = unat a \<and>
   list_all (well_decomposed t) (decompose_amount_into_digits a t) \<and>
   length (filter (\<lambda>x. case x of Dust _ \<Rightarrow> True | _ \<Rightarrow> False) (decompose_amount_into_digits a t)) \<le> 1"
  by (rule decompose_total)

section \<open>Multisignature inputs and outputs\<close>

definition multisignature_keys :: "TransactionInput list \<Rightarrow> (uint64 \<times> uint32) list" where
  "multisignature_keys is = concat (map (\<lambda>i. case i of
     MultisignatureInput a _ outputIndex _ \<Rightarrow> [(a, outputIndex)] | _ \<Rightarrow> []) is)"

lemma multisignature_keys_simps [simp]:
  "multisignature_keys [] = []"
  "multisignature_keys (MultisignatureInput a n outputIndex trm # is) = (a, outputIndex) # multisignature_keys is"
  "multisignature_keys (KeyInput a ois k # is) = multisignature_keys is"
  "multisignature_keys (BaseInput b # is) = multisignature_keys is"
  by (simp_all add: multisignature_keys_def)

lemma multisignature_diff_loop_iff:
  "multisignature_diff_loop used is \<longleftrightarrow>
   distinct (multisignature_keys is) \<and> set (multisignature_keys is) \<inter> set used = {}"
  by (induction used "is" rule: multisignature_diff_loop.induct)
    (auto split: TransactionInput.splits)

lemma check_out_None:
  "check_out check_key ver out = None \<longleftrightarrow> (case target out of
      KeyOutput key \<Rightarrow> amount out \<noteq> 0 \<and> check_key key
    | MultisignatureOutput keys n _ \<Rightarrow>
        TRANSACTION_VERSION_2 \<le> ver \<and> unat n \<le> length keys \<and> list_all check_key keys)"
  by (cases "target out") (auto simp: check_out_def list_all_iff list_ex_iff not_less)

lemma check_outs_loop_None:
  "check_outs_loop check_key ver outs = None \<longleftrightarrow> list_all (\<lambda>out. check_out check_key ver out = None) outs"
  by (induction outs) (auto split: option.splits)

text \<open>The stateless checks on a transaction's inputs and outputs, as conditions on all of them:
  the multisignature inputs name pairwise different outputs exactly when
  \<open>checkMultisignatureInputsDiff\<close> accepts, and \<open>check_outs_valid\<close> accepts exactly when every key output
  has a non-zero amount and a valid key, and every multisignature output is in a transaction of
  version 2, with valid keys and no more required signatures than keys.\<close>

lemma stateless_checks_exact:
  "(checkMultisignatureInputsDiff t \<longleftrightarrow> distinct (multisignature_keys (inputs t))) \<and>
   (check_outs_valid check_key t = None \<longleftrightarrow>
     list_all (\<lambda>out. case target out of
        KeyOutput key \<Rightarrow> amount out \<noteq> 0 \<and> check_key key
      | MultisignatureOutput keys n _ \<Rightarrow>
          TRANSACTION_VERSION_2 \<le> version t \<and> unat n \<le> length keys \<and> list_all check_key keys)
      (outputs t))"
  by (simp add: checkMultisignatureInputsDiff_def multisignature_diff_loop_iff check_outs_valid_def
      check_outs_loop_None check_out_None)

end
