(* ===== verification/Varint.thy ===== *)
theory Varint
  imports StreamTools
begin

text \<open>
  \<^verbatim>\<open>src/Common/Varint.h\<close>: the iterator-based variable-length integers that addresses, transaction
  extra fields and hashing blobs use. \<open>read_varint\<close> returns its \<open>int\<close> (the number of bytes read, or
  a negative error), the value left in \<open>i\<close> and the rest of the input; unlike \<open>readVarint\<close> it returns
  at the end of the input without an error.
\<close>

section \<open>Operations\<close>

function write_varint :: "uint64 \<Rightarrow> bytes" where
  "write_varint i = (if 0x80 \<le> i then ((ucast i AND 0x7f) OR 0x80) # write_varint (drop_bit 7 i) else [ucast i])"
  by pat_completeness auto
termination
  by (relation "measure unat") (simp_all add: unat_drop_bit word_le_nat_alt)

declare write_varint.simps [simp del]

definition get_varint_data :: "uint64 \<Rightarrow> bytes" where
  "get_varint_data v = write_varint v"

fun read_varint_loop :: "nat \<Rightarrow> int \<Rightarrow> uint64 \<Rightarrow> bytes \<Rightarrow> int \<times> uint64 \<times> bytes" where
  "read_varint_loop shift rd i [] = (rd, i, [])"
| "read_varint_loop shift rd i (byte # rest) =
     (if 64 \<le> shift + 7 \<and> 2 ^ (64 - shift) \<le> unat byte then (- 1, i, rest)
      else if byte = 0 \<and> shift \<noteq> 0 then (- 2, i, rest)
      else
        let i = i OR push_bit shift (ucast (byte AND 0x7f))
        in if byte AND 0x80 = 0 then (rd + 1, i, rest)
           else read_varint_loop (shift + 7) (rd + 1) i rest)"

definition read_varint :: "bytes \<Rightarrow> int \<times> uint64 \<times> bytes" where
  "read_varint input = read_varint_loop 0 0 0 input"

section \<open>Agreement with the stream functions\<close>

lemma write_varint_eq: "write_varint v = writeVarint v"
proof (induction v rule: write_varint.induct)
  case (1 v)
  have "(ucast v AND 0x7f) OR 0x80 = (ucast (v OR 0x80) :: uint8)"
  proof (rule bit_word_eqI)
    fix n assume "n < LENGTH(8)"
    have m: "(0x7f :: uint8) = mask 7" by (simp add: mask_eq_exp_minus_1)
    have "(128 :: uint8) = 2 ^ 7" "(128 :: uint64) = 2 ^ 7" by simp_all
    moreover have "bit (2 ^ 7 :: uint8) n \<longleftrightarrow> n = 7" "bit (2 ^ 7 :: uint64) n \<longleftrightarrow> n = 7"
      unfolding bit_exp_iff by auto
    ultimately have b: "bit (128 :: uint8) n \<longleftrightarrow> n = 7" "bit (128 :: uint64) n \<longleftrightarrow> n = 7" by metis+
    show "bit ((ucast v AND 0x7f) OR 0x80 :: uint8) n \<longleftrightarrow> bit (ucast (v OR 0x80) :: uint8) n"
      unfolding m unsigned_or_eq bit_or_iff bit_and_iff bit_mask_iff bit_ucast_iff b
      using \<open>n < LENGTH(8)\<close> by (auto simp: bit_ucast_iff)
  qed
  then show ?case using 1 by (simp add: write_varint.simps [of v] writeVarint.simps [of v])
qed

text \<open>Where the stream reader succeeds the iterator reader agrees; where the iterator reader stops
  on a final byte it has read a canonical integer.\<close>

lemma read_varint_loop_agrees:
  "readVarint_loop shift i bs = Inr (v, rest) \<Longrightarrow> length rest < length bs \<and>
   read_varint_loop shift rd i bs = (rd + int (length bs - length rest), v, rest)"
proof (induction bs arbitrary: shift rd i)
  case (Cons byte bs)
  let ?i = "i OR push_bit shift (ucast (byte AND 0x7f))"
  have guard: "64 \<le> shift + 7 \<longleftrightarrow> 64 - 7 \<le> shift" by linarith
  consider (last) "byte AND 0x80 = 0" | (more) "byte AND 0x80 \<noteq> 0" by blast
  then show ?case
  proof cases
    case last
    then show ?thesis using Cons.prems by (auto simp: Let_def guard split: if_splits)
  next
    case more
    then have "readVarint_loop (shift + 7) ?i bs = Inr (v, rest)"
      using Cons.prems by (auto simp: Let_def split: if_splits)
    from Cons.IH [OF this, of "rd + 1"] show ?thesis
      using Cons.prems more by (auto simp: Let_def guard split: if_splits)
  qed
qed simp

lemma read_varint_write_varint:
  "read_varint (write_varint v @ rest) = (int (length (write_varint v)), v, rest)"
  using read_varint_loop_agrees [of 0 0 "writeVarint v @ rest" v rest 0]
    readVarint_writeVarint [where 'a = 64, of v rest]
  by (simp add: read_varint_def write_varint_eq readVarint_def)

text \<open>What is read without an error is canonical, unless the input ended before a final byte.\<close>

lemma read_varint_loop_canonical:
  assumes "read_varint_loop shift rd i bs = (n, v, rest)" "0 \<le> rd" "0 < n"
  shows "rest = [] \<or> readVarint_loop shift i bs = Inr (v, rest)"
  using assms
proof (induction bs arbitrary: shift rd i)
  case (Cons byte bs)
  have guard: "64 \<le> shift + 7 \<longleftrightarrow> 64 - 7 \<le> shift" by linarith
  show ?case
  proof (cases "byte AND 0x80 = 0")
    case True
    then show ?thesis using Cons.prems by (auto simp: Let_def guard split: if_splits)
  next
    case False
    let ?i = "i OR push_bit shift (ucast (byte AND 0x7f))"
    have "read_varint_loop (shift + 7) (rd + 1) ?i bs = (n, v, rest)"
      using Cons.prems False by (auto simp: Let_def split: if_splits)
    from Cons.IH [OF this] show ?thesis
      using Cons.prems False by (auto simp: Let_def guard split: if_splits)
  qed
qed simp

lemma read_varint_loop_count:
  "read_varint_loop shift rd i bs = (n, v, rest) \<Longrightarrow> 0 \<le> rd \<Longrightarrow> 0 < n \<Longrightarrow>
   rd \<le> n \<and> rest = drop (nat (n - rd)) bs"
proof (induction bs arbitrary: shift rd i)
  case (Cons byte bs)
  show ?case
  proof (cases "byte AND 0x80 = 0")
    case True
    then show ?thesis using Cons.prems by (auto simp: Let_def split: if_splits)
  next
    case False
    let ?i = "i OR push_bit shift (ucast (byte AND 0x7f))"
    have "read_varint_loop (shift + 7) (rd + 1) ?i bs = (n, v, rest)"
      using Cons.prems False by (auto simp: Let_def split: if_splits)
    from Cons.IH [OF this] have le: "rd + 1 \<le> n" and rest: "rest = drop (nat (n - (rd + 1))) bs"
      using Cons.prems by auto
    have "nat (n - rd) = Suc (nat (n - (rd + 1)))" using le by linarith
    with le rest show ?thesis by simp
  qed
qed simp

lemma read_varint_count: "read_varint bs = (n, v, rest) \<Longrightarrow> 0 < n \<Longrightarrow> rest = drop (nat n) bs"
  using read_varint_loop_count [of 0 0 0 bs n v rest] by (simp add: read_varint_def)

lemma read_varint_canonical:
  assumes "read_varint bs = (n, v, rest)" "0 < n" "rest \<noteq> []"
  shows "bs = write_varint v @ rest"
  using read_varint_loop_canonical [of 0 0 0 bs n v rest] assms readVarint_canonical [where 'a = 64, of bs v rest]
  by (simp add: read_varint_def readVarint_def write_varint_eq)

end
