(* ===== verification/Base58.thy ===== *)
theory Base58
  imports IntUtil Varint CryptoTypes
begin

text \<open>
  \<^verbatim>\<open>src/Common/Base58.cpp\<close>: block-wise base 58 text and account addresses. Data are bytes, encoded
  text is a \<open>string\<close>. \<open>encode_block\<close> writes into the prefilled part of the result that belongs to its
  block; a write outside it would be \<open>None\<close>, and the round trip shows that there is none. A false
  return of the decoders is \<open>None\<close>. \<open>cn_fast_hash\<close> is a parameter.
\<close>

section \<open>Operations\<close>

definition alphabet :: string where
  "alphabet = ''123456789ABCDEFGHJKLMNPQRSTUVWXYZabcdefghijkmnopqrstuvwxyz''"

definition alphabet_size :: nat where
  "alphabet_size = length alphabet"

definition encoded_block_sizes :: "nat list" where
  "encoded_block_sizes = [0, 2, 3, 5, 6, 7, 9, 10, 11]"

definition full_block_size :: nat where
  "full_block_size = length encoded_block_sizes - 1"

definition full_encoded_block_size :: nat where
  "full_encoded_block_size = encoded_block_sizes ! full_block_size"

definition addr_checksum_size :: nat where
  "addr_checksum_size = 4"

definition reverse_alphabet_data :: "int list" where
  "reverse_alphabet_data = fold (\<lambda>i m. m[of_char (alphabet ! i) - of_char (alphabet ! 0) := int i])
     [0..<alphabet_size]
     (replicate (of_char (alphabet ! (alphabet_size - 1)) - of_char (alphabet ! 0) + 1) (- 1))"

definition reverse_alphabet :: "char \<Rightarrow> int" where
  "reverse_alphabet letter =
     (let idx = of_char letter - (of_char (alphabet ! 0) :: int)
      in if 0 \<le> idx \<and> idx < int (length reverse_alphabet_data) then reverse_alphabet_data ! nat idx else - 1)"

definition decoded_block_sizes_data :: "int list" where
  "decoded_block_sizes_data = fold (\<lambda>i m. m[encoded_block_sizes ! i := int i])
     [0..<full_block_size + 1] (replicate (encoded_block_sizes ! full_block_size + 1) (- 1))"

definition decoded_block_sizes :: "nat \<Rightarrow> int" where
  "decoded_block_sizes encoded_block_size = decoded_block_sizes_data ! encoded_block_size"

definition uint_8be_to_64 :: "bytes \<Rightarrow> uint64" where
  "uint_8be_to_64 data = foldl (\<lambda>res b. push_bit 8 res OR ucast b) 0 data"

definition uint_64_to_8be :: "uint64 \<Rightarrow> nat \<Rightarrow> bytes" where
  "uint_64_to_8be num n = drop (8 - n) (rev (pod_bytes 8 num))"

function encode_block_loop :: "uint64 \<Rightarrow> int \<Rightarrow> string \<Rightarrow> string option" where
  "encode_block_loop num i res =
     (if 0 < num then
        if i < 0 \<or> int (length res) \<le> i then None
        else encode_block_loop (num div of_nat alphabet_size) (i - 1)
               (res[nat i := alphabet ! unat (num mod of_nat alphabet_size)])
      else Some res)"
  by pat_completeness auto
termination
  by (relation "measure (\<lambda>(num, i, res). unat num)")
    (simp_all add: alphabet_size_def alphabet_def unat_div_eq word_gt_0 unat_gt_0)

definition encode_block :: "bytes \<Rightarrow> string option" where
  "encode_block block =
     (let num = uint_8be_to_64 block; n = encoded_block_sizes ! length block
      in encode_block_loop num (int n - 1) (replicate n (alphabet ! 0)))"

fun decode_block_loop :: "string \<Rightarrow> uint64 \<Rightarrow> uint64 \<Rightarrow> uint64 option" where
  "decode_block_loop [] res_num order = Some res_num"
| "decode_block_loop (c # cs) res_num order =
     (let digit = reverse_alphabet c in
      if digit < 0 then None
      else let (lo, product_hi) = mul128 order (of_int digit);
               tmp = res_num + lo
           in if tmp < res_num \<or> product_hi \<noteq> 0 then None
              else decode_block_loop cs tmp (order * of_nat alphabet_size))"

definition decode_block :: "string \<Rightarrow> bytes option" where
  "decode_block block =
     (let res_size = decoded_block_sizes (length block) in
      if res_size \<le> 0 then None
      else case decode_block_loop (rev block) 0 1 of
        None \<Rightarrow> None
      | Some res_num \<Rightarrow>
          if nat res_size < full_block_size \<and> push_bit (8 * nat res_size) 1 \<le> res_num then None
          else Some (uint_64_to_8be res_num (nat res_size)))"

fun encode_full_blocks :: "nat \<Rightarrow> bytes \<Rightarrow> string option" where
  "encode_full_blocks 0 data = Some []"
| "encode_full_blocks (Suc n) data =
     (case encode_block (take full_block_size data) of None \<Rightarrow> None
      | Some e \<Rightarrow> (case encode_full_blocks n (drop full_block_size data) of None \<Rightarrow> None
      | Some es \<Rightarrow> Some (e @ es)))"

definition encode :: "bytes \<Rightarrow> string option" where
  "encode data =
     (if data = [] then Some []
      else
        let full_block_count = length data div full_block_size;
            last_block_size = length data mod full_block_size
        in case encode_full_blocks full_block_count data of
             None \<Rightarrow> None
           | Some res \<Rightarrow>
               if 0 < last_block_size
               then map_option ((@) res) (encode_block (drop (full_block_count * full_block_size) data))
               else Some res)"

fun decode_full_blocks :: "nat \<Rightarrow> string \<Rightarrow> bytes option" where
  "decode_full_blocks 0 enc = Some []"
| "decode_full_blocks (Suc n) enc =
     (case decode_block (take full_encoded_block_size enc) of None \<Rightarrow> None
      | Some d \<Rightarrow> (case decode_full_blocks n (drop full_encoded_block_size enc) of None \<Rightarrow> None
      | Some ds \<Rightarrow> Some (d @ ds)))"

definition decode :: "string \<Rightarrow> bytes option" where
  "decode enc =
     (if enc = [] then Some []
      else
        let full_block_count = length enc div full_encoded_block_size;
            last_block_size = length enc mod full_encoded_block_size;
            last_block_decoded_size = decoded_block_sizes last_block_size
        in if last_block_decoded_size < 0 then None
           else case decode_full_blocks full_block_count enc of
             None \<Rightarrow> None
           | Some data \<Rightarrow>
               if 0 < last_block_size
               then map_option ((@) data) (decode_block (drop (full_block_count * full_encoded_block_size) enc))
               else Some data)"

definition encode_addr :: "(bytes \<Rightarrow> Hash) \<Rightarrow> uint64 \<Rightarrow> bytes \<Rightarrow> string option" where
  "encode_addr cn_fast_hash tag data =
     (let buf = get_varint_data tag @ data;
          hash = cn_fast_hash buf
      in encode (buf @ take addr_checksum_size (pod_bytes 32 hash)))"

definition decode_addr :: "(bytes \<Rightarrow> Hash) \<Rightarrow> string \<Rightarrow> (uint64 \<times> bytes) option" where
  "decode_addr cn_fast_hash addr =
     (case decode addr of None \<Rightarrow> None | Some addr_data \<Rightarrow>
        if length addr_data \<le> addr_checksum_size then None
        else
          let checksum = drop (length addr_data - addr_checksum_size) addr_data;
              addr_data = take (length addr_data - addr_checksum_size) addr_data;
              hash = cn_fast_hash addr_data;
              expected_checksum = take addr_checksum_size (pod_bytes 32 hash)
          in if expected_checksum \<noteq> checksum then None
             else
               let (rd, tag, rest) = read_varint addr_data
               in if rd \<le> 0 then None else Some (tag, drop (nat rd) addr_data))"

declare encode_block_loop.simps [simp del]

section \<open>The tables\<close>

lemma sizes [simp]:
  "alphabet_size = 58" "full_block_size = 8" "full_encoded_block_size = 11" "length alphabet = 58"
  by (simp_all add: alphabet_size_def alphabet_def full_block_size_def full_encoded_block_size_def
      encoded_block_sizes_def)

lemma decoded_block_sizes_eq:
  "n \<le> 11 \<Longrightarrow> decoded_block_sizes n = [0, -1, 1, 2, -1, 3, 4, 5, -1, 6, 7, 8] ! n"
  by (simp add: decoded_block_sizes_def decoded_block_sizes_data_def encoded_block_sizes_def
      upt_rec numeral_eq_Suc full_block_size_def)

lemma reverse_alphabet_data_eq:
  "reverse_alphabet_data = [0, 1, 2, 3, 4, 5, 6, 7, 8, - 1, - 1, - 1, - 1, - 1, - 1, - 1, 9, 10, 11, 12, 13, 14, 15, 16, - 1, 17, 18, 19, 20, 21, - 1, 22, 23, 24, 25, 26, 27, 28, 29, 30, 31, 32, - 1, - 1, - 1, - 1, - 1, - 1, 33, 34, 35, 36, 37, 38, 39, 40, 41, 42, 43, - 1, 44, 45, 46, 47, 48, 49, 50, 51, 52, 53, 54, 55, 56, 57]"
  by code_simp

lemma reverse_alphabet_entries:
  "list_all (\<lambda>i. reverse_alphabet_data ! i = - 1 \<or> (0 \<le> reverse_alphabet_data ! i \<and>
     reverse_alphabet_data ! i < 58 \<and> of_char (alphabet ! nat (reverse_alphabet_data ! i)) = i + 49)) [0..<74]"
  unfolding reverse_alphabet_data_eq by code_simp

lemma alphabet_entries:
  "list_all (\<lambda>k. let i = of_char (alphabet ! k) :: nat in
     49 \<le> i \<and> i < 123 \<and> reverse_alphabet_data ! (i - 49) = int k) [0..<58]"
  unfolding reverse_alphabet_data_eq by code_simp

lemma length_reverse_alphabet_data [simp]: "length reverse_alphabet_data = 74"
  by (simp add: reverse_alphabet_data_eq)

lemma of_char_alphabet_0 [simp]: "of_char (alphabet ! 0) = (49 :: int)"
  by (simp add: alphabet_def)

lemma reverse_alphabet_alphabet [simp]: "k < 58 \<Longrightarrow> reverse_alphabet (alphabet ! k) = int k"
proof -
  assume "k < 58"
  then have "k \<in> set [0..<58]" by simp
  then have "49 \<le> (of_char (alphabet ! k) :: nat) \<and> of_char (alphabet ! k) < (123 :: nat) \<and>
      reverse_alphabet_data ! (of_char (alphabet ! k) - 49) = int k"
    using alphabet_entries unfolding list_all_iff Let_def by blast
  moreover have "(of_char (alphabet ! k) :: int) = int (of_char (alphabet ! k))" by (rule of_nat_of_char [symmetric])
  ultimately show ?thesis by (simp add: reverse_alphabet_def Let_def nat_diff_distrib)
qed

lemma reverse_alphabet_cases:
  obtains "reverse_alphabet c = - 1" "c \<notin> set alphabet"
  | k where "k < 58" "reverse_alphabet c = int k" "c = alphabet ! k"
proof (cases "c \<in> set alphabet")
  case True
  then show ?thesis using that(2) by (auto simp: in_set_conv_nth)
next
  case False
  let ?n = "of_char c :: nat"
  have "reverse_alphabet c = - 1"
  proof (cases "49 \<le> ?n \<and> ?n < 123")
    case True
    then have "?n - 49 \<in> set [0..<74]" by auto
    then have e: "reverse_alphabet_data ! (?n - 49) = - 1 \<or>
        reverse_alphabet_data ! (?n - 49) < 58 \<and> 0 \<le> reverse_alphabet_data ! (?n - 49) \<and>
        of_char (alphabet ! nat (reverse_alphabet_data ! (?n - 49))) = ?n - 49 + 49"
      using reverse_alphabet_entries unfolding list_all_iff by blast
    have "alphabet ! nat (reverse_alphabet_data ! (?n - 49)) \<noteq> c" if "reverse_alphabet_data ! (?n - 49) < 58"
      using False that by (metis nth_mem sizes(4) nat_less_iff of_nat_numeral nat_eq_iff2 zero_less_numeral not_le)
    with e True have "reverse_alphabet_data ! (?n - 49) = - 1" by auto
    moreover have "reverse_alphabet c = reverse_alphabet_data ! (?n - 49)"
    proof -
      have "(of_char c :: int) = int ?n" by (rule of_nat_of_char [symmetric])
      then show ?thesis using True by (simp add: reverse_alphabet_def Let_def nat_diff_distrib)
    qed
    ultimately show ?thesis by simp
  next
    case False
    have "(of_char c :: int) = int ?n" by (rule of_nat_of_char [symmetric])
    with False show ?thesis by (auto simp: reverse_alphabet_def Let_def)
  qed
  then show ?thesis using that(1) False by blast
qed

section \<open>Blocks as numbers\<close>

lemma unat_uint_8be_to_64:
  "length data \<le> 8 \<Longrightarrow> unat (uint_8be_to_64 data) = be_val 256 (map unat data)"
proof (induction data rule: rev_induct)
  case (snoc b bs)
  let ?r = "uint_8be_to_64 bs"
  have "be_val 256 (map unat bs) < 256 ^ length (map unat bs)"
    by (rule be_val_less) (auto intro: unat_bound8 [simplified])
  also have "\<dots> \<le> 256 ^ 7" using snoc.prems by (intro power_increasing) auto
  finally have r: "unat ?r < 256 ^ 7" using snoc by simp
  have "uint_8be_to_64 (bs @ [b]) = ucast b OR push_bit 8 ?r"
    by (simp add: uint_8be_to_64_def or.commute)
  moreover have "unat (ucast b OR push_bit 8 ?r) = unat ?r * 2 ^ 8 + unat (ucast b :: uint64)"
    using r unat_bound8 [of b] by (intro unat_or_push_bit) (simp_all add: unat_ucast_up)
  ultimately show ?case using snoc by (simp add: unat_ucast_up)
qed (simp add: uint_8be_to_64_def)

lemma rev_pod_bytes: "n \<le> 8 \<Longrightarrow> rev (pod_bytes n num) = map of_nat (be_digits 256 n (unat num))"
  for num :: uint64
proof (induction n arbitrary: num)
  case (Suc n)
  have "(ucast num :: uint8) = of_nat (unat num mod 256)"
    by (rule word_unat_eq_iff [THEN iffD2]) (simp add: unat_ucast_mod unat_of_nat_small)
  then show ?case using Suc by (simp add: pod_bytes_Suc unat_drop_bit)
qed simp

lemma drop_be_digits: "m \<le> n \<Longrightarrow> drop (n - m) (be_digits b n v) = be_digits b m v"
proof (induction b n v arbitrary: m rule: be_digits.induct)
  case (2 b n v)
  show ?case
  proof (cases m)
    case (Suc k)
    then show ?thesis using 2 by simp
  qed simp
qed simp

lemma uint_64_to_8be_eq: "n \<le> 8 \<Longrightarrow> uint_64_to_8be num n = map of_nat (be_digits 256 n (unat num))"
  by (simp add: uint_64_to_8be_def rev_pod_bytes drop_map drop_be_digits)

definition digit :: "char \<Rightarrow> nat" where
  "digit c = nat (reverse_alphabet c)"

lemma be_digits_0 [simp]: "be_digits b n 0 = replicate n 0"
  by (induction n) (simp_all add: replicate_append_same)

lemma encode_block_loop_eq:
  "unat num < 58 ^ k \<Longrightarrow> encode_block_loop num (int k - 1) (replicate k (alphabet ! 0) @ suf) =
     Some (map ((!) alphabet) (be_digits 58 k (unat num)) @ suf)"
proof (induction k arbitrary: num suf)
  case 0
  then have "num = 0" by (simp add: unat_eq_0)
  then show ?case by (simp add: encode_block_loop.simps)
next
  case (Suc k)
  show ?case
  proof (cases "num = 0")
    case True
    then show ?thesis by (simp add: encode_block_loop.simps replicate_append_same)
  next
    case False
    let ?c = "alphabet ! unat (num mod 58)"
    have less: "unat (num div 58) < 58 ^ k"
      unfolding unat_div_eq using Suc.prems by (simp add: less_mult_imp_div_less mult.commute)
    have upd: "(replicate (Suc k) (alphabet ! 0) @ suf)[k := ?c] = replicate k (alphabet ! 0) @ ?c # suf"
    proof -
      have "replicate (Suc k) (alphabet ! 0) = replicate k (alphabet ! 0) @ [alphabet ! 0]"
        by (simp add: replicate_append_same)
      then show ?thesis by (simp add: list_update_append del: replicate.simps)
    qed
    have "encode_block_loop num (int (Suc k) - 1) (replicate (Suc k) (alphabet ! 0) @ suf) =
        encode_block_loop (num div 58) (int k - 1) (replicate k (alphabet ! 0) @ ?c # suf)"
      using False upd by (subst encode_block_loop.simps) (simp add: word_gt_0)
    with Suc.IH [OF less] show ?thesis by (simp add: unat_div_eq unat_mod_eq)
  qed
qed

lemma decode_block_loop_eq:
  "cs \<noteq> [] \<longrightarrow> unat order = 58 ^ j \<Longrightarrow> j + length cs \<le> 11 \<Longrightarrow>
   decode_block_loop cs res order =
    (if set cs \<subseteq> set alphabet \<and> unat res + 58 ^ j * be_val 58 (map digit (rev cs)) < 18446744073709551616
     then Some (of_nat (unat res + 58 ^ j * be_val 58 (map digit (rev cs)))) else None)"
proof (induction cs arbitrary: j res order)
  case Nil
  then show ?case using unat_bound64 [of res] by simp
next
  case (Cons c cs)
  have order: "unat order = 58 ^ j" using Cons.prems by simp
  show ?case
  proof (cases rule: reverse_alphabet_cases [of c])
    case 1
    then show ?thesis by simp
  next
    case (2 k)
    let ?V = "be_val 58 (map digit (rev cs))"
    obtain lo hi where m: "mul128 order (of_int (int k)) = (lo, hi)" by fastforce
    have "unat (of_int (int k) :: uint64) = k" using 2(1) by (simp add: unat_of_nat_small)
    then have p: "unat hi * 18446744073709551616 + unat lo = 58 ^ j * k"
      using mul128_exact [of order "of_int (int k)"] unfolding m order fst_conv snd_conv by metis
    have hi0: "hi = 0 \<longleftrightarrow> unat hi = 0" by (simp add: unat_eq_0)
    have step: "decode_block_loop (c # cs) res order =
        (if res + lo < res \<or> hi \<noteq> 0 then None else decode_block_loop cs (res + lo) (order * 58))"
      using 2 m by simp
    have d: "be_val 58 (map digit (rev (c # cs))) = ?V * 58 + k" using 2 by (simp add: digit_def)
    have split: "unat res + 58 ^ j * (?V * 58 + k) = (unat res + 58 ^ j * k) + 58 ^ Suc j * ?V"
      by (simp add: algebra_simps)
    show ?thesis
    proof (cases "unat res + 58 ^ j * k < 18446744073709551616")
      case True
      then have h: "unat hi = 0" using p by linarith
      then have "unat lo = 58 ^ j * k" using p by simp
      moreover from this have sum: "unat (res + lo) = unat res + 58 ^ j * k"
        using True by (subst unat_plus_exact) simp_all
      moreover have "\<not> res + lo < res" unfolding word_less_nat_alt sum by simp
      moreover have "cs \<noteq> [] \<longrightarrow> unat (order * 58) = 58 ^ Suc j"
      proof
        assume "cs \<noteq> []"
        then have "Suc j \<le> 10" using Cons.prems(2) by (cases cs) auto
        then have "(58::nat) ^ Suc j \<le> 58 ^ 10" by (rule power_increasing) simp
        then have "(58::nat) ^ Suc j < 18446744073709551616" by (rule le_less_trans) simp
        then show "unat (order * 58) = 58 ^ Suc j" unfolding unat_mult_mod order by (simp add: mult.commute)
      qed
      ultimately have "decode_block_loop (c # cs) res order =
          (if set cs \<subseteq> set alphabet \<and> unat (res + lo) + 58 ^ Suc j * ?V < 18446744073709551616
           then Some (of_nat (unat (res + lo) + 58 ^ Suc j * ?V)) else None)"
        unfolding step hi0 using h Cons.IH [of "order * 58" "Suc j" "res + lo"] Cons.prems(2) by simp
      then show ?thesis unfolding d split sum using 2 by (simp del: power_Suc)
    next
      case False
      have "res + lo < res \<or> hi \<noteq> 0"
      proof (rule ccontr)
        assume "\<not> (res + lo < res \<or> hi \<noteq> 0)"
        then have "unat lo = 58 ^ j * k" "\<not> 18446744073709551616 \<le> unat res + unat lo"
          using p plus_less_iff_overflow [of res lo] hi0 by simp_all
        with False show False by simp
      qed
      moreover have "\<not> unat res + 58 ^ j * (?V * 58 + k) < 18446744073709551616"
        using False unfolding split by linarith
      ultimately show ?thesis unfolding step d by simp
    qed
  qed
qed

section \<open>Blocks\<close>

text \<open>\<open>encode_block\<close> and \<open>decode_block\<close> change the base of one number between 256 and 58; the block
  sizes leave room for every value.\<close>

lemma be_val_unat_less: "be_val 256 (map unat (bs :: bytes)) < 256 ^ length bs"
proof -
  have "be_val 256 (map unat bs) < 256 ^ length (map unat bs)"
    by (rule be_val_less) (auto intro: unat_bound8 [simplified])
  then show ?thesis by simp
qed

lemma block_size_cases: "n \<le> 8 \<Longrightarrow> n \<in> {0, 1, 2, 3, 4, 5, 6, 7, 8}" for n :: nat
  by auto

lemma encoded_size_cases: "m \<le> 11 \<Longrightarrow> m \<in> {0, 1, 2, 3, 4, 5, 6, 7, 8, 9, 10, 11}" for m :: nat
  unfolding insert_iff empty_iff by presburger

lemma room: "1 \<le> n \<Longrightarrow> n \<le> 8 \<Longrightarrow> (256::nat) ^ n \<le> 58 ^ (encoded_block_sizes ! n)"
  by (drule block_size_cases) (auto simp: encoded_block_sizes_def)

lemma encode_block_eq:
  assumes "1 \<le> length block" "length block \<le> 8"
  shows "encode_block block = Some (map ((!) alphabet)
    (be_digits 58 (encoded_block_sizes ! length block) (be_val 256 (map unat block))))"
proof -
  let ?num = "uint_8be_to_64 block"
  have num: "unat ?num = be_val 256 (map unat block)" using assms by (simp add: unat_uint_8be_to_64)
  have "unat ?num < 58 ^ (encoded_block_sizes ! length block)"
    unfolding num using be_val_unat_less [of block] room [OF assms] by (rule less_le_trans)
  from encode_block_loop_eq [OF this, of "[]"] show ?thesis
    by (simp add: encode_block_def Let_def num)
qed

lemma decode_block_eq:
  assumes "1 \<le> length block" "length block \<le> 11"
  defines "n \<equiv> nat (decoded_block_sizes (length block))"
    and "v \<equiv> be_val 58 (map digit block)"
  shows "decode_block block =
    (if 0 < decoded_block_sizes (length block) \<and> set block \<subseteq> set alphabet \<and> v < 256 ^ n
     then Some (map of_nat (be_digits 256 n v)) else None)"
proof (cases "0 < decoded_block_sizes (length block)")
  case True
  have n8: "n \<le> 8"
  proof -
    have "decoded_block_sizes (length block) \<le> 8"
      using encoded_size_cases [OF assms(2)] by (auto simp: decoded_block_sizes_eq)
    then show ?thesis by (simp add: n_def)
  qed
  have loop: "decode_block_loop (rev block) 0 1 =
      (if set block \<subseteq> set alphabet \<and> v < 18446744073709551616 then Some (of_nat v) else None)"
    using decode_block_loop_eq [of "rev block" 1 0 0] assms(2) by (simp add: v_def)
  have pow: "(256::nat) ^ n \<le> 18446744073709551616"
    using power_increasing [OF n8, of "256::nat"] by simp
  have fits: "v < 256 ^ n \<longleftrightarrow>
      v < 18446744073709551616 \<and> \<not> (n < 8 \<and> push_bit (8 * n) 1 \<le> (of_nat v :: uint64))"
  proof (cases "v < 18446744073709551616 \<and> n < 8")
    case True
    have "8 * n < 64" using True by simp
    then have "(2::nat) ^ (8 * n) < 2 ^ 64" by (rule power_strict_increasing) simp
    then have "unat (push_bit (8 * n) 1 :: uint64) = 2 ^ (8 * n)"
      unfolding unat_push_bit by simp
    moreover have "(2::nat) ^ (8 * n) = 256 ^ n" by (simp add: power_mult)
    ultimately show ?thesis using True by (simp add: word_le_nat_alt unat_of_nat_small not_le)
  next
    case False
    have "n = 8" if "v < 18446744073709551616" using False n8 that by simp
    then show ?thesis using pow by fastforce
  qed
  show ?thesis
    using True fits n8 unfolding decode_block_def loop n_def [symmetric]
    by (auto simp: Let_def n_def [symmetric] uint_64_to_8be_eq unat_of_nat_small)
qed (simp add: decode_block_def)

lemma digit_alphabet [simp]: "k < 58 \<Longrightarrow> digit (alphabet ! k) = k"
  by (simp add: digit_def)

lemma digit_less: "c \<in> set alphabet \<Longrightarrow> digit c < 58 \<and> alphabet ! digit c = c"
  by (cases rule: reverse_alphabet_cases [of c]) auto

lemma unat_of_nat_digits: "map unat (map of_nat (be_digits 256 n v) :: bytes) = be_digits 256 n v"
  using be_digits_less [of 256 _ n v] by (auto simp: unat_of_nat_small intro!: map_idI)

lemma of_nat_unat_digits:
  "map of_nat (be_digits 256 (length d) (be_val 256 (map unat d))) = (d :: bytes)"
proof -
  have "be_digits 256 (length (map unat d)) (be_val 256 (map unat d)) = map unat d"
    by (rule be_digits_be_val) (auto intro: unat_bound8 [simplified])
  then show ?thesis by (simp add: comp_def)
qed

lemma block_sizes_inverse:
  "1 \<le> n \<Longrightarrow> n \<le> 8 \<Longrightarrow> encoded_block_sizes ! n \<le> 11 \<and> 1 \<le> encoded_block_sizes ! n \<and>
     decoded_block_sizes (encoded_block_sizes ! n) = int n"
  "m \<le> 11 \<Longrightarrow> 0 < decoded_block_sizes m \<Longrightarrow> decoded_block_sizes m \<le> 8 \<and>
     encoded_block_sizes ! nat (decoded_block_sizes m) = m"
proof -
  show "1 \<le> n \<Longrightarrow> n \<le> 8 \<Longrightarrow> encoded_block_sizes ! n \<le> 11 \<and> 1 \<le> encoded_block_sizes ! n \<and>
      decoded_block_sizes (encoded_block_sizes ! n) = int n"
    by (drule block_size_cases) (auto simp: encoded_block_sizes_def decoded_block_sizes_eq)
  show "m \<le> 11 \<Longrightarrow> 0 < decoded_block_sizes m \<Longrightarrow> decoded_block_sizes m \<le> 8 \<and>
      encoded_block_sizes ! nat (decoded_block_sizes m) = m"
    by (drule encoded_size_cases) (auto simp: encoded_block_sizes_def decoded_block_sizes_eq)
qed

lemma decode_encode_block:
  assumes n: "1 \<le> length d" "length d \<le> 8"
  shows "\<exists>s. encode_block d = Some s \<and> length s = encoded_block_sizes ! length d \<and> decode_block s = Some d"
proof -
  let ?m = "encoded_block_sizes ! length d" and ?v = "be_val 256 (map unat d)"
  define s where "s = map ((!) alphabet) (be_digits 58 ?m ?v)"
  have "?v < 58 ^ ?m" using be_val_unat_less [of d] room [OF n] by (rule less_le_trans)
  moreover have digits: "map digit s = be_digits 58 ?m ?v"
    unfolding s_def using be_digits_less [of 58] by (auto intro!: map_idI)
  ultimately have "be_val 58 (map digit s) = ?v" by (simp add: be_val_be_digits)
  moreover have "set s \<subseteq> set alphabet" unfolding s_def using be_digits_less [of 58] by auto
  moreover have "length s = ?m" "d \<noteq> []" using n by (auto simp: s_def)
  ultimately have "decode_block s = Some d"
    using decode_block_eq [of s] block_sizes_inverse(1) [OF n] be_val_unat_less [of d] n
    by (simp add: of_nat_unat_digits)
  moreover have "encode_block d = Some s" using encode_block_eq [OF n] by (simp add: s_def)
  ultimately show ?thesis by (auto simp: s_def)
qed

lemma encode_decode_block:
  assumes m: "1 \<le> length s" "length s \<le> 11" and dec: "decode_block s = Some d"
  shows "encode_block d = Some s \<and> int (length d) = decoded_block_sizes (length s) \<and> 1 \<le> length d \<and> length d \<le> 8"
proof -
  let ?n = "nat (decoded_block_sizes (length s))" and ?v = "be_val 58 (map digit s)"
  have c: "0 < decoded_block_sizes (length s)" "set s \<subseteq> set alphabet" "?v < 256 ^ ?n"
    and d: "d = map of_nat (be_digits 256 ?n ?v)"
    using dec unfolding decode_block_eq [OF m] by (auto split: if_splits)
  have n: "1 \<le> length d" "length d \<le> 8" "encoded_block_sizes ! length d = length s"
    using block_sizes_inverse(2) [OF m(2) c(1)] c(1) by (auto simp: d)
  have "be_val 256 (map unat d) = ?v"
    using c(3) unfolding d unat_of_nat_digits by (simp add: be_val_be_digits)
  moreover have "be_digits 58 (length (map digit s)) ?v = map digit s"
    by (rule be_digits_be_val) (use c(2) digit_less in auto)
  moreover have "map ((!) alphabet) (map digit s) = s"
    using c(2) digit_less by (auto intro!: map_idI)
  ultimately show ?thesis using encode_block_eq [OF n(1,2)] n c(1) by (simp add: d)
qed

section \<open>Whole strings\<close>

lemma encode_full_blocks_correct:
  "n * 8 \<le> length data \<Longrightarrow> \<exists>e. encode_full_blocks n data = Some e \<and> length e = n * 11 \<and>
     decode_full_blocks n (e @ rest) = Some (take (n * 8) data)"
proof (induction n arbitrary: data)
  case (Suc n)
  have "length (take 8 data) = 8" using Suc.prems by simp
  then obtain s where s: "encode_block (take 8 data) = Some s" "length s = 11" "decode_block s = Some (take 8 data)"
    using decode_encode_block [of "take 8 data"] by (auto simp: encoded_block_sizes_def)
  obtain e where e: "encode_full_blocks n (drop 8 data) = Some e" "length e = n * 11"
    "decode_full_blocks n (e @ rest) = Some (take (n * 8) (drop 8 data))"
    using Suc.IH [of "drop 8 data"] Suc.prems by (auto simp: le_diff_conv2)
  show ?case using s e by (simp add: take_add)
qed simp

lemma decode_full_blocks_correct:
  "n * 11 \<le> length enc \<Longrightarrow> decode_full_blocks n enc = Some data \<Longrightarrow>
   length data = n * 8 \<and> encode_full_blocks n (data @ rest) = Some (take (n * 11) enc)"
proof (induction n arbitrary: enc data)
  case (Suc n)
  have len: "length (take 11 enc) = 11" using Suc.prems by simp
  from Suc.prems(2) obtain d ds where d: "decode_block (take 11 enc) = Some d"
    "decode_full_blocks n (drop 11 enc) = Some ds" "data = d @ ds"
    by (auto split: option.splits)
  have e: "encode_block d = Some (take 11 enc)" "length d = 8"
    using encode_decode_block [OF _ _ d(1)] len decoded_block_sizes_eq [of 11] by simp_all
  have "length ds = n * 8 \<and> encode_full_blocks n (ds @ rest) = Some (take (n * 11) (drop 11 enc))"
    using Suc.IH [OF _ d(2)] Suc.prems(1) by simp
  then show ?case using d(3) e by (simp add: take_add)
qed simp

lemma sizes_mod:
  assumes "r < 8"
  shows "encoded_block_sizes ! r < 11 \<and> decoded_block_sizes (encoded_block_sizes ! r) = int r"
proof -
  have "r \<le> 8" "r \<noteq> 8" using assms by simp_all
  then show ?thesis using block_size_cases [of r] by (auto simp: encoded_block_sizes_def decoded_block_sizes_eq)
qed

lemma decode_encode:
  shows "\<exists>s. encode data = Some s \<and> decode s = Some data"
proof (cases "data = []")
  case False
  let ?n = "length data div 8" and ?r = "length data mod 8"
  define last where "last = drop (?n * 8) data"
  have split: "data = take (?n * 8) data @ last" "length last = ?r"
    by (simp_all add: last_def minus_div_mult_eq_mod)
  show ?thesis
  proof (cases "?r = 0")
    case True
    obtain e where "encode_full_blocks ?n data = Some e" "length e = ?n * 11"
      "decode_full_blocks ?n (e @ []) = Some (take (?n * 8) data)"
      using encode_full_blocks_correct [of ?n data "[]"] by auto
    moreover have "e \<noteq> []" using calculation False True by auto
    ultimately show ?thesis
      using False True split decoded_block_sizes_eq [of 0]
      by (intro exI [of _ e]) (simp add: encode_def decode_def Let_def)
  next
    case r: False
    obtain s where s: "encode_block last = Some s" "length s = encoded_block_sizes ! ?r" "decode_block s = Some last"
      using decode_encode_block [of last] r split(2) by auto
    obtain e where e: "encode_full_blocks ?n data = Some e" "length e = ?n * 11"
      "decode_full_blocks ?n (e @ s) = Some (take (?n * 8) data)"
      using encode_full_blocks_correct [of ?n data s] by auto
    have m: "encoded_block_sizes ! ?r < 11" "decoded_block_sizes (encoded_block_sizes ! ?r) = int ?r"
      using sizes_mod by auto
    have "0 < length s"
      using s(2) m(2) r by (cases "encoded_block_sizes ! ?r") (auto simp: decoded_block_sizes_eq)
    moreover from this have "s \<noteq> []" by simp
    moreover have "length (e @ s) div 11 = ?n" "length (e @ s) mod 11 = length s"
      using e(2) s(2) m(1) by simp_all
    moreover have "encode data = Some (e @ s)" using False r e s by (simp add: encode_def last_def Let_def)
    moreover have "decode (e @ s) = Some (take (?n * 8) data @ last)"
      unfolding decode_def using calculation e s m by (simp add: Let_def)
    ultimately show ?thesis using split by auto
  qed
qed (simp add: encode_def decode_def)

lemma encode_decode:
  assumes "decode enc = Some data"
  shows "encode data = Some enc"
proof (cases "enc = []")
  case True
  then show ?thesis using assms by (simp add: encode_def decode_def)
next
  case False
  let ?n = "length enc div 11" and ?r = "length enc mod 11"
  define last where "last = drop (?n * 11) enc"
  have split: "enc = take (?n * 11) enc @ last" "length last = ?r"
    by (simp_all add: last_def minus_div_mult_eq_mod)
  obtain d where d: "decode_full_blocks ?n enc = Some d"
    using assms False by (auto simp: decode_def Let_def split: if_splits option.splits)
  have n: "?n * 11 \<le> length enc" by simp
  show ?thesis
  proof (cases "?r = 0")
    case True
    then have "data = d" using assms False d by (simp add: decode_def Let_def split: if_splits)
    moreover have "0 < ?n"
      using False True div_mult_mod_eq [of "length enc" 11] by (metis add.right_neutral gr0I length_0_conv mult_0)
    ultimately show ?thesis
      using decode_full_blocks_correct [OF n d, of "[]"] split True
      by (auto simp: encode_def Let_def)
  next
    case r: False
    obtain t where t: "decode_block last = Some t" "data = d @ t"
      using assms False d r by (auto simp: decode_def Let_def last_def split: if_splits)
    have e: "encode_block t = Some last" "1 \<le> length t" "length t \<le> 8" "int (length t) = decoded_block_sizes ?r"
      using encode_decode_block [OF _ _ t(1)] split(2) r by simp_all
    have "length t \<noteq> 8"
      using block_sizes_inverse(2) [of ?r] e(4) mod_less_divisor [of 11 "length enc"]
      by (auto simp: encoded_block_sizes_def)
    then have "length t < 8" using e(3) by simp
    moreover have f: "length d = ?n * 8" "encode_full_blocks ?n (d @ t) = Some (take (?n * 11) enc)"
      using decode_full_blocks_correct [OF n d, of t] by simp_all
    ultimately have "length (d @ t) div 8 = ?n" "length (d @ t) mod 8 = length t" by simp_all
    then show ?thesis
      unfolding encode_def t(2) using f e split by (auto simp: Let_def)
  qed
qed

text \<open>C25: Base 58 text and bytes correspond one to one: encoding always succeeds within the result's
  bounds, and a string decodes to some bytes exactly when it is their encoding.\<close>

theorem base58_bijection:
  "(\<exists>enc. encode data = Some enc) \<and> (decode enc = Some data \<longleftrightarrow> encode data = Some enc)"
  using decode_encode [of data] encode_decode [of enc data] by force

lemma checksum_length: "length (take addr_checksum_size (pod_bytes 32 h)) = 4"
  by (simp add: addr_checksum_size_def)

lemma decode_addr_encode_addr:
  "\<exists>addr. encode_addr cn_fast_hash tag data = Some addr \<and> decode_addr cn_fast_hash addr = Some (tag, data)"
proof -
  let ?buf = "get_varint_data tag @ data"
  let ?sum = "take addr_checksum_size (pod_bytes 32 (cn_fast_hash ?buf))"
  obtain addr where addr: "encode (?buf @ ?sum) = Some addr" "decode addr = Some (?buf @ ?sum)"
    using decode_encode [of "?buf @ ?sum"] by blast
  have nonempty: "get_varint_data tag \<noteq> []"
    by (subst get_varint_data_def, subst write_varint.simps) simp
  have "read_varint ?buf = (int (length (get_varint_data tag)), tag, data)"
    using read_varint_write_varint by (simp add: get_varint_data_def)
  then have "decode_addr cn_fast_hash addr = Some (tag, data)"
    using addr(2) nonempty by (simp add: decode_addr_def checksum_length addr_checksum_size_def Let_def)
  then show ?thesis using addr(1) by (auto simp: encode_addr_def Let_def)
qed

lemma encode_addr_canonical:
  assumes "decode_addr cn_fast_hash addr = Some (tag, data)" "data \<noteq> []"
  shows "encode_addr cn_fast_hash tag data = Some addr"
proof -
  obtain raw where raw: "decode addr = Some raw" "\<not> length raw \<le> 4"
    using assms(1) by (auto simp: decode_addr_def addr_checksum_size_def split: option.splits if_splits)
  define buf where "buf = take (length raw - 4) raw"
  have sum: "take 4 (pod_bytes 32 (cn_fast_hash buf)) = drop (length raw - 4) raw"
    using assms(1) raw by (auto simp: decode_addr_def addr_checksum_size_def Let_def buf_def split: if_splits)
  obtain rd rest where rd: "read_varint buf = (rd, tag, rest)" "0 < rd" "data = drop (nat rd) buf"
    using assms(1) raw
    by (auto simp: decode_addr_def addr_checksum_size_def Let_def buf_def split: if_splits prod.splits)
  have "data = rest" using read_varint_count [OF rd(1,2)] rd(3) by simp
  then have "buf = write_varint tag @ data"
    using read_varint_canonical [OF rd(1,2)] assms(2) by simp
  then have "raw = (get_varint_data tag @ data) @ take 4 (pod_bytes 32 (cn_fast_hash (get_varint_data tag @ data)))"
    using sum by (metis append_take_drop_id buf_def get_varint_data_def)
  then show ?thesis
    using encode_decode [OF raw(1)] by (simp add: encode_addr_def addr_checksum_size_def Let_def)
qed

lemma encode_addr_decode_addr:
  "data \<noteq> [] \<Longrightarrow> decode_addr cn_fast_hash addr = Some (tag, data) \<longleftrightarrow>
     encode_addr cn_fast_hash tag data = Some addr"
proof
  assume "data \<noteq> []" "decode_addr cn_fast_hash addr = Some (tag, data)"
  then show "encode_addr cn_fast_hash tag data = Some addr" by (intro encode_addr_canonical)
next
  assume "encode_addr cn_fast_hash tag data = Some addr"
  then show "decode_addr cn_fast_hash addr = Some (tag, data)"
    using decode_addr_encode_addr [of cn_fast_hash tag data] by auto
qed

text \<open>Whatever the hash function, an address encodes and decodes to its tag and data, and a text
  decodes to a tag and non-empty data exactly when it is the encoding of them.\<close>

lemma address_bijection:
  "(\<exists>enc. encode_addr cn_fast_hash tag data = Some enc \<and> decode_addr cn_fast_hash enc = Some (tag, data)) \<and>
   (data \<noteq> [] \<longrightarrow> (decode_addr cn_fast_hash addr = Some (tag, data) \<longleftrightarrow>
      encode_addr cn_fast_hash tag data = Some addr))"
  using decode_addr_encode_addr encode_addr_decode_addr by simp

end
