(* ===== verification/BasicImpl.thy ===== *)
theory BasicImpl
  imports FormatUtils Base58
begin

text \<open>
  \<^verbatim>\<open>src/CryptoNoteCore/CryptoNoteBasicImpl.cpp\<close>: the size penalty on rewards and the text form of
  account addresses. A failed \<open>assert\<close> is \<open>None\<close>; the lemmas show where there is none.
\<close>

section \<open>Operations\<close>

definition getPenalizedAmount :: "uint64 \<Rightarrow> uint64 \<Rightarrow> uint64 \<Rightarrow> uint64 option" where
  "getPenalizedAmount amnt medianSize currentBlockSize =
     (if \<not> currentBlockSize \<le> 2 * medianSize then None
      else if \<not> medianSize \<le> 0xFFFFFFFF then None
      else if \<not> currentBlockSize \<le> 0xFFFFFFFF then None
      else if amnt = 0 then Some 0
      else if currentBlockSize \<le> medianSize then Some amnt
      else
        let (productLo, productHi) = mul128 amnt (currentBlockSize * (2 * medianSize - currentBlockSize));
            (_, hi1, lo1) = div128_32 productHi productLo (ucast medianSize);
            (_, penalizedAmountHi, penalizedAmountLo) = div128_32 hi1 lo1 (ucast medianSize)
        in if penalizedAmountHi \<noteq> 0 then None
           else if \<not> penalizedAmountLo < amnt then None
           else Some penalizedAmountLo)"

definition is_coinbase :: "'z TransactionPrefix_scheme \<Rightarrow> bool" where
  "is_coinbase tx = (case inputs tx of [BaseInput _] \<Rightarrow> True | _ \<Rightarrow> False)"

definition getAccountAddressAsStr :: "(bytes \<Rightarrow> Hash) \<Rightarrow> uint64 \<Rightarrow> AccountPublicAddress \<Rightarrow> string option" where
  "getAccountAddressAsStr cn_fast_hash prefix adr = (case toBinaryArray out_AccountPublicAddress adr of
     None \<Rightarrow> None | Some ba \<Rightarrow> encode_addr cn_fast_hash prefix ba)"

definition parseAccountAddressString ::
  "(bytes \<Rightarrow> Hash) \<Rightarrow> (PublicKey \<Rightarrow> bool) \<Rightarrow> string \<Rightarrow> (uint64 \<times> AccountPublicAddress) option" where
  "parseAccountAddressString cn_fast_hash check_key str =
     (case decode_addr cn_fast_hash str of None \<Rightarrow> None
      | Some (prefix, data) \<Rightarrow>
          (case fromBinaryArray in_AccountPublicAddress data of None \<Rightarrow> None
           | Some adr \<Rightarrow>
               if check_key (spendPublicKey adr) \<and> check_key (viewPublicKey adr) then Some (prefix, adr) else None))"

section \<open>The size penalty\<close>

lemma div_twice:
  assumes "mul128 a p = (lo, hi)" and "div128_32 hi lo m = (r1, hi1, lo1)" and "div128_32 hi1 lo1 m = (r2, hi2, lo2)"
    and "m \<noteq> 0"
  shows "unat hi2 * 18446744073709551616 + unat lo2 = unat a * unat p div (unat m * unat m)"
proof -
  define q1 q2 where "q1 = unat hi1 * 18446744073709551616 + unat lo1"
    and "q2 = unat hi2 * 18446744073709551616 + unat lo2"
  have p: "unat a * unat p = unat hi * 18446744073709551616 + unat lo"
    using mul128_exact [of a p] assms(1) by simp
  have "unat a * unat p = q1 * unat m + unat r1" "unat r1 < unat m"
    using div128_32_exact [OF assms(4,2)] unfolding p q1_def by metis+
  then have "unat a * unat p div unat m = q1" by simp
  moreover have "q1 = q2 * unat m + unat r2" "unat r2 < unat m"
    using div128_32_exact [OF assms(4,3)] unfolding q1_def q2_def by metis+
  then have "q1 div unat m = q2" by simp
  ultimately show ?thesis unfolding q2_def [symmetric] by (simp add: div_mult2_eq)
qed

lemma penalty_square: "m < c \<Longrightarrow> c \<le> 2 * m \<Longrightarrow> c * (2 * m - c) < m * m" for c m :: nat
proof -
  assume "m < c" "c \<le> 2 * m"
  then obtain d where "c = m + d" "0 < d" "d \<le> m" by (metis add_diff_inverse_nat le_add_diff_inverse
        less_imp_le mult_2 nat_add_left_cancel_le zero_less_diff not_less_iff_gr_or_eq)
  then show ?thesis by (simp add: algebra_simps)
qed

lemma getPenalizedAmount_exact:
  assumes "unat c \<le> 2 * unat m" "unat m < 4294967296" "unat c < 4294967296"
  shows "getPenalizedAmount a m c = Some (if c \<le> m then a
    else of_nat (unat a * (unat c * (2 * unat m - unat c)) div (unat m * unat m)))"
proof -
  have two: "unat (2 * m) = 2 * unat m" using assms(2) by (simp add: unat_mult_mod)
  have sub: "unat (2 * m - c) = 2 * unat m - unat c"
    unfolding unat_sub_mod two using assms(1) by simp
  have bounds: "c \<le> 2 * m" "m \<le> 0xFFFFFFFF" "c \<le> 0xFFFFFFFF"
    using assms by (simp_all add: word_le_nat_alt two)
  show ?thesis
  proof (cases "c \<le> m \<or> a = 0")
    case True
    then show ?thesis using bounds by (auto simp: getPenalizedAmount_def)
  next
    case False
    then have mc: "unat m < unat c" and "a \<noteq> 0" by (simp_all add: not_le word_less_nat_alt)
    define p where "p = c * (2 * m - c)"
    have "unat c * (2 * unat m - unat c) < unat m * unat m" using mc assms(1) by (rule penalty_square)
    moreover have "unat m * unat m \<le> 4294967295 * 4294967295" using assms(2) by (intro mult_le_mono) simp_all
    ultimately have "unat c * (2 * unat m - unat c) < 18446744073709551616" by linarith
    then have p: "unat p = unat c * (2 * unat m - unat c)" unfolding p_def unat_mult_mod sub by simp
    have um: "unat (ucast m :: uint32) = unat m" using assms(2) by (simp add: unat_ucast_mod)
    then have m0: "(ucast m :: uint32) \<noteq> 0" using mc assms(1) by (metis less_le_not_le mult_0_right unat_0 zero_le)
    obtain lo hi where mul: "mul128 a p = (lo, hi)" by fastforce
    obtain r1 hi1 lo1 where d1: "div128_32 hi lo (ucast m) = (r1, hi1, lo1)" using prod_cases3 by blast
    obtain r2 hi2 lo2 where d2: "div128_32 hi1 lo1 (ucast m) = (r2, hi2, lo2)" using prod_cases3 by blast
    define q where "q = unat a * unat p div (unat m * unat m)"
    have res: "unat hi2 * 18446744073709551616 + unat lo2 = q"
      using div_twice [OF mul d1 d2 m0] unfolding um q_def .
    have "unat a * unat p < unat a * (unat m * unat m)"
      unfolding p using penalty_square [OF mc assms(1)] \<open>a \<noteq> 0\<close> by (simp add: unat_gt_0)
    then have less: "q < unat a" unfolding q_def by (rule less_mult_imp_div_less)
    then have "unat hi2 = 0" using res unat_bound64 [of a] by linarith
    then have hi2: "hi2 = 0" and lo2: "unat lo2 = q" using res by (simp_all add: unat_eq_0)
    have "getPenalizedAmount a m c = Some lo2"
      unfolding getPenalizedAmount_def p_def [symmetric] mul prod.case d1 d2 Let_def
      using bounds False hi2 less lo2 by (simp add: word_less_nat_alt)
    moreover have "lo2 = of_nat q" using lo2 by auto
    ultimately show ?thesis using False unfolding q_def p by simp
  qed
qed

lemma penalized_le:
  assumes "unat c \<le> 2 * unat m" "m < c"
  shows "unat a * (unat c * (2 * unat m - unat c)) div (unat m * unat m) \<le> unat a"
proof -
  have "unat c * (2 * unat m - unat c) < unat m * unat m"
    using assms by (intro penalty_square) (simp_all add: word_less_nat_alt)
  then have "unat a * (unat c * (2 * unat m - unat c)) \<le> unat a * (unat m * unat m)"
    by (intro mult_left_mono) simp_all
  then show ?thesis by (metis div_le_mono div_by_0 le0 nonzero_mult_div_cancel_right)
qed

lemma penalized_amount:
  assumes "unat c \<le> 2 * unat m" "unat m < 2 ^ 32" "unat c < 2 ^ 32"
  shows "\<exists>r. getPenalizedAmount a m c = Some r \<and> unat r \<le> unat a \<and>
    unat r = (if c \<le> m then unat a else unat a * (unat c * (2 * unat m - unat c)) div (unat m * unat m))"
proof (cases "c \<le> m")
  case True
  then show ?thesis using getPenalizedAmount_exact [of c m a] assms by simp
next
  case False
  define q where "q = unat a * (unat c * (2 * unat m - unat c)) div (unat m * unat m)"
  have le: "q \<le> unat a" unfolding q_def using penalized_le [of c m a] assms(1) False by simp
  then have "q < 2 ^ LENGTH(64)" using le_less_trans [OF le unat_bound64] by simp
  then have "unat (of_nat q :: uint64) = q" by (rule unat_of_nat_small)
  moreover have "getPenalizedAmount a m c = Some (of_nat q)"
    using getPenalizedAmount_exact [of c m a] assms False unfolding q_def by simp
  ultimately show ?thesis using le False unfolding q_def [symmetric] by auto
qed

text \<open>C27: With sizes of at most 32 bits and a block of at most twice the median size the penalty
  never fails an assertion: up to the median size an amount is kept, above it the result is the amount
  times \<open>c (2 m - c) / m^2\<close> rounded down, which is never more than the amount.\<close>

theorem penalty_exact:
  assumes "unat c \<le> 2 * unat m" "unat m < 2 ^ 32" "unat c < 2 ^ 32"
  shows "\<exists>r. getPenalizedAmount a m c = Some r \<and> unat r \<le> unat a \<and>
    unat r = (if c \<le> m then unat a else unat a * (unat c * (2 * unat m - unat c)) div (unat m * unat m))"
  by (rule penalized_amount [OF assms])

theorem penalty_exact_witness:
  "\<exists>r. getPenalizedAmount 2000000 100000 150000 = Some r \<and> unat r \<le> 2000000 \<and> unat r = 1500000"
  using penalty_exact [of 150000 100000 2000000] by simp

section \<open>Addresses as text\<close>

lemma parse_via_data:
  assumes "\<And>data. fromBinaryArray in_AccountPublicAddress data = Some adr \<longleftrightarrow> data = ba"
    and "check_key (spendPublicKey adr)" "check_key (viewPublicKey adr)"
  shows "parseAccountAddressString cn_fast_hash check_key str = Some (prefix, adr) \<longleftrightarrow>
    decode_addr cn_fast_hash str = Some (prefix, ba)"
proof (cases "decode_addr cn_fast_hash str")
  case (Some pd)
  obtain p data where pd: "pd = (p, data)" by fastforce
  show ?thesis
    unfolding parseAccountAddressString_def Some pd option.case prod.case option.inject prod.inject
    using assms(1) [of data] assms(2,3) by (cases "fromBinaryArray in_AccountPublicAddress data") auto
qed (simp add: parseAccountAddressString_def)

lemma out_address_nonempty: "toBinaryArray out_AccountPublicAddress adr = Some ba \<Longrightarrow> ba \<noteq> []"
proof -
  assume "toBinaryArray out_AccountPublicAddress adr = Some ba"
  then have "length ba = 64"
    by (auto simp: toBinaryArray_iff out_AccountPublicAddress_def out_pod_def out_binary_def)
  then show "ba \<noteq> []" by auto
qed

text \<open>C28: The text of an account address with valid keys parses as the same prefix and address, and
  a text that parses is the text of what it parses as.\<close>

theorem account_address_roundtrip:
  assumes "check_key (spendPublicKey adr)" "check_key (viewPublicKey adr)"
  shows "parseAccountAddressString cn_fast_hash check_key str = Some (prefix, adr) \<longleftrightarrow>
    getAccountAddressAsStr cn_fast_hash prefix adr = Some str"
proof -
  obtain ba where ba: "toBinaryArray out_AccountPublicAddress adr = Some ba"
    using accaddr.enc_wf [of adr] by (auto simp: toBinaryArray_iff)
  then have "ba \<noteq> []" by (rule out_address_nonempty)
  have from_ba: "fromBinaryArray in_AccountPublicAddress data = Some adr \<longleftrightarrow> data = ba" for data
    using accaddr.from_iff_to [of data adr] ba by auto
  have "parseAccountAddressString cn_fast_hash check_key str = Some (prefix, adr) \<longleftrightarrow>
      decode_addr cn_fast_hash str = Some (prefix, ba)"
    by (rule parse_via_data) (use from_ba assms in auto)
  also have "\<dots> \<longleftrightarrow> encode_addr cn_fast_hash prefix ba = Some str"
    by (rule encode_addr_decode_addr [OF \<open>ba \<noteq> []\<close>])
  finally show ?thesis by (simp add: getAccountAddressAsStr_def ba)
qed

theorem account_address_roundtrip_witness:
  "\<exists>str. getAccountAddressAsStr (\<lambda>_. 1) 0xe6dc4e2 \<lparr>spendPublicKey = 3, viewPublicKey = 4\<rparr> = Some str \<and>
    parseAccountAddressString (\<lambda>_. 1) (\<lambda>_. True) str = Some (0xe6dc4e2, \<lparr>spendPublicKey = 3, viewPublicKey = 4\<rparr>)"
proof -
  let ?a = "\<lparr>spendPublicKey = 3, viewPublicKey = 4\<rparr>"
  obtain ba where ba: "toBinaryArray out_AccountPublicAddress ?a = Some ba"
    using accaddr.enc_wf [of ?a] unfolding toBinaryArray_iff by blast
  obtain str where "encode_addr (\<lambda>_. 1) 0xe6dc4e2 ba = Some str"
    using decode_addr_encode_addr by blast
  then have str: "getAccountAddressAsStr (\<lambda>_. 1) 0xe6dc4e2 ?a = Some str"
    unfolding getAccountAddressAsStr_def ba by simp
  have "parseAccountAddressString (\<lambda>_. 1) (\<lambda>_. True) str = Some (0xe6dc4e2, ?a)"
    unfolding account_address_roundtrip [OF TrueI TrueI] by (rule str)
  with str show ?thesis by blast
qed

end
