(* ===== verification/TreeHash.thy ===== *)
theory TreeHash
  imports CryptoTypes
begin

text \<open>
  \<^verbatim>\<open>src/crypto/tree-hash.c\<close>: the Merkle root over a block's transaction hashes, the branch of its
  first leaf and the check of a branch. Hashes are 256-bit words, \<open>cn_fast_hash\<close> on two adjacent ones
  is the parameter \<open>h\<close>. The arrays \<open>ints\<close> are lists updated in place as the loops do. A failed
  \<open>assert\<close> is \<open>None\<close>.
\<close>

section \<open>Operations\<close>

definition tree_hash_cnt :: "nat \<Rightarrow> nat" where
  "tree_hash_cnt count =
     (let cnt = fold (\<lambda>i c. c OR drop_bit i c) [1, 2, 4, 8, 16, 32] (of_nat (count - 1) :: uint64)
      in unat (cnt AND NOT (drop_bit 1 cnt)))"

text \<open>\<open>ints\<close> after its first filling: \<open>m\<close> hashes copied, the rest hashed in pairs.\<close>

definition first_level :: "(Hash \<Rightarrow> Hash \<Rightarrow> Hash) \<Rightarrow> Hash list \<Rightarrow> nat \<Rightarrow> nat \<Rightarrow> Hash list" where
  "first_level h hashes m n = take m hashes @ map (\<lambda>k. h (hashes ! (m + 2 * k)) (hashes ! (m + 2 * k + 1))) [0..<n - m]"

definition reduce_level :: "(Hash \<Rightarrow> Hash \<Rightarrow> Hash) \<Rightarrow> nat \<Rightarrow> nat \<Rightarrow> Hash list \<Rightarrow> Hash list" where
  "reduce_level h off n ints = fold (\<lambda>j a. a[j := h (a ! (2 * j + off)) (a ! (2 * j + off + 1))]) [0..<n] ints"

function tree_hash_loop :: "(Hash \<Rightarrow> Hash \<Rightarrow> Hash) \<Rightarrow> nat \<Rightarrow> Hash list \<Rightarrow> Hash list" where
  "tree_hash_loop h cnt ints =
     (if cnt > 2 then tree_hash_loop h (cnt div 2) (reduce_level h 0 (cnt div 2) ints) else ints)"
  by pat_completeness auto
termination by (relation "measure (\<lambda>(h, cnt, ints). cnt)") auto

definition tree_hash :: "(Hash \<Rightarrow> Hash \<Rightarrow> Hash) \<Rightarrow> Hash list \<Rightarrow> Hash option" where
  "tree_hash h hashes =
     (let count = length hashes in
      if count = 0 then None
      else if count = 1 then Some (hashes ! 0)
      else if count = 2 then Some (h (hashes ! 0) (hashes ! 1))
      else
        let cnt = tree_hash_cnt count; m = 2 * cnt - count in
        if m + 2 * (cnt - m) \<noteq> count then None
        else
          let ints = tree_hash_loop h cnt (first_level h hashes m cnt)
          in Some (h (ints ! 0) (ints ! 1)))"

definition tree_depth_step :: "nat \<Rightarrow> nat \<times> nat \<Rightarrow> nat \<times> nat" where
  "tree_depth_step i = (\<lambda>(count, depth).
     if drop_bit i count > 0 then (drop_bit i count, depth + i) else (count, depth))"

definition tree_depth :: "nat \<Rightarrow> nat" where
  "tree_depth count = snd (fold tree_depth_step [32, 16, 8, 4, 2, 1] (count, 0))"

definition tree_branch_step :: "nat \<Rightarrow> nat \<Rightarrow> nat \<times> nat \<Rightarrow> nat \<times> nat" where
  "tree_branch_step count i = (\<lambda>(cnt, depth).
     if push_bit i cnt \<le> count then (push_bit i cnt, depth + i) else (cnt, depth))"

definition tree_branch_cnt :: "nat \<Rightarrow> nat \<times> nat" where
  "tree_branch_cnt count = fold (tree_branch_step count) [32, 16, 8, 4, 2, 1] (1, 0)"

fun tree_branch_loop :: "(Hash \<Rightarrow> Hash \<Rightarrow> Hash) \<Rightarrow> nat \<Rightarrow> Hash list \<Rightarrow> Hash list \<Rightarrow> Hash list" where
  "tree_branch_loop h 0 ints branch = branch"
| "tree_branch_loop h (Suc depth) ints branch =
     tree_branch_loop h depth (reduce_level h 1 (2 ^ depth - 1) ints) (branch[depth := ints ! 0])"

definition tree_branch :: "(Hash \<Rightarrow> Hash \<Rightarrow> Hash) \<Rightarrow> Hash list \<Rightarrow> Hash list option" where
  "tree_branch h hashes =
     (let count = length hashes; (cnt, depth) = tree_branch_cnt count in
      if count = 0 then None
      else if cnt \<noteq> 2 ^ depth \<or> depth \<noteq> tree_depth count then None
      else
        let m = 2 * cnt - count in
        if m + 2 * (cnt - m) \<noteq> count then None
        else Some (tree_branch_loop h depth (tl (first_level h hashes m cnt)) (replicate depth 0)))"

text \<open>The check of a branch: \<open>acc\<close> is the leaf before the first turn and the hash of the buffer after it.\<close>

definition path_bit :: "bytes option \<Rightarrow> nat \<Rightarrow> bool" where
  "path_bit path depth = (case path of None \<Rightarrow> False | Some p \<Rightarrow> bit (p ! (depth div 8)) (depth mod 8))"

fun from_branch_loop :: "(Hash \<Rightarrow> Hash \<Rightarrow> Hash) \<Rightarrow> Hash list \<Rightarrow> nat \<Rightarrow> Hash \<Rightarrow> bytes option \<Rightarrow> Hash" where
  "from_branch_loop h branch 0 acc path = acc"
| "from_branch_loop h branch (Suc depth) acc path =
     from_branch_loop h branch depth
       (if path_bit path depth then h (branch ! depth) acc else h acc (branch ! depth)) path"

definition tree_hash_from_branch ::
  "(Hash \<Rightarrow> Hash \<Rightarrow> Hash) \<Rightarrow> Hash list \<Rightarrow> nat \<Rightarrow> Hash \<Rightarrow> bytes option \<Rightarrow> Hash" where
  "tree_hash_from_branch h branch depth leaf path = from_branch_loop h branch depth leaf path"

declare tree_hash_loop.simps [simp del]

section \<open>The reference tree\<close>

fun pairs :: "(Hash \<Rightarrow> Hash \<Rightarrow> Hash) \<Rightarrow> Hash list \<Rightarrow> Hash list" where
  "pairs h (a # b # xs) = h a b # pairs h xs"
| "pairs h xs = []"

fun merkle :: "(Hash \<Rightarrow> Hash \<Rightarrow> Hash) \<Rightarrow> nat \<Rightarrow> Hash list \<Rightarrow> Hash" where
  "merkle h 0 xs = xs ! 0"
| "merkle h (Suc d) xs = h (merkle h d (take (2 ^ d) xs)) (merkle h d (drop (2 ^ d) xs))"

lemma length_pairs [simp]: "length (pairs h xs) = length xs div 2"
  by (induction h xs rule: pairs.induct) auto

lemma pairs_nth: "2 * k + 1 < length xs \<Longrightarrow> pairs h xs ! k = h (xs ! (2 * k)) (xs ! (2 * k + 1))"
  by (induction h xs arbitrary: k rule: pairs.induct) (auto simp: nth_Cons split: nat.splits)

lemma pairs_take: "pairs h (take (2 * n) xs) = take n (pairs h xs)"
  by (induction h xs arbitrary: n rule: pairs.induct) (auto simp: take_Cons split: nat.splits)

lemma pairs_drop: "pairs h (drop (2 * n) xs) = drop n (pairs h xs)"
  by (induction h xs arbitrary: n rule: pairs.induct) (auto simp: drop_Cons split: nat.splits)

lemma merkle_pairs: "length xs = 2 ^ Suc d \<Longrightarrow> merkle h (Suc d) xs = merkle h d (pairs h xs)"
proof (induction d arbitrary: xs)
  case 0
  then obtain a b where "xs = [a, b]" by (auto simp: length_Suc_conv numeral_2_eq_2)
  then show ?case by simp
next
  case (Suc d)
  have "merkle h (Suc d) (take (2 ^ Suc d) xs) = merkle h d (take (2 ^ d) (pairs h xs))"
    using Suc.IH [of "take (2 ^ Suc d) xs"] Suc.prems pairs_take [of h "2 ^ d" xs] by simp
  moreover have "merkle h (Suc d) (drop (2 ^ Suc d) xs) = merkle h d (drop (2 ^ d) (pairs h xs))"
    using Suc.IH [of "drop (2 ^ Suc d) xs"] Suc.prems pairs_drop [of h "2 ^ d" xs] by simp
  ultimately show ?case by (simp only: merkle.simps)
qed

lemma merkle_take: "2 ^ d \<le> length xs \<Longrightarrow> merkle h d (take (2 ^ d) xs) = merkle h d xs"
proof (induction d arbitrary: xs)
  case (Suc d)
  have "merkle h d (drop (2 ^ d) (take (2 ^ Suc d) xs)) = merkle h d (drop (2 ^ d) xs)"
    using Suc.IH [of "drop (2 ^ d) xs"] Suc.prems by (simp add: drop_take)
  then show ?case by (simp add: min_def)
qed simp

section \<open>Levels in place\<close>

lemma reduce_level_correct:
  "length (reduce_level h off n ints) = length ints \<and>
   (\<forall>j < n. 2 * n + off \<le> length ints \<longrightarrow> reduce_level h off n ints ! j = h (ints ! (2 * j + off)) (ints ! (2 * j + off + 1))) \<and>
   (\<forall>j \<ge> n. reduce_level h off n ints ! j = ints ! j)"
  unfolding reduce_level_def
proof (induction n)
  case (Suc n)
  let ?a = "fold (\<lambda>j a. a[j := h (a ! (2 * j + off)) (a ! (2 * j + off + 1))]) [0..<n] ints"
  show ?case using Suc by (auto simp: nth_list_update less_Suc_eq)
qed simp

lemma reduce_level_pairs:
  assumes "2 * n \<le> length ints"
  shows "take n (reduce_level h 0 n ints) = pairs h (take (2 * n) ints)"
proof (rule nth_equalityI)
  show "length (take n (reduce_level h 0 n ints)) = length (pairs h (take (2 * n) ints))"
    using assms reduce_level_correct [of h 0 n ints] by simp
next
  fix j assume "j < length (take n (reduce_level h 0 n ints))"
  then have j: "j < n" by simp
  then show "take n (reduce_level h 0 n ints) ! j = pairs h (take (2 * n) ints) ! j"
    using assms reduce_level_correct [of h 0 n ints] pairs_nth [of j "take (2 * n) ints" h] by simp
qed

lemma tree_hash_loop_merkle:
  "2 ^ Suc d \<le> length ints \<Longrightarrow>
   h (tree_hash_loop h (2 ^ Suc d) ints ! 0) (tree_hash_loop h (2 ^ Suc d) ints ! 1) = merkle h (Suc d) ints"
proof (induction d arbitrary: ints)
  case 0
  then show ?case by (simp add: tree_hash_loop.simps)
next
  case (Suc d)
  let ?r = "reduce_level h 0 (2 ^ Suc d) ints"
  have len: "length ?r = length ints" using reduce_level_correct by blast
  have "(2::nat) < 2 ^ Suc (Suc d)" by (induction d) auto
  then have step: "tree_hash_loop h (2 ^ Suc (Suc d)) ints = tree_hash_loop h (2 ^ Suc d) ?r"
    by (subst tree_hash_loop.simps) simp
  have "merkle h (Suc (Suc d)) ints = merkle h (Suc (Suc d)) (take (2 ^ Suc (Suc d)) ints)"
    by (rule merkle_take [OF Suc.prems, symmetric])
  also have "\<dots> = merkle h (Suc d) (pairs h (take (2 ^ Suc (Suc d)) ints))"
    by (rule merkle_pairs) (use Suc.prems in simp)
  also have "\<dots> = merkle h (Suc d) (take (2 ^ Suc d) ?r)"
    using reduce_level_pairs [of "2 ^ Suc d" ints h] Suc.prems by simp
  also have "\<dots> = merkle h (Suc d) ?r"
    by (rule merkle_take) (use Suc.prems len in simp)
  finally show ?case unfolding step using Suc.IH [of ?r] Suc.prems len by simp
qed

lemma first_level_pairs:
  assumes "m \<le> length hashes" "length hashes - m = 2 * (n - m)" "m \<le> n"
  shows "first_level h hashes m n = take m hashes @ pairs h (drop m hashes)"
proof -
  have "map (\<lambda>k. h (hashes ! (m + 2 * k)) (hashes ! (m + 2 * k + 1))) [0..<n - m] = pairs h (drop m hashes)"
    by (rule nth_equalityI) (use assms in \<open>auto simp: pairs_nth\<close>)
  then show ?thesis by (simp add: first_level_def)
qed

lemma length_first_level: "m \<le> length hashes \<Longrightarrow> m \<le> n \<Longrightarrow> length (first_level h hashes m n) = n"
  by (simp add: first_level_def)

section \<open>Powers of two\<close>

lemma smear:
  "bit (fold (\<lambda>i c. c OR drop_bit i c) [1, 2, 4, 8, 16, 32] x) n \<longleftrightarrow> (\<exists>k < 64. bit (x :: uint64) (n + k))"
proof -
  have step: "bit (c OR drop_bit i c) n \<longleftrightarrow> (\<exists>k < 2 * i. bit x (n + k))"
    if "\<And>n. bit c n \<longleftrightarrow> (\<exists>k < i. bit x (n + k))" for c n i
  proof -
    have "bit (c OR drop_bit i c) n \<longleftrightarrow> (\<exists>k < i. bit x (n + k)) \<or> (\<exists>k < i. bit x (n + (i + k)))"
      by (simp add: bit_or_iff bit_drop_bit_eq that ac_simps)
    also have "\<dots> \<longleftrightarrow> (\<exists>k < 2 * i. bit x (n + k))"
    proof
      assume "\<exists>k < 2 * i. bit x (n + k)"
      then obtain k where k: "k < 2 * i" "bit x (n + k)" by blast
      show "(\<exists>k < i. bit x (n + k)) \<or> (\<exists>k < i. bit x (n + (i + k)))"
      proof (cases "k < i")
        case False
        then have "k - i < i" "bit x (n + (i + (k - i)))" using k by simp_all
        then show ?thesis by blast
      qed (use k in blast)
    next
      assume "(\<exists>k < i. bit x (n + k)) \<or> (\<exists>k < i. bit x (n + (i + k)))"
      then show "\<exists>k < 2 * i. bit x (n + k)"
        by (metis add_less_mono less_add_same_cancel1 mult_2 nat_add_left_cancel_less order_less_trans
            trans_less_add1)
    qed
    finally show ?thesis .
  qed
  define c1 c2 c3 c4 c5 where "c1 = x OR drop_bit 1 x" and "c2 = c1 OR drop_bit 2 c1"
    and "c3 = c2 OR drop_bit 4 c2" and "c4 = c3 OR drop_bit 8 c3" and "c5 = c4 OR drop_bit 16 c4"
  have "bit x n \<longleftrightarrow> (\<exists>k < 1. bit x (n + k))" for n by simp
  from step [OF this] have 1: "bit c1 n \<longleftrightarrow> (\<exists>k < 2. bit x (n + k))" for n by (simp add: c1_def)
  from step [OF 1] have 2: "bit c2 n \<longleftrightarrow> (\<exists>k < 4. bit x (n + k))" for n by (simp add: c2_def)
  from step [OF 2] have 3: "bit c3 n \<longleftrightarrow> (\<exists>k < 8. bit x (n + k))" for n by (simp add: c3_def)
  from step [OF 3] have 4: "bit c4 n \<longleftrightarrow> (\<exists>k < 16. bit x (n + k))" for n by (simp add: c4_def)
  from step [OF 4] have 5: "bit c5 n \<longleftrightarrow> (\<exists>k < 32. bit x (n + k))" for n by (simp add: c5_def)
  from step [OF 5, of n] show ?thesis
    by (simp add: c5_def c4_def c3_def c2_def c1_def)
qed

lemma bit_unat: "bit (x :: uint64) n \<longleftrightarrow> odd (unat x div 2 ^ n)"
proof -
  have "bit x n \<longleftrightarrow> bit (unat x) n" by (simp add: bit_unsigned_iff)
  also have "\<dots> \<longleftrightarrow> odd (unat x div 2 ^ n)" by (rule bit_iff_odd)
  finally show ?thesis .
qed

lemma power_between: "0 < n \<Longrightarrow> \<exists>b. 2 ^ b \<le> n \<and> n < 2 ^ Suc b" for n :: nat
proof (induction n rule: less_induct)
  case (less n)
  show ?case
  proof (cases "n = 1")
    case False
    then obtain b where "2 ^ b \<le> n div 2" "n div 2 < 2 ^ Suc b"
      using less.IH [of "n div 2"] less.prems by auto
    then have "2 ^ Suc b \<le> n \<and> n < 2 ^ Suc (Suc b)" by auto
    then show ?thesis by blast
  qed (auto intro: exI [of _ 0])
qed

lemma tree_hash_cnt_eq:
  assumes "2 ^ b < count" "count \<le> 2 ^ Suc b" "count \<le> 2 ^ 64"
  shows "tree_hash_cnt count = 2 ^ b"
proof -
  define x :: uint64 where "x = of_nat (count - 1)"
  have x: "unat x = count - 1" unfolding x_def using assms(1,3) by (intro unat_of_nat_small) simp
  define s where "s = fold (\<lambda>i c. c OR drop_bit i c) [1, 2, 4, 8, 16, 32] x"
  have "(2::nat) ^ b < 2 ^ 64" using assms(1,3) by (rule less_le_trans)
  then have b: "b < 64" by (rule power_less_imp_less_exp [rotated]) simp
  have "unat x div 2 ^ b = 1" using assms(1,2) unfolding x by (intro div_nat_eqI) simp_all
  then have top: "bit x b" by (simp add: bit_unat)
  have above: "\<not> bit x n" if "b < n" for n
  proof -
    have "(2::nat) ^ Suc b \<le> 2 ^ n" using that by (intro power_increasing) simp_all
    then have "unat x div 2 ^ n = 0" using assms(1,2) unfolding x by (intro div_less) linarith
    then show ?thesis by (simp add: bit_unat)
  qed
  have "s AND NOT (drop_bit 1 s) = 2 ^ b"
  proof (rule bit_word_eqI)
    fix n assume "n < LENGTH(64)"
    have sn: "bit s n \<longleftrightarrow> n \<le> b" for n
    proof
      assume "bit s n"
      then show "n \<le> b" using above unfolding s_def smear by (metis le_add1 not_less order_trans)
    next
      assume "n \<le> b"
      then have "bit x (n + (b - n))" "b - n < 64" using top b by simp_all
      then show "bit s n" unfolding s_def smear by blast
    qed
    show "bit (s AND NOT (drop_bit 1 s)) n \<longleftrightarrow> bit (2 ^ b :: uint64) n"
      using \<open>n < LENGTH(64)\<close> by (auto simp: bit_and_iff bit_not_iff bit_drop_bit_eq sn bit_exp_iff)
  qed
  then have "tree_hash_cnt count = unat (2 ^ b :: uint64)"
    unfolding tree_hash_cnt_def Let_def x_def [symmetric] s_def [symmetric] by simp
  also have "\<dots> = 2 ^ b" 
  proof -
    have "(2 ^ b :: uint64) = of_nat (2 ^ b)" by simp
    then show ?thesis using unat_of_nat_small [of "2 ^ b", where 'a = 64] \<open>(2::nat) ^ b < 2 ^ 64\<close> by simp
  qed
  finally show ?thesis .
qed

text \<open>Both binary searches for the depth keep an interval that halves in the exponent.\<close>

lemma fold_halving:
  assumes step: "\<And>i s. P (2 * i) s \<Longrightarrow> P i (f i s)" and "P 64 s"
  shows "P (1 :: nat) (fold f [32, 16, 8, 4, 2, 1] s)"
proof -
  have "P 32 (f 32 s)" using step [of 32 s] assms(2) by simp
  then have "P 16 (f 16 (f 32 s))" using step [of 16 "f 32 s"] by simp
  then have "P 8 (f 8 (f 16 (f 32 s)))" using step [of 8 "f 16 (f 32 s)"] by simp
  then have "P 4 (f 4 (f 8 (f 16 (f 32 s))))" using step [of 4 "f 8 (f 16 (f 32 s))"] by simp
  then have "P 2 (f 2 (f 4 (f 8 (f 16 (f 32 s)))))" using step [of 2 "f 4 (f 8 (f 16 (f 32 s)))"] by simp
  then show ?thesis using step [of 1 "f 2 (f 4 (f 8 (f 16 (f 32 s))))"] by simp
qed

definition depth_inv :: "nat \<Rightarrow> nat \<Rightarrow> nat \<times> nat \<Rightarrow> bool" where
  "depth_inv count i = (\<lambda>(c, depth). count div 2 ^ depth = c \<and> 0 < c \<and> c < 2 ^ i)"

lemma depth_inv_step: "depth_inv count (2 * i) s \<Longrightarrow> depth_inv count i (tree_depth_step i s)"
proof -
  assume inv: "depth_inv count (2 * i) s"
  obtain c depth where s: "s = (c, depth)" by fastforce
  have c: "count div 2 ^ depth = c" "0 < c" "c < 2 ^ i * 2 ^ i"
    using inv by (simp_all add: depth_inv_def s mult_2 power_add)
  have "count div 2 ^ (depth + i) = c div 2 ^ i" using c(1) by (simp add: power_add div_mult2_eq)
  moreover have "c div 2 ^ i < 2 ^ i" using c(3) by (rule less_mult_imp_div_less)
  moreover have "c < 2 ^ i" if "c div 2 ^ i = 0" using that by (simp add: div_eq_0_iff)
  ultimately show ?thesis using c by (auto simp: s depth_inv_def tree_depth_step_def drop_bit_eq_div)
qed

definition branch_inv :: "nat \<Rightarrow> nat \<Rightarrow> nat \<times> nat \<Rightarrow> bool" where
  "branch_inv count i = (\<lambda>(c, depth). c = 2 ^ depth \<and> c \<le> count \<and> count < c * 2 ^ i)"

lemma branch_inv_step: "branch_inv count (2 * i) s \<Longrightarrow> branch_inv count i (tree_branch_step count i s)"
  by (cases s) (auto simp: branch_inv_def tree_branch_step_def push_bit_eq_mult mult_2 power_add mult.assoc)

lemma power_interval_unique:
  "2 ^ a \<le> n \<Longrightarrow> n < 2 ^ Suc a \<Longrightarrow> 2 ^ b \<le> n \<Longrightarrow> n < 2 ^ Suc b \<Longrightarrow> a = b" for n :: nat
proof (rule ccontr)
  assume n: "2 ^ a \<le> n" "n < 2 ^ Suc a" "2 ^ b \<le> n" "n < 2 ^ Suc b" and "a \<noteq> b"
  then consider "Suc a \<le> b" | "Suc b \<le> a" by linarith
  then show False
  proof cases
    case 1
    then have "(2::nat) ^ Suc a \<le> 2 ^ b" by (rule power_increasing) simp
    with n show False by linarith
  next
    case 2
    then have "(2::nat) ^ Suc b \<le> 2 ^ a" by (rule power_increasing) simp
    with n show False by linarith
  qed
qed

lemma tree_depth_eq:
  assumes "2 ^ d \<le> count" "count < 2 ^ Suc d" "count < 2 ^ 64"
  shows "tree_depth count = d"
proof -
  have "0 < count" using assms(1) by (metis less_le_trans zero_less_numeral zero_less_power)
  then have "depth_inv count 64 (count, 0)" using assms(3) by (simp add: depth_inv_def)
  from fold_halving [where P = "depth_inv count" and f = tree_depth_step, OF depth_inv_step this]
  have "count div 2 ^ tree_depth count = 1"
    by (auto simp: depth_inv_def tree_depth_def split: prod.splits)
  then have "count = 2 ^ tree_depth count + count mod 2 ^ tree_depth count"
    using div_mult_mod_eq [of count "2 ^ tree_depth count"] by simp
  moreover have "count mod 2 ^ tree_depth count < 2 ^ tree_depth count" by simp
  ultimately have "2 ^ tree_depth count \<le> count" "count < 2 ^ Suc (tree_depth count)"
    unfolding power_Suc by linarith+
  then show ?thesis by (rule power_interval_unique) (use assms in simp_all)
qed

lemma tree_branch_cnt_eq:
  assumes "2 ^ d \<le> count" "count < 2 ^ Suc d" "count < 2 ^ 64"
  shows "tree_branch_cnt count = (2 ^ d, d)"
proof -
  have "0 < count" using assms(1) by (metis less_le_trans zero_less_numeral zero_less_power)
  then have "branch_inv count 64 (1, 0)" using assms(3) by (simp add: branch_inv_def)
  from fold_halving [where P = "branch_inv count" and f = "tree_branch_step count", OF branch_inv_step this]
  obtain e where "tree_branch_cnt count = (2 ^ e, e)" "2 ^ e \<le> count" "count < 2 ^ Suc e"
    by (auto simp: branch_inv_def tree_branch_cnt_def split: prod.splits)
  moreover from this(2,3) have "e = d" by (rule power_interval_unique) (use assms in simp_all)
  ultimately show ?thesis by simp
qed

section \<open>The root and the branch of the first leaf\<close>

definition tree_level :: "(Hash \<Rightarrow> Hash \<Rightarrow> Hash) \<Rightarrow> nat \<Rightarrow> Hash list \<Rightarrow> Hash list" where
  "tree_level h d hashes =
     take (2 ^ Suc d - length hashes) hashes @ pairs h (drop (2 ^ Suc d - length hashes) hashes)"

text \<open>The number of leaves fits in the \<open>size_t\<close> of the code.\<close>

definition tree_shape :: "nat \<Rightarrow> Hash list \<Rightarrow> bool" where
  "tree_shape d hashes \<longleftrightarrow> 2 ^ d \<le> length hashes \<and> length hashes < 2 ^ Suc d \<and> length hashes < 2 ^ 64"

lemma tree_shape_exists: "hashes \<noteq> [] \<Longrightarrow> length hashes < 2 ^ 64 \<Longrightarrow> \<exists>d. tree_shape d hashes"
  using power_between [of "length hashes"] by (auto simp: tree_shape_def)

lemma first_level_tree_level:
  assumes "tree_shape d hashes"
  shows "first_level h hashes (2 * 2 ^ d - length hashes) (2 ^ d) = tree_level h d hashes"
  using assms unfolding tree_level_def tree_shape_def power_Suc by (intro first_level_pairs) auto

lemma length_tree_level:
  assumes "tree_shape d hashes"
  shows "length (tree_level h d hashes) = 2 ^ d"
proof -
  have "2 * 2 ^ d - length hashes \<le> 2 ^ d" using assms unfolding tree_shape_def by linarith
  moreover from this assms have "2 * 2 ^ d - length hashes \<le> length hashes" unfolding tree_shape_def by linarith
  ultimately show ?thesis
    using length_first_level [of "2 * 2 ^ d - length hashes" hashes "2 ^ d" h] first_level_tree_level [OF assms, of h] by simp
qed

lemma tree_hash_merkle:
  assumes shape: "tree_shape d hashes"
  shows "tree_hash h hashes = Some (merkle h d (tree_level h d hashes))"
proof -
  let ?n = "length hashes"
  have n: "2 ^ d \<le> ?n" "?n < 2 * 2 ^ d" "?n < 2 ^ 64" using shape by (simp_all add: tree_shape_def)
  show ?thesis
  proof (cases d)
    case 0
    then have "length hashes = 1" using n by simp
    then show ?thesis using 0 by (auto simp: tree_hash_def tree_level_def)
  next
    case (Suc e)
    show ?thesis
    proof (cases "?n = 2 ^ d")
      case True
      then have level: "tree_level h d hashes = hashes" by (simp add: tree_level_def)
      show ?thesis
      proof (cases e)
        case 0
        then obtain a b where "hashes = [a, b]" using True Suc by (auto simp: length_Suc_conv numeral_2_eq_2)
        then show ?thesis unfolding level by (simp add: tree_hash_def Suc 0)
      next
        case (Suc f)
        have len: "?n = 2 ^ Suc e" using True \<open>d = Suc e\<close> by simp
        have big: "4 \<le> ?n" using len Suc by (induction f) auto
        have "tree_hash_cnt ?n = 2 ^ e" using len n(3) by (intro tree_hash_cnt_eq) auto
        moreover have "first_level h hashes (2 * 2 ^ e - ?n) (2 ^ e) = pairs h hashes"
          using first_level_pairs [of 0 hashes "2 ^ e" h] len by simp
        ultimately have "tree_hash h hashes =
            Some (h (tree_hash_loop h (2 ^ e) (pairs h hashes) ! 0) (tree_hash_loop h (2 ^ e) (pairs h hashes) ! 1))"
          using big len by (auto simp: tree_hash_def Let_def)
        also have "\<dots> = Some (merkle h e (pairs h hashes))"
          using tree_hash_loop_merkle [of f "pairs h hashes" h] len Suc by simp
        also have "\<dots> = Some (merkle h d hashes)"
          using merkle_pairs [OF len, of h] \<open>d = Suc e\<close> by simp
        finally show ?thesis unfolding level .
      qed
    next
      case False
      then have lt: "2 ^ d < ?n" using n(1) by simp
      moreover have "(2::nat) \<le> 2 ^ d" using Suc by simp
      ultimately have big: "3 \<le> ?n" by linarith
      have "tree_hash_cnt ?n = 2 ^ d" using lt n by (intro tree_hash_cnt_eq) auto
      then have "tree_hash h hashes = Some (h (tree_hash_loop h (2 ^ d) (tree_level h d hashes) ! 0)
          (tree_hash_loop h (2 ^ d) (tree_level h d hashes) ! 1))"
        using big n first_level_tree_level [OF shape, of h] by (auto simp: tree_hash_def Let_def)
      then show ?thesis
        using tree_hash_loop_merkle [of e "tree_level h d hashes" h] length_tree_level [OF shape, of h] Suc by simp
    qed
  qed
qed

lemma tree_branch_loop_keeps:
  "d \<le> k \<Longrightarrow> tree_branch_loop h d ints branch ! k = branch ! k"
  by (induction d arbitrary: ints branch) auto

lemma from_branch_merkle:
  "length L = 2 ^ d \<Longrightarrow> 2 ^ d - 1 \<le> length ints \<Longrightarrow> take (2 ^ d - 1) ints = tl L \<Longrightarrow> d \<le> length branch \<Longrightarrow>
   from_branch_loop h (tree_branch_loop h d ints branch) d (L ! 0) None = merkle h d L"
proof (induction d arbitrary: L ints branch)
  case (Suc d)
  let ?r = "reduce_level h 1 (2 ^ d - 1) ints" and ?b = "branch[d := ints ! 0]"
  have nth: "ints ! j = L ! Suc j" if "Suc j < 2 ^ Suc d" for j
    using arg_cong [OF Suc.prems(3), of "\<lambda>xs. xs ! j"] that Suc.prems(1) by (simp add: nth_tl)
  have pos: "1 < (2::nat) ^ Suc d" by (rule one_less_power) simp_all
  have red: "length ?r = length ints"
    "j < 2 ^ d - 1 \<Longrightarrow> ?r ! j = h (ints ! (2 * j + 1)) (ints ! (2 * j + 2))" for j
    using reduce_level_correct [of h 1 "2 ^ d - 1" ints] Suc.prems(2) by simp_all
  have "take (2 ^ d - 1) ?r = tl (pairs h L)"
  proof (rule nth_equalityI)
    fix j assume "j < length (take (2 ^ d - 1) ?r)"
    then have j: "j < 2 ^ d - 1" by simp
    then have "ints ! (2 * j + 1) = L ! (2 * Suc j)" "ints ! (2 * j + 2) = L ! (2 * Suc j + 1)"
      using nth [of "2 * j + 1"] nth [of "2 * j + 2"] by simp_all
    moreover have "pairs h L ! Suc j = h (L ! (2 * Suc j)) (L ! (2 * Suc j + 1))"
      using j Suc.prems(1) by (intro pairs_nth) simp
    ultimately show "take (2 ^ d - 1) ?r ! j = tl (pairs h L) ! j"
      using red(2) [OF j] j Suc.prems(1) by (simp add: nth_tl)
  qed (use red(1) Suc.prems(1,2) in simp)
  then have IH: "from_branch_loop h (tree_branch_loop h d ?r ?b) d (pairs h L ! 0) None = merkle h d (pairs h L)"
    using Suc.prems red(1) by (intro Suc.IH) simp_all
  have "tree_branch_loop h (Suc d) ints branch ! d = L ! 1"
    using tree_branch_loop_keeps [of d d h ?r ?b] nth [of 0] pos Suc.prems(4) by simp
  moreover have "pairs h L ! 0 = h (L ! 0) (L ! 1)" using pos Suc.prems(1) pairs_nth [of 0 L h] by simp
  ultimately show ?case
    using IH merkle_pairs [OF Suc.prems(1), of h] by (simp add: path_bit_def)
qed simp

text \<open>C15: The iterative Merkle root over in-place arrays equals the recursive tree: for \<open>n\<close> leaves with
  \<open>2^d \<le> n < 2^(d+1)\<close> it is the root of the complete tree of depth \<open>d\<close> over the first \<open>2^(d+1) - n\<close> leaves
  and the pairwise hashes of the others, so it depends on nothing else.\<close>

theorem tree_hash_is_merkle_root:
  assumes "hashes \<noteq> []" "length hashes < 2 ^ 64"
  shows "\<exists>d. 2 ^ d \<le> length hashes \<and> length hashes < 2 ^ Suc d \<and> length (tree_level h d hashes) = 2 ^ d \<and>
    tree_hash h hashes = Some (merkle h d (tree_level h d hashes))"
  using tree_shape_exists [OF assms] tree_hash_merkle length_tree_level by (auto simp: tree_shape_def)

theorem tree_hash_is_merkle_root_witness:
  "\<exists>d. 2 ^ d \<le> length [7, 8, 9 :: Hash] \<and> length [7, 8, 9 :: Hash] < 2 ^ Suc d \<and>
    length (tree_level (\<lambda>a b. a + 2 * b) d [7, 8, 9]) = 2 ^ d \<and>
    tree_hash (\<lambda>a b. a + 2 * b) [7, 8, 9] = Some (merkle (\<lambda>a b. a + 2 * b) d (tree_level (\<lambda>a b. a + 2 * b) d [7, 8, 9]))"
  by (rule tree_hash_is_merkle_root) simp_all

text \<open>C29: A branch proves the first leaf: for every non-empty list the branch is computed without a
  failing assertion, has as many entries as the tree is deep, and hashing the first leaf up along it
  gives the root.\<close>

theorem tree_branch_proves_leaf:
  assumes "hashes \<noteq> []" "length hashes < 2 ^ 64"
  shows "\<exists>branch. tree_branch h hashes = Some branch \<and> length branch = tree_depth (length hashes) \<and>
    Some (tree_hash_from_branch h branch (tree_depth (length hashes)) (hashes ! 0) None) = tree_hash h hashes"
proof -
  obtain d where shape: "tree_shape d hashes" using tree_shape_exists [OF assms] by blast
  then have n: "2 ^ d \<le> length hashes" "length hashes < 2 ^ Suc d" by (simp_all add: tree_shape_def)
  have cnt: "tree_branch_cnt (length hashes) = (2 ^ d, d)" "tree_depth (length hashes) = d"
    using tree_branch_cnt_eq [OF n assms(2)] tree_depth_eq [OF n assms(2)] .
  let ?L = "tree_level h d hashes"
  let ?b = "tree_branch_loop h d (tl ?L) (replicate d 0)"
  have "tree_branch h hashes = Some ?b \<and> length ?b = d"
  proof -
    have "length (tree_branch_loop h e ints branch) = length branch" for e ints branch
      by (induction e arbitrary: ints branch) auto
    then show ?thesis
      using assms(1) n first_level_tree_level [OF shape, of h] by (simp add: tree_branch_def cnt Let_def)
  qed
  moreover have "tree_hash_from_branch h ?b d (hashes ! 0) None = merkle h d ?L"
  proof -
    have "hashes ! 0 = ?L ! 0" using n assms(1) by (simp add: tree_level_def nth_append)
    then show ?thesis
      using from_branch_merkle [of ?L d "tl ?L" "replicate d 0" h] length_tree_level [OF shape, of h]
      unfolding tree_hash_from_branch_def by (simp only: length_tl length_replicate) simp
  qed
  ultimately show ?thesis using cnt(2) tree_hash_merkle [OF shape] by metis
qed

theorem tree_branch_proves_leaf_witness:
  "\<exists>branch. tree_branch (\<lambda>a b. a + 2 * b) [7, 8, 9 :: Hash] = Some branch \<and> length branch = tree_depth 3 \<and>
    Some (tree_hash_from_branch (\<lambda>a b. a + 2 * b) branch (tree_depth 3) 7 None) = tree_hash (\<lambda>a b. a + 2 * b) [7, 8, 9]"
proof -
  have "length [7, 8, 9 :: Hash] = 3" "[7, 8, 9] ! 0 = (7 :: Hash)" by simp_all
  moreover have "[7, 8, 9 :: Hash] \<noteq> []" "(3::nat) < 2 ^ 64" by simp_all
  ultimately show ?thesis using tree_branch_proves_leaf [of "[7, 8, 9]" "\<lambda>a b. a + 2 * b"] by (simp only: not_False_eq_True if_True simp_thms)
qed

end
