(* ===== verification/StringTools.thy ===== *)
theory StringTools
  imports CryptoTypes
begin

text \<open>
  \<^verbatim>\<open>src/Common/StringTools.cpp\<close> and \<^verbatim>\<open>StringTools.h\<close>: hexadecimal text, splitting and the decimal
  conversions of the standard library that the sources call (\<open>std::to_string\<close> and stream extraction
  of a \<open>uint64_t\<close>). The overloads of \<open>fromHex\<close> differ in where they put the bytes and in whether they
  throw or return false; a failure of either kind is \<open>None\<close>.
\<close>

section \<open>Hexadecimal text\<close>

definition characterValues :: "uint8 list" where
  "characterValues = replicate 48 0xff @ [0x00, 0x01, 0x02, 0x03, 0x04, 0x05, 0x06, 0x07, 0x08, 0x09] @
     replicate 7 0xff @ [0x0a, 0x0b, 0x0c, 0x0d, 0x0e, 0x0f] @
     replicate 26 0xff @ [0x0a, 0x0b, 0x0c, 0x0d, 0x0e, 0x0f] @ replicate 153 0xff"

definition fromHex_char :: "char \<Rightarrow> uint8 option" where
  "fromHex_char c = (let v = characterValues ! of_char c in if v > 0x0f then None else Some v)"

fun fromHex_loop :: "string \<Rightarrow> bytes \<Rightarrow> bytes option" where
  "fromHex_loop (c1 # c2 # text) data = (case fromHex_char c1 of None \<Rightarrow> None | Some value1 \<Rightarrow>
     (case fromHex_char c2 of None \<Rightarrow> None | Some value2 \<Rightarrow>
       fromHex_loop text (data @ [push_bit 4 value1 OR value2])))"
| "fromHex_loop text data = Some data"

text \<open>\<open>fromHex(text, data)\<close> appends to \<open>data\<close>; \<open>fromHex(text, buffer, bufferSize, size)\<close> fills a buffer.\<close>

definition fromHex :: "string \<Rightarrow> bytes \<Rightarrow> bytes option" where
  "fromHex text data = (if length text mod 2 \<noteq> 0 then None else fromHex_loop text data)"

definition fromHex_buffer :: "string \<Rightarrow> nat \<Rightarrow> bytes option" where
  "fromHex_buffer text bufferSize =
     (if length text mod 2 \<noteq> 0 then None
      else if length text div 2 > bufferSize then None
      else fromHex_loop text [])"

definition podFromHex :: "string \<Rightarrow> 'a::len word option" where
  "podFromHex text = (case fromHex_buffer text (LENGTH('a) div 8) of
     None \<Rightarrow> None
   | Some b \<Rightarrow> if length b = LENGTH('a) div 8 then Some (pod_of_bytes b) else None)"

definition hex_digits :: string where
  "hex_digits = ''0123456789abcdef''"

definition toHex :: "bytes \<Rightarrow> string" where
  "toHex data = concat (map (\<lambda>b. [hex_digits ! unat (drop_bit 4 b), hex_digits ! unat (b AND 15)]) data)"

definition podToHex :: "'a::len word \<Rightarrow> string" where
  "podToHex s = toHex (pod_bytes (LENGTH('a) div 8) s)"

section \<open>Splitting\<close>

text \<open>\<open>extract(text, delimiter)\<close> returns the part before the first delimiter and what it leaves in
  \<open>text\<close>; \<open>extract(text, delimiter, offset)\<close> returns its result and the new \<open>offset\<close>.\<close>

definition extract_text :: "string \<Rightarrow> char \<Rightarrow> string \<times> string" where
  "extract_text text delimiter =
     (if delimiter \<in> set text
      then (takeWhile (\<lambda>c. c \<noteq> delimiter) text, tl (dropWhile (\<lambda>c. c \<noteq> delimiter) text))
      else (text, []))"

definition extract_offset :: "string \<Rightarrow> char \<Rightarrow> nat \<Rightarrow> string \<times> nat" where
  "extract_offset text delimiter offset =
     (if delimiter \<in> set (drop offset text)
      then let delimiterPosition = offset + length (takeWhile (\<lambda>c. c \<noteq> delimiter) (drop offset text));
               offset' = delimiterPosition + 1
           in (take delimiterPosition (drop offset' text), offset')
      else (drop (length text) text, length text))"

section \<open>Decimal text\<close>

definition digit_char :: "nat \<Rightarrow> char" where
  "digit_char d = char_of (48 + d)"

definition isdigit :: "char \<Rightarrow> bool" where
  "isdigit c \<longleftrightarrow> 48 \<le> (of_char c :: nat) \<and> of_char c \<le> (57 :: nat)"

definition char_digit :: "char \<Rightarrow> nat" where
  "char_digit c = of_char c - 48"

definition isspace :: "char \<Rightarrow> bool" where
  "isspace c \<longleftrightarrow> of_char c = (32 :: nat) \<or> 9 \<le> (of_char c :: nat) \<and> of_char c \<le> (13 :: nat)"

fun to_string :: "nat \<Rightarrow> string" where
  "to_string n = (if n < 10 then [digit_char n] else to_string (n div 10) @ [digit_char (n mod 10)])"

declare to_string.simps [simp del]

definition decimal_value :: "string \<Rightarrow> nat" where
  "decimal_value ds = foldl (\<lambda>v c. v * 10 + char_digit c) 0 ds"

text \<open>\<open>stream >> value\<close> for a \<open>uint64_t\<close>: white space and a sign are skipped, then the longest run of
  digits is read; no digits or a value out of range set the fail bit. A minus sign negates the value
  modulo \<open>2^64\<close>.\<close>

definition fromString_uint64 :: "string \<Rightarrow> uint64 option" where
  "fromString_uint64 text =
     (let t = dropWhile isspace text;
          neg = (t \<noteq> [] \<and> hd t = CHR ''-'');
          u = (if t \<noteq> [] \<and> (hd t = CHR ''-'' \<or> hd t = CHR ''+'') then tl t else t);
          ds = takeWhile isdigit u
      in if ds = [] \<or> decimal_value ds \<ge> 2 ^ 64 then None
         else Some (if neg then - of_nat (decimal_value ds) else of_nat (decimal_value ds)))"

definition ipAddressToString :: "uint32 \<Rightarrow> string" where
  "ipAddressToString ip =
     to_string (unat (ip AND 0xFF)) @ ''.'' @ to_string (unat (drop_bit 8 ip AND 0xFF)) @ ''.'' @
     to_string (unat (drop_bit 16 ip AND 0xFF)) @ ''.'' @ to_string (unat (drop_bit 24 ip AND 0xFF))"

definition timeIntervalToString :: "uint64 \<Rightarrow> string" where
  "timeIntervalToString intervalInSeconds =
     (let days = intervalInSeconds div (60 * 60 * 24);
          tail1 = intervalInSeconds mod (60 * 60 * 24);
          hours = tail1 div (60 * 60);
          tail2 = tail1 mod (60 * 60);
          minutes = tail2 div 60;
          seconds = tail2 mod 60
      in ''d'' @ to_string (unat days) @ ''.h'' @ to_string (unat hours) @
         ''.m'' @ to_string (unat minutes) @ ''.s'' @ to_string (unat seconds))"

section \<open>Hexadecimal round trips\<close>

lemma length_characterValues [simp]: "length characterValues = 256"
  by (simp add: characterValues_def)

definition lower :: "char \<Rightarrow> char" where
  "lower c = (if 65 \<le> (of_char c :: nat) \<and> of_char c \<le> (90 :: nat) then char_of (of_char c + 32 :: nat) else c)"

lemma characterValues_nth:
  assumes "n < 256"
  shows "characterValues ! n =
    (if 48 \<le> n \<and> n \<le> 57 then of_nat (n - 48)
     else if 65 \<le> n \<and> n \<le> 70 then of_nat (n - 55)
     else if 97 \<le> n \<and> n \<le> 102 then of_nat (n - 87) else 0xff)"
proof -
  define D H :: "uint8 list" where "D = [0x00, 0x01, 0x02, 0x03, 0x04, 0x05, 0x06, 0x07, 0x08, 0x09]"
    and "H = [0x0a, 0x0b, 0x0c, 0x0d, 0x0e, 0x0f]"
  have len: "length D = 10" "length H = 6" by (simp_all add: D_def H_def)
  have d: "D ! k = of_nat k" if "k < 10" for k
    using that unfolding D_def by (simp add: less_Suc_eq numeral_eq_Suc) auto
  have h: "H ! k = of_nat (k + 10)" if "k < 6" for k
    using that unfolding H_def by (simp add: less_Suc_eq numeral_eq_Suc) auto
  show ?thesis
    using assms unfolding characterValues_def D_def [symmetric] H_def [symmetric]
    by (auto simp: nth_append len d h)
qed

lemma unat_characterValues_nth:
  "n < 256 \<Longrightarrow> unat (characterValues ! n) =
    (if 48 \<le> n \<and> n \<le> 57 then n - 48 else if 65 \<le> n \<and> n \<le> 70 then n - 55
     else if 97 \<le> n \<and> n \<le> 102 then n - 87 else 255)"
  by (simp add: characterValues_nth unat_of_nat_small del: of_nat_diff)

lemma hex_digits_nth: "k < 16 \<Longrightarrow> of_char (hex_digits ! k) = (if k < 10 then 48 + k else 87 + k)"
  unfolding hex_digits_def by (simp add: less_Suc_eq numeral_eq_Suc) auto

lemma fromHex_char_iff:
  "fromHex_char c = Some v \<longleftrightarrow> unat v < 16 \<and> hex_digits ! unat v = lower c"
proof -
  let ?n = "of_char c :: nat"
  have n: "?n < 256" by simp
  have low: "(of_char (lower c) :: nat) = (if 65 \<le> ?n \<and> ?n \<le> 90 then ?n + 32 else ?n)"
    by (simp add: lower_def)
  have eq: "hex_digits ! unat v = lower c \<longleftrightarrow>
      (if unat v < 10 then 48 + unat v else 87 + unat v) = (of_char (lower c) :: nat)" if "unat v < 16"
    using hex_digits_nth [OF that] by (metis of_char_eq_iff)
  have "fromHex_char c = Some v \<longleftrightarrow> v \<le> 0x0f \<and> characterValues ! ?n = v"
    by (auto simp: fromHex_char_def Let_def not_less)
  also have "\<dots> \<longleftrightarrow> unat v < 16 \<and> unat (characterValues ! ?n) = unat v"
    by (auto simp: word_le_nat_alt word_unat_eq_iff)
  also have "\<dots> \<longleftrightarrow> unat v < 16 \<and> hex_digits ! unat v = lower c"
    using eq unfolding unat_characterValues_nth [OF n] low
    by (cases "unat v < 16") (auto split: if_splits)
  finally show ?thesis .
qed

lemma nibble_or:
  fixes a b :: uint8
  assumes "unat a < 16" "unat b < 16"
  shows "drop_bit 4 (push_bit 4 a OR b) = a" "(push_bit 4 a OR b) AND 15 = b"
proof -
  have or: "unat (push_bit 4 a OR b) = unat a * 16 + unat b"
    using unat_or_push_bit [of b 4 a] assms by (simp add: or.commute)
  show "drop_bit 4 (push_bit 4 a OR b) = a"
    unfolding word_unat_eq_iff unat_drop_bit or using assms by simp
  have "unat ((push_bit 4 a OR b) AND mask 4) = unat b"
    unfolding take_bit_eq_mask [symmetric] unat_take_bit or using assms by simp
  then show "(push_bit 4 a OR b) AND 15 = b"
    by (simp add: word_unat_eq_iff mask_eq_exp_minus_1)
qed

lemma unat_nibble:
  fixes b :: uint8
  shows "unat (drop_bit 4 b) < 16" "unat (b AND 15) < 16"
    and nibble_join: "push_bit 4 (drop_bit 4 b) OR (b AND 15) = b"
proof -
  have m: "(15 :: uint8) = mask 4" by (simp add: mask_eq_exp_minus_1)
  show "unat (drop_bit 4 b) < 16" 
    unfolding unat_drop_bit by (rule less_mult_imp_div_less) (use unat_bound8 [of b] in simp)
  show "unat (b AND 15) < 16" unfolding m take_bit_eq_mask [symmetric] by (simp add: unat_take_bit)
  show "push_bit 4 (drop_bit 4 b) OR (b AND 15) = b"
    unfolding m by (rule bit_word_eqI) (auto simp: bit_simps)
qed

lemma length_toHex [simp]: "length (toHex bs) = 2 * length bs"
  by (induction bs) (simp_all add: toHex_def)

lemma fromHex_loop_toHex: "fromHex_loop (toHex bs) data = Some (data @ bs)"
proof (induction bs arbitrary: data)
  case (Cons b bs)
  have "fromHex_char (hex_digits ! k) = Some (of_nat k)" if "k < 16" for k
    using that hex_digits_nth [OF that]
    by (simp add: fromHex_char_iff unat_of_nat_small lower_def)
  note nibble = this
  have "fromHex_loop (toHex (b # bs)) data = fromHex_loop (toHex bs) (data @ [b])"
    using unat_nibble [of b] by (simp add: toHex_def nibble nibble_join)
  then show ?case by (simp add: Cons.IH)
qed (simp add: toHex_def)

lemma fromHex_loop_canonical:
  "fromHex_loop str data = Some r \<Longrightarrow> even (length str) \<Longrightarrow>
   \<exists>bs. r = data @ bs \<and> toHex bs = map lower str"
proof (induction str data rule: fromHex_loop.induct)
  case (1 c1 c2 str data)
  then obtain v1 v2 where v: "fromHex_char c1 = Some v1" "fromHex_char c2 = Some v2"
    and rest: "fromHex_loop str (data @ [push_bit 4 v1 OR v2]) = Some r"
    by (auto split: option.splits)
  from "1.IH" [OF v rest] "1.prems"(2) obtain bs
    where "r = data @ (push_bit 4 v1 OR v2) # bs" "toHex bs = map lower str" by auto
  moreover have "toHex ((push_bit 4 v1 OR v2) # bs) = [lower c1, lower c2] @ toHex bs"
    using v unfolding toHex_def fromHex_char_iff by (simp only: nibble_or list.map concat.simps append.simps)
  ultimately show ?case by auto
qed (auto simp: toHex_def)

text \<open>Hexadecimal text and bytes correspond: printed bytes are read back (appended to the vector
  they are read into), and text that is read at all is, up to the case of its letters, the text
  printed for the bytes it was read as.\<close>

lemma hex_roundtrip:
  "fromHex (toHex bs) data = Some (data @ bs) \<and>
   (fromHex str [] = Some bs \<longleftrightarrow> toHex bs = map lower str)"
proof -
  have there: "fromHex (toHex bs) data = Some (data @ bs)" for bs data
    by (simp add: fromHex_def fromHex_loop_toHex)
  have case_free: "fromHex_char (lower c) = fromHex_char c" for c
  proof -
    have "lower (lower c) = lower c" by (auto simp: lower_def)
    then show ?thesis by (metis fromHex_char_iff option.exhaust)
  qed
  have "fromHex_loop (map lower str) data = fromHex_loop str data" for data
    by (induction str data rule: fromHex_loop.induct) (auto simp: case_free split: option.splits)
  then have "fromHex (map lower str) [] = fromHex str []" by (simp add: fromHex_def)
  moreover have "fromHex str [] = Some bs \<Longrightarrow> toHex bs = map lower str"
    using fromHex_loop_canonical [of str "[]" bs] by (auto simp: fromHex_def split: if_splits)
  ultimately show ?thesis using there by (metis append_Nil)
qed

text \<open>A key or hash printed as hexadecimal text is read back unchanged, for any plain data type.\<close>

lemma podHex_roundtrip:
  "podFromHex (podToHex (h :: 256 word)) = Some h \<and> podFromHex (podToHex (s :: 512 word)) = Some s"
  by (simp add: podFromHex_def podToHex_def fromHex_buffer_def fromHex_loop_toHex pod_of_bytes_full)

section \<open>Decimal round trips\<close>

lemma of_char_digit [simp]: "d < 10 \<Longrightarrow> (of_char (digit_char d) :: nat) = 48 + d"
  by (simp add: digit_char_def)

lemma isdigit_digit_char [simp]: "d < 10 \<Longrightarrow> isdigit (digit_char d)"
  by (simp add: isdigit_def)

lemma char_digit_digit_char [simp]: "d < 10 \<Longrightarrow> char_digit (digit_char d) = d"
  by (simp add: char_digit_def)

lemma decimal_value_snoc: "decimal_value (ds @ [c]) = decimal_value ds * 10 + char_digit c"
  by (simp add: decimal_value_def)

lemma decimal_value_append:
  "decimal_value (xs @ ys) = decimal_value xs * 10 ^ length ys + decimal_value ys"
proof (induction ys rule: rev_induct)
  case (snoc y ys)
  have "decimal_value (xs @ ys @ [y]) = decimal_value (xs @ ys) * 10 + char_digit y"
    using decimal_value_snoc [of "xs @ ys" y] by simp
  then show ?case by (simp add: decimal_value_snoc snoc.IH add_mult_distrib)
qed (simp add: decimal_value_def)

lemma decimal_value_to_string [simp]: "decimal_value (to_string n) = n"
proof (induction n rule: to_string.induct)
  case (1 n)
  show ?case
  proof (cases "n < 10")
    case True
    then show ?thesis by (simp add: to_string.simps decimal_value_def)
  next
    case False
    then show ?thesis using 1 by (subst to_string.simps) (simp add: decimal_value_snoc)
  qed
qed

lemma to_string_digits: "list_all isdigit (to_string n) \<and> to_string n \<noteq> []"
proof (induction n rule: to_string.induct)
  case (1 n)
  then show ?case by (subst (1 2) to_string.simps) simp
qed

lemma decimal_value_zeros [simp]: "decimal_value (replicate k CHR ''0'') = 0"
  by (induction k) (simp_all add: decimal_value_snoc replicate_append_same [symmetric]
      char_digit_def decimal_value_def)

end
