(* ===== verification/BlockHashing.thy ===== *)
theory BlockHashing
  imports CryptoNoteTools Varint TreeHash StringTools
begin

text \<open>
  The hashing functions of \<^verbatim>\<open>src/CryptoNoteCore/CryptoNoteFormatUtils.cpp\<close>: the Merkle root of a
  block's transactions, the blob a block is hashed from, its hash and its proof-of-work hash.
  \<open>cn_fast_hash\<close> (a function of the bytes) and the slow hashes are parameters; an out-parameter
  that a failing function leaves untouched is an option.
\<close>

section \<open>Operations\<close>

text \<open>\<open>cn_fast_hash\<close> on the memory of two adjacent hashes.\<close>

definition hash_pair :: "(bytes \<Rightarrow> Hash) \<Rightarrow> Hash \<Rightarrow> Hash \<Rightarrow> Hash" where
  "hash_pair cn_fast_hash a b = cn_fast_hash (pod_bytes 32 a @ pod_bytes 32 b)"

definition get_tx_tree_hash :: "(bytes \<Rightarrow> Hash) \<Rightarrow> Hash list \<Rightarrow> Hash option" where
  "get_tx_tree_hash cn_fast_hash tx_hashes = tree_hash (hash_pair cn_fast_hash) tx_hashes"

definition get_tx_tree_hash_block :: "(bytes \<Rightarrow> Hash) \<Rightarrow> 'z Block_scheme \<Rightarrow> Hash option" where
  "get_tx_tree_hash_block cn_fast_hash b =
     get_tx_tree_hash cn_fast_hash (snd (getObjectHash cn_fast_hash out_Transaction (baseTransaction b)) # transactionHashes b)"

definition get_block_hashing_blob :: "(bytes \<Rightarrow> Hash) \<Rightarrow> 'z Block_scheme \<Rightarrow> bytes option" where
  "get_block_hashing_blob cn_fast_hash b =
     (case toBinaryArray out_BlockHeader b of
        None \<Rightarrow> None
      | Some ba \<Rightarrow>
          (case get_tx_tree_hash_block cn_fast_hash b of
             None \<Rightarrow> None
           | Some treeRootHash \<Rightarrow>
               Some (ba @ pod_bytes 32 treeRootHash @ get_varint_data (of_nat (length (transactionHashes b)) + 1))))"

text \<open>\<open>getObjectHash\<close> of a byte array serializes the array as a string, so its length is hashed with it.\<close>

definition get_block_hash :: "(bytes \<Rightarrow> Hash) \<Rightarrow> 'z Block_scheme \<Rightarrow> Hash option" where
  "get_block_hash cn_fast_hash b =
     (case get_block_hashing_blob cn_fast_hash b of
        None \<Rightarrow> None
      | Some ba \<Rightarrow> (case getObjectHash cn_fast_hash out_string ba of (ok, res) \<Rightarrow> if ok then Some res else None))"

definition get_block_hash_value :: "(bytes \<Rightarrow> Hash) \<Rightarrow> 'z Block_scheme \<Rightarrow> Hash" where
  "get_block_hash_value cn_fast_hash b = (case get_block_hash cn_fast_hash b of None \<Rightarrow> NULL_HASH | Some p \<Rightarrow> p)"

definition get_aux_block_header_hash :: "(bytes \<Rightarrow> Hash) \<Rightarrow> 'z Block_scheme \<Rightarrow> Hash option" where
  "get_aux_block_header_hash cn_fast_hash b =
     (case get_block_hashing_blob cn_fast_hash b of
        None \<Rightarrow> None
      | Some blob \<Rightarrow> (case getObjectHash cn_fast_hash out_string blob of (ok, res) \<Rightarrow> if ok then Some res else None))"

text \<open>The proof-of-work hashes of \<^verbatim>\<open>crypto/hash.h\<close>.\<close>

record slow_hashes =
  cn_slow_hash :: "bytes \<Rightarrow> Hash"
  cn_fast_slow_hash_v1 :: "bytes \<Rightarrow> Hash"
  cn_conceal_slow_hash_v0 :: "bytes \<Rightarrow> Hash"

definition get_block_longhash :: "(bytes \<Rightarrow> Hash) \<Rightarrow> slow_hashes \<Rightarrow> 'z Block_scheme \<Rightarrow> Hash option" where
  "get_block_longhash cn_fast_hash pow b =
     (case get_block_hashing_blob cn_fast_hash b of
        None \<Rightarrow> None
      | Some bd \<Rightarrow> Some (
          if 3 \<le> majorVersion b then cn_conceal_slow_hash_v0 pow bd
          else if majorVersion b = 2 then cn_fast_slow_hash_v1 pow bd
          else cn_slow_hash pow bd))"

definition parseAndValidateTransactionFromBinaryArray ::
  "(bytes \<Rightarrow> Hash) \<Rightarrow> bytes \<Rightarrow> (Transaction \<times> Hash \<times> Hash) option" where
  "parseAndValidateTransactionFromBinaryArray cn_fast_hash tx_blob =
     (case fromBinaryArray in_Transaction tx_blob of
        None \<Rightarrow> None
      | Some tx \<Rightarrow> Some (tx, cn_fast_hash tx_blob, snd (getObjectHash cn_fast_hash out_TransactionPrefix tx)))"

definition short_hash_str :: "Hash \<Rightarrow> string" where
  "short_hash_str h =
     (let res = podToHex h in
      if length res = 64 then take 8 res @ ''....'' @ drop 56 res else res)"

section \<open>The byte strings a block's hash is computed from\<close>

fun adjacent :: "'a list \<Rightarrow> ('a \<times> 'a) list" where
  "adjacent (a # b # xs) = (a, b) # adjacent xs"
| "adjacent xs = []"

fun merkle_inputs :: "(Hash \<Rightarrow> Hash \<Rightarrow> Hash) \<Rightarrow> nat \<Rightarrow> Hash list \<Rightarrow> (Hash \<times> Hash) list" where
  "merkle_inputs h 0 xs = []"
| "merkle_inputs h (Suc d) xs = adjacent xs @ merkle_inputs h d (pairs h xs)"

definition tree_inputs :: "(Hash \<Rightarrow> Hash \<Rightarrow> Hash) \<Rightarrow> Hash list \<Rightarrow> (Hash \<times> Hash) list" where
  "tree_inputs h hashes = (let d = tree_depth (length hashes) in
     adjacent (drop (2 ^ Suc d - length hashes) hashes) @ merkle_inputs h d (tree_level h d hashes))"

definition block_hash_inputs :: "(bytes \<Rightarrow> Hash) \<Rightarrow> Block \<Rightarrow> bytes list" where
  "block_hash_inputs cn_fast_hash b =
     (case toBinaryArray out_Transaction (baseTransaction b) of None \<Rightarrow> [] | Some ba \<Rightarrow> [ba]) @
     map (\<lambda>(a, c). pod_bytes 32 a @ pod_bytes 32 c) (tree_inputs (hash_pair cn_fast_hash)
       (snd (getObjectHash cn_fast_hash out_Transaction (baseTransaction b)) # transactionHashes b)) @
     (case get_block_hashing_blob cn_fast_hash b of None \<Rightarrow> [] | Some blob \<Rightarrow>
        (case toBinaryArray out_string blob of None \<Rightarrow> [] | Some ba \<Rightarrow> [ba]))"

definition collide :: "('a \<Rightarrow> Hash) \<Rightarrow> 'a list \<Rightarrow> 'a list \<Rightarrow> bool" where
  "collide h xs ys \<longleftrightarrow> (\<exists>x \<in> set xs. \<exists>y \<in> set ys. x \<noteq> y \<and> h x = h y)"

lemma collide_mono: "collide h xs ys \<Longrightarrow> set xs \<subseteq> set xs' \<Longrightarrow> set ys \<subseteq> set ys' \<Longrightarrow> collide h xs' ys'"
  unfolding collide_def by blast

lemma pod_bytes_inject:
  assumes "pod_bytes 32 a = pod_bytes 32 (b :: 256 word)"
  shows "a = b"
proof -
  have "pod_of_bytes (pod_bytes 32 w) = w" for w :: "256 word" by (rule pod_of_bytes_full) simp
  then show ?thesis using assms by metis
qed

lemma pairs_binding:
  assumes "length xs = length ys" "even (length xs)" "pairs h xs = pairs h ys" "xs \<noteq> ys"
  shows "collide (case_prod h) (adjacent xs) (adjacent ys)"
  using assms
proof (induction h xs arbitrary: ys rule: pairs.induct)
  case (1 h a b xs)
  then obtain c d ys' where ys: "ys = c # d # ys'"
    by (cases ys; cases "tl ys") auto
  have eq: "h a b = h c d" "pairs h xs = pairs h ys'" using "1.prems"(3) ys by simp_all
  show ?case
  proof (cases "xs = ys'")
    case True
    with "1.prems"(4) ys eq(1) show ?thesis by (auto simp: collide_def)
  next
    case False
    with 1 ys eq have "collide (case_prod h) (adjacent xs) (adjacent ys')" by simp
    then show ?thesis by (rule collide_mono) (auto simp: ys)
  qed
qed auto

lemma merkle_binding:
  "length xs = 2 ^ d \<Longrightarrow> length ys = 2 ^ d \<Longrightarrow> merkle h d xs = merkle h d ys \<Longrightarrow> xs \<noteq> ys \<Longrightarrow>
   collide (case_prod h) (merkle_inputs h d xs) (merkle_inputs h d ys)"
proof (induction d arbitrary: xs ys)
  case 0
  then show ?case by (auto simp: length_Suc_conv)
next
  case (Suc d)
  have eq: "merkle h d (pairs h xs) = merkle h d (pairs h ys)"
    using Suc.prems(3) unfolding merkle_pairs [OF Suc.prems(1)] merkle_pairs [OF Suc.prems(2)] .
  show ?case
  proof (cases "pairs h xs = pairs h ys")
    case True
    have "collide (case_prod h) (adjacent xs) (adjacent ys)"
      by (rule pairs_binding [OF _ _ True Suc.prems(4)]) (use Suc.prems(1,2) in simp_all)
    then show ?thesis by (rule collide_mono) simp_all
  next
    case False
    have "collide (case_prod h) (merkle_inputs h d (pairs h xs)) (merkle_inputs h d (pairs h ys))"
      by (rule Suc.IH [OF _ _ eq False]) (use Suc.prems(1,2) in simp_all)
    then show ?thesis by (rule collide_mono) simp_all
  qed
qed

lemma tree_hash_binding:
  assumes len: "length xs = length ys" "0 < length xs" "length xs < 2 ^ 64"
    and eq: "tree_hash h xs = tree_hash h ys" and ne: "xs \<noteq> ys"
  shows "collide (case_prod h) (tree_inputs h xs) (tree_inputs h ys)"
proof -
  obtain d where shape: "tree_shape d xs" using tree_shape_exists [of xs] len(2,3) by auto
  then have shape': "tree_shape d ys" using len by (simp add: tree_shape_def)
  define m where "m = 2 ^ Suc d - length xs"
  have depth: "tree_depth (length xs) = d" "tree_depth (length ys) = d"
    using tree_depth_eq [of d "length xs"] shape len(1) by (simp_all add: tree_shape_def)
  have inputs: "tree_inputs h xs = adjacent (drop m xs) @ merkle_inputs h d (tree_level h d xs)"
    "tree_inputs h ys = adjacent (drop m ys) @ merkle_inputs h d (tree_level h d ys)"
    unfolding tree_inputs_def depth Let_def m_def len(1) by simp_all
  have eq': "merkle h d (tree_level h d xs) = merkle h d (tree_level h d ys)"
    using eq unfolding tree_hash_merkle [OF shape] tree_hash_merkle [OF shape'] by (rule option.inject [THEN iffD1])
  show ?thesis
  proof (cases "tree_level h d xs = tree_level h d ys")
    case True
    then have "take m xs @ pairs h (drop m xs) = take m ys @ pairs h (drop m ys)"
      using len by (simp only: tree_level_def m_def)
    then have tk: "take m xs = take m ys" and ps: "pairs h (drop m xs) = pairs h (drop m ys)"
      using len by simp_all
    have "drop m xs \<noteq> drop m ys"
    proof
      assume "drop m xs = drop m ys"
      then have "take m xs @ drop m xs = take m ys @ drop m ys" by (simp only: tk)
      then show False using ne by simp
    qed
    then have "collide (case_prod h) (adjacent (drop m xs)) (adjacent (drop m ys))"
      using len(1) shape by (intro pairs_binding [OF _ _ ps]) (auto simp: m_def tree_shape_def)
    then show ?thesis unfolding inputs by (rule collide_mono) simp_all
  next
    case False
    have "collide (case_prod h) (merkle_inputs h d (tree_level h d xs)) (merkle_inputs h d (tree_level h d ys))"
      by (rule merkle_binding [OF length_tree_level [OF shape] length_tree_level [OF shape'] eq' False])
    then show ?thesis unfolding inputs by (rule collide_mono) simp_all
  qed
qed

section \<open>A block's hash determines the block\<close>

lemma get_block_hashing_blob_wf:
  assumes "wf_Block b"
  shows "\<exists>hd root. out_BlockHeader b = Inr hd \<and> get_tx_tree_hash_block cn_fast_hash b = Some root \<and>
    get_block_hashing_blob cn_fast_hash b =
      Some (hd @ pod_bytes 32 root @ get_varint_data (of_nat (length (transactionHashes b)) + 1))"
proof -
  obtain hd where hd: "out_BlockHeader b = Inr hd"
    using header.enc_wf [of "BlockHeader.truncate b"] assms by (auto simp: wf_Block_def)
  have "length (transactionHashes b) + 1 < 2 ^ 64" using assms by (simp add: wf_Block_def max_container_size_def)
  then obtain root where "get_tx_tree_hash_block cn_fast_hash b = Some root"
    using tree_shape_exists [of "snd (getObjectHash cn_fast_hash out_Transaction (baseTransaction b)) # transactionHashes b"]
      tree_hash_merkle by (fastforce simp: get_tx_tree_hash_block_def get_tx_tree_hash_def)
  then show ?thesis using hd by (simp add: get_block_hashing_blob_def toBinaryArray_def)
qed

lemma out_string_inject: "out_string x = out_string y \<Longrightarrow> x = y"
  using u64.enc_prefix_free [of "of_nat (length x)" _ "of_nat (length y)" _ x y]
  by (simp add: out_string_def out_uint64_def)

lemma out_string_Inr: "out_string x = Inr (writeVarint (of_nat (length x)) @ x)"
  by (simp add: out_string_def)

lemma blob_parts:
  assumes "wf_Block b" "wf_Block c" "out_BlockHeader b = Inr hb" "out_BlockHeader c = Inr hc"
    and eq: "hb @ pod_bytes 32 rb @ get_varint_data (of_nat (length (transactionHashes b)) + 1) =
      hc @ pod_bytes 32 (rc :: Hash) @ get_varint_data (of_nat (length (transactionHashes c)) + 1)"
  shows "BlockHeader.truncate b = BlockHeader.truncate c" "rb = rc"
    "length (transactionHashes b) = length (transactionHashes c)"
proof -
  let ?n = "\<lambda>b :: Block. of_nat (length (transactionHashes b)) :: uint64"
  from assms have "BlockHeader.truncate b = BlockHeader.truncate c \<and>
      pod_bytes 32 rb @ get_varint_data (?n b + 1) = pod_bytes 32 rc @ get_varint_data (?n c + 1)"
    by (intro header.enc_prefix_free) (simp_all add: wf_Block_def)
  then have t: "BlockHeader.truncate b = BlockHeader.truncate c" and p: "pod_bytes 32 rb = pod_bytes 32 rc"
    and v: "get_varint_data (?n b + 1) = get_varint_data (?n c + 1)" by simp_all
  show "BlockHeader.truncate b = BlockHeader.truncate c" by (rule t)
  show "rb = rc" using p by (rule pod_bytes_inject)
  have "?n b + 1 = ?n c + 1"
    using v by (intro u64.enc_inject) (simp_all add: get_varint_data_def write_varint_eq out_uint64_def)
  then have "unat (?n b) = unat (?n c)" by simp
  then show "length (transactionHashes b) = length (transactionHashes c)"
    using assms(1,2) unfolding wf_Block_def by (simp add: of_nat_size)
qed

lemma block_hash_inputs_set:
  "toBinaryArray out_Transaction (baseTransaction b) = Some ba \<Longrightarrow> ba \<in> set (block_hash_inputs h b)"
  "get_block_hashing_blob h b = Some blob \<Longrightarrow> writeVarint (of_nat (length blob)) @ blob \<in> set (block_hash_inputs h b)"
  "set (map (\<lambda>(a, c). pod_bytes 32 a @ pod_bytes 32 c) (tree_inputs (hash_pair h)
     (snd (getObjectHash h out_Transaction (baseTransaction b)) # transactionHashes b))) \<subseteq> set (block_hash_inputs h b)"
  by (auto simp: block_hash_inputs_def toBinaryArray_def out_string_Inr)

lemma collide_pairs:
  assumes "collide (case_prod (hash_pair h)) xs ys"
  shows "collide h (map (\<lambda>(a, c). pod_bytes 32 a @ pod_bytes 32 c) xs) (map (\<lambda>(a, c). pod_bytes 32 a @ pod_bytes 32 c) ys)"
proof -
  obtain a b c d where *: "(a, b) \<in> set xs" "(c, d) \<in> set ys" "(a, b) \<noteq> (c, d)" "hash_pair h a b = hash_pair h c d"
    using assms unfolding collide_def by fastforce
  have "pod_bytes 32 a @ pod_bytes 32 b \<noteq> pod_bytes 32 c @ pod_bytes 32 d"
    using *(3) pod_bytes_inject by auto
  then show ?thesis using * unfolding collide_def hash_pair_def by fastforce
qed

text \<open>C10: A block's hash identifies it: two different well-formed blocks, header, base transaction or
  transaction hashes, have the same hash only if \<open>cn_fast_hash\<close> maps two different byte strings to one
  hash, one of them hashed in computing the first block's hash and one in computing the second's.\<close>

theorem block_hash_binding:
  assumes wf: "wf_Block b" "wf_Block c" and ne: "b \<noteq> c"
    and eq: "get_block_hash cn_fast_hash b = get_block_hash cn_fast_hash c"
  shows "\<exists>x \<in> set (block_hash_inputs cn_fast_hash b). \<exists>y \<in> set (block_hash_inputs cn_fast_hash c).
    x \<noteq> y \<and> cn_fast_hash x = cn_fast_hash y"
proof (rule ccontr)
  let ?h = cn_fast_hash
  let ?s = "\<lambda>blob. writeVarint (of_nat (length blob)) @ blob"
  assume "\<not> ?thesis"
  then have no: "x = y" if "x \<in> set (block_hash_inputs ?h b)" "y \<in> set (block_hash_inputs ?h c)" "?h x = ?h y" for x y
    using that by blast
  obtain hb rb bb where hb: "out_BlockHeader b = Inr hb" and rb: "get_tx_tree_hash_block ?h b = Some rb"
    and bb: "get_block_hashing_blob ?h b = Some bb"
      "bb = hb @ pod_bytes 32 rb @ get_varint_data (of_nat (length (transactionHashes b)) + 1)"
    using get_block_hashing_blob_wf [OF wf(1)] by blast
  obtain hc rc bc where hc: "out_BlockHeader c = Inr hc" and rc: "get_tx_tree_hash_block ?h c = Some rc"
    and bc: "get_block_hashing_blob ?h c = Some bc"
      "bc = hc @ pod_bytes 32 rc @ get_varint_data (of_nat (length (transactionHashes c)) + 1)"
    using get_block_hashing_blob_wf [OF wf(2)] by blast
  have "?h (?s bb) = ?h (?s bc)"
    using eq by (simp add: get_block_hash_def bb(1) bc(1) getObjectHash_def toBinaryArray_def out_string_Inr
        getBinaryArrayHash_def)
  then have "?s bb = ?s bc" using no block_hash_inputs_set(2) bb(1) bc(1) by metis
  then have "bb = bc" by (intro out_string_inject) (simp only: out_string_Inr)
  note parts = blob_parts [OF wf hb hc this [unfolded bb(2) bc(2)]]
  let ?leaves = "\<lambda>b. snd (getObjectHash ?h out_Transaction (baseTransaction b)) # transactionHashes b"
  have leaves: "?leaves b = ?leaves c"
  proof (rule ccontr)
    assume "?leaves b \<noteq> ?leaves c"
    moreover have "tree_hash (hash_pair ?h) (?leaves b) = tree_hash (hash_pair ?h) (?leaves c)"
      using rb rc parts(2) by (simp add: get_tx_tree_hash_block_def get_tx_tree_hash_def)
    moreover have "length (?leaves b) < 2 ^ 64" using wf(1) by (simp add: wf_Block_def max_container_size_def)
    ultimately have "collide (case_prod (hash_pair ?h)) (tree_inputs (hash_pair ?h) (?leaves b))
        (tree_inputs (hash_pair ?h) (?leaves c))"
      using parts(3) by (intro tree_hash_binding) simp_all
    from collide_mono [OF collide_pairs [OF this] block_hash_inputs_set(3) block_hash_inputs_set(3)] no
    show False unfolding collide_def by blast
  qed
  obtain xb xc where x: "out_Transaction (baseTransaction b) = Inr xb" "out_Transaction (baseTransaction c) = Inr xc"
    using tx.enc_wf wf unfolding wf_Block_def by meson
  then have ba: "toBinaryArray out_Transaction (baseTransaction b) = Some xb"
    "toBinaryArray out_Transaction (baseTransaction c) = Some xc" by (simp_all add: toBinaryArray_def)
  from leaves have "?h xb = ?h xc" unfolding getObjectHash_def ba getBinaryArrayHash_def by simp
  with ba have "xb = xc" by (intro no block_hash_inputs_set(1))
  then have "baseTransaction b = baseTransaction c"
    using x wf by (intro tx.enc_inject) (simp_all add: wf_Block_def)
  then have "b = c" using leaves parts(1) Block_extend_iff by (metis list.inject)
  with ne show False ..
qed

definition sample_block :: "uint32 \<Rightarrow> Block" where
  "sample_block n = \<lparr>majorVersion = 1, minorVersion = 0, nonce = n, timestamp = 0, previousBlockHash = 0,
     baseTransaction = \<lparr>version = 1, unlockTime = 0, inputs = [], outputs = [], extra = [], signatures = []\<rparr>,
     transactionHashes = [7]\<rparr>"

theorem block_hash_binding_witness:
  "\<exists>x \<in> set (block_hash_inputs (\<lambda>_. 0) (sample_block 1)).
    \<exists>y \<in> set (block_hash_inputs (\<lambda>_. 0) (sample_block 2)). x \<noteq> y \<and> (0 :: Hash) = 0"
proof -
  have wf: "wf_Block (sample_block n)" for n
    by (simp add: sample_block_def wf_Block_def wf_Transaction_def wf_TransactionPrefix_def
        TRANSACTION_VERSION_2_def BLOCK_MAJOR_VERSION_3_def max_container_size_def)
  have "get_block_hash (\<lambda>_. 0) (sample_block n) = Some 0" for n
    using get_block_hashing_blob_wf [OF wf, of n "\<lambda>_. 0"]
    by (auto simp: get_block_hash_def getObjectHash_def toBinaryArray_def out_string_Inr getBinaryArrayHash_def)
  moreover have "sample_block 1 \<noteq> sample_block 2" by (simp add: sample_block_def)
  ultimately show ?thesis
    using block_hash_binding [OF wf wf, of 1 2 "\<lambda>_. 0"] by simp
qed

text \<open>Parsing a transaction from its bytes gives its identifier as the hash of exactly those bytes,
  which is also the hash of the parsed transaction, and succeeds for every well-formed transaction.\<close>

lemma parsed_transaction_hash:
  "(parseAndValidateTransactionFromBinaryArray cn_fast_hash blob = Some (t, tx_hash, tx_prefix_hash) \<longleftrightarrow>
     wf_Transaction t \<and> toBinaryArray out_Transaction t = Some blob \<and>
     (True, tx_hash) = getObjectHash cn_fast_hash out_Transaction t \<and>
     (True, tx_prefix_hash) = getObjectHash cn_fast_hash out_TransactionPrefix t)"
proof -
  have "wf_Transaction t \<Longrightarrow> fst (getObjectHash cn_fast_hash out_TransactionPrefix t)"
    using prefix.enc_wf [of "TransactionPrefix.truncate t"]
    by (auto simp: getObjectHash_def toBinaryArray_def wf_Transaction_def)
  then have prefix_ok: "wf_Transaction t \<Longrightarrow>
      (True, p) = getObjectHash cn_fast_hash out_TransactionPrefix t \<longleftrightarrow> p = snd (getObjectHash cn_fast_hash out_TransactionPrefix t)"
    for p by (cases "getObjectHash cn_fast_hash out_TransactionPrefix t") auto
  have "parseAndValidateTransactionFromBinaryArray cn_fast_hash blob = Some (t, tx_hash, tx_prefix_hash) \<longleftrightarrow>
      fromBinaryArray in_Transaction blob = Some t \<and> tx_hash = cn_fast_hash blob \<and>
      tx_prefix_hash = snd (getObjectHash cn_fast_hash out_TransactionPrefix t)"
    by (auto simp: parseAndValidateTransactionFromBinaryArray_def split: option.splits)
  then show ?thesis
    using prefix_ok unfolding tx.from_iff_to by (auto simp: getObjectHash_def [of _ out_Transaction] getBinaryArrayHash_def)
qed

end
