(* ===== verification/Difficulty.thy ===== *)
theory Difficulty
  imports CryptoTypes
begin

text \<open>
  \<^verbatim>\<open>src/CryptoNoteCore/Difficulty.cpp\<close>: the proof-of-work check. A hash read as an array of four
  64-bit limbs is the word's limbs; \<open>mul\<close> is the version with the compiler's 128-bit integers.
\<close>

definition limb :: "nat \<Rightarrow> Hash \<Rightarrow> uint64" where
  "limb i hash = ucast (drop_bit (64 * i) hash)"

definition mul :: "uint64 \<Rightarrow> uint64 \<Rightarrow> uint64 \<times> uint64" where
  "mul a b = (let res = (ucast a :: 128 word) * ucast b in (ucast res, ucast (drop_bit 64 res)))"

definition cadd :: "uint64 \<Rightarrow> uint64 \<Rightarrow> bool" where
  "cadd a b \<longleftrightarrow> a + b < a"

definition cadc :: "uint64 \<Rightarrow> uint64 \<Rightarrow> bool \<Rightarrow> bool" where
  "cadc a b c \<longleftrightarrow> a + b < a \<or> (c \<and> a + b = - 1)"

definition check_hash :: "Hash \<Rightarrow> uint64 \<Rightarrow> bool" where
  "check_hash hash difficulty =
     (let (top, high) = mul (limb 3 hash) difficulty in
      if high \<noteq> 0 then False
      else
        let (low, cur) = mul (limb 0 hash) difficulty;
            (low, high) = mul (limb 1 hash) difficulty;
            carry = cadd cur low;
            cur = high;
            (low, high) = mul (limb 2 hash) difficulty;
            carry = cadc cur low carry;
            carry = cadc high top carry
        in \<not> carry)"

lemma mul_split: "unat a * unat b = unat (fst (mul a b)) + unat (snd (mul a b)) * 2 ^ 64"
proof -
  have "unat a * unat b < 2 ^ 64 * 2 ^ 64" by (intro mult_strict_mono) simp_all
  then have "unat ((ucast a :: 128 word) * ucast b) = unat a * unat b"
    by (simp add: unat_mult_mod unat_ucast_up)
  moreover from this have "unat (snd (mul a b)) = unat a * unat b div 2 ^ 64"
    using \<open>unat a * unat b < 2 ^ 64 * 2 ^ 64\<close>
    by (simp add: mul_def Let_def unat_ucast_mod unat_drop_bit less_mult_imp_div_less)
  ultimately show ?thesis by (simp add: mul_def Let_def unat_ucast_mod)
qed

lemma cadd_iff: "cadd a b \<longleftrightarrow> 2 ^ 64 \<le> unat a + unat b"
  unfolding cadd_def plus_less_iff_overflow by simp

lemma cadc_iff: "cadc a b c \<longleftrightarrow> 2 ^ 64 \<le> unat a + unat b + of_bool c"
proof -
  have "a + b = - 1 \<longleftrightarrow> unat (a + b) = 2 ^ 64 - 1"
    by (simp add: word_unat_eq_iff unsigned_minus_1_eq_mask mask_eq_exp_minus_1)
  moreover have "a + b < a \<longleftrightarrow> 2 ^ 64 \<le> unat a + unat b" using plus_less_iff_overflow [of a b] by simp
  ultimately show ?thesis
    unfolding cadc_def unat_plus_mod by (cases "2 ^ 64 \<le> unat a + unat b") auto
qed

lemma limbs: "unat hash = unat (limb 0 hash) + unat (limb 1 hash) * 2 ^ 64 + unat (limb 2 hash) * 2 ^ 128 +
  unat (limb 3 hash) * 2 ^ 192"
proof -
  define n n1 n2 n3 where "n = unat hash" and "n1 = n div 2 ^ 64" and "n2 = n div 2 ^ 128" and "n3 = n div 2 ^ 192"
  have next_limb: "n1 div 2 ^ 64 = n2" "n2 div 2 ^ 64 = n3"
    by (simp_all add: n1_def n2_def n3_def div_mult2_eq [symmetric])
  have "n = n mod 2 ^ 64 + n1 * 2 ^ 64" unfolding n1_def by simp
  moreover have "n1 = n1 mod 2 ^ 64 + n2 * 2 ^ 64" unfolding next_limb(1) [symmetric] by simp
  moreover have "n2 = n2 mod 2 ^ 64 + n3 * 2 ^ 64" unfolding next_limb(2) [symmetric] by simp
  ultimately have sum: "n = n mod 2 ^ 64 + n1 mod 2 ^ 64 * 2 ^ 64 + n2 mod 2 ^ 64 * 2 ^ 128 + n3 * 2 ^ 192" by simp
  have "unat (limb i hash) = n div 2 ^ (64 * i) mod 2 ^ 64" for i
    by (simp only: limb_def unat_ucast_mod unat_drop_bit n_def) simp
  from this [of 0] this [of 1] this [of 2] this [of 3]
  have "unat (limb 0 hash) = n mod 2 ^ 64" "unat (limb 1 hash) = n1 mod 2 ^ 64"
    "unat (limb 2 hash) = n2 mod 2 ^ 64" "unat (limb 3 hash) = n3 mod 2 ^ 64"
    by (simp_all add: n1_def n2_def n3_def)
  moreover have "n3 mod 2 ^ 64 = n3"
    using unsigned_less [of hash, where ?'a = nat] by (simp add: n_def n3_def less_mult_imp_div_less)
  ultimately show ?thesis using sum unfolding n_def by (simp only:)
qed

lemma check_hash_iff: "check_hash hash difficulty \<longleftrightarrow> unat hash * unat difficulty < 2 ^ 256"
proof -
  define B :: nat where "B = 2 ^ 64"
  define p where "p i = mul (limb i hash) difficulty" for i
  define l u where "l i = unat (fst (p i))" and "u i = unat (snd (p i))" for i
  have bounds: "l i < B" "u i < B" for i by (simp_all add: l_def u_def B_def)
  have "unat hash * unat difficulty = unat (limb 0 hash) * unat difficulty + unat (limb 1 hash) * unat difficulty * B +
      unat (limb 2 hash) * unat difficulty * 2 ^ 128 + unat (limb 3 hash) * unat difficulty * 2 ^ 192"
    unfolding limbs [of hash] B_def by (simp add: algebra_simps)
  then have prod: "unat hash * unat difficulty =
      l 0 + (u 0 + l 1) * 2 ^ 64 + (u 1 + l 2) * 2 ^ 128 + (u 2 + l 3) * 2 ^ 192 + u 3 * 2 ^ 256"
    unfolding mul_split by (simp add: l_def u_def p_def B_def algebra_simps)
  let ?c1 = "B \<le> u 0 + l 1" let ?c2 = "B \<le> u 1 + l 2 + of_bool ?c1" let ?c3 = "B \<le> u 2 + l 3 + of_bool ?c2"
  have check: "check_hash hash difficulty \<longleftrightarrow> u 3 = 0 \<and> \<not> ?c3"
    by (simp add: check_hash_def Let_def split_beta cadd_iff cadc_iff l_def u_def p_def B_def unat_eq_0)
  show ?thesis
  proof (cases "u 3 = 0")
    case True
    have "(unat hash * unat difficulty < 2 ^ 256) = (\<not> ?c3)"
      unfolding prod True using bounds [of 0] bounds [of 1] bounds [of 2] bounds [of 3] unfolding B_def
      by (cases ?c1; cases ?c2; simp add: B_def; linarith)
    with check True show ?thesis by simp
  next
    case False
    then have "2 ^ 256 \<le> unat hash * unat difficulty" unfolding prod by (cases "u 3") auto
    with check False show ?thesis by simp
  qed
qed

text \<open>C9: The limb-wise multiplication with carries decides the proof of work exactly: a hash passes
  a difficulty if and only if their product, as unbounded integers, is below 2 to the 256.\<close>

theorem check_hash_exact: "check_hash hash difficulty \<longleftrightarrow> unat hash * unat difficulty < 2 ^ 256"
  by (rule check_hash_iff)

end
