(* ===== verification/Currency.thy ===== *)
theory Currency
  imports BasicImpl BlockHashing Difficulty
begin

text \<open>
  \<^verbatim>\<open>src/CryptoNoteCore/Currency.cpp\<close> and \<^verbatim>\<open>Currency.h\<close>, first part: the currency's parameters and their
  builder, the genesis block, block rewards and size limits, fusion transactions, address text and
  the size estimate of transactions. The class is a record of its members; the logger and the flag
  \<open>m_isBlockexplorer\<close>, which no function of the class reads, are left out. A function that can
  fail an assertion or return \<open>false\<close> returns a \<open>call\<close>.
\<close>

datatype 'a call = AssertFailed | ReturnFalse | Return 'a

section \<open>Tables\<close>

definition PRETTY_AMOUNTS :: "uint64 list" where
  "PRETTY_AMOUNTS = [
    1, 2, 3, 4, 5, 6, 7, 8, 9,
    10, 20, 30, 40, 50, 60, 70, 80, 90,
    100, 200, 300, 400, 500, 600, 700, 800, 900,
    1000, 2000, 3000, 4000, 5000, 6000, 7000, 8000, 9000,
    10000, 20000, 30000, 40000, 50000, 60000, 70000, 80000, 90000,
    100000, 200000, 300000, 400000, 500000, 600000, 700000, 800000, 900000,
    1000000, 2000000, 3000000, 4000000, 5000000, 6000000, 7000000, 8000000, 9000000,
    10000000, 20000000, 30000000, 40000000, 50000000, 60000000, 70000000, 80000000, 90000000,
    100000000, 200000000, 300000000, 400000000, 500000000, 600000000, 700000000, 800000000, 900000000,
    1000000000, 2000000000, 3000000000, 4000000000, 5000000000, 6000000000, 7000000000, 8000000000, 9000000000,
    10000000000, 20000000000, 30000000000, 40000000000, 50000000000, 60000000000, 70000000000, 80000000000, 90000000000,
    100000000000, 200000000000, 300000000000, 400000000000, 500000000000, 600000000000, 700000000000, 800000000000, 900000000000,
    1000000000000, 2000000000000, 3000000000000, 4000000000000, 5000000000000, 6000000000000, 7000000000000, 8000000000000, 9000000000000,
    10000000000000, 20000000000000, 30000000000000, 40000000000000, 50000000000000, 60000000000000, 70000000000000, 80000000000000, 90000000000000,
    100000000000000, 200000000000000, 300000000000000, 400000000000000, 500000000000000, 600000000000000, 700000000000000, 800000000000000, 900000000000000,
    1000000000000000, 2000000000000000, 3000000000000000, 4000000000000000, 5000000000000000, 6000000000000000, 7000000000000000, 8000000000000000, 9000000000000000,
    10000000000000000, 20000000000000000, 30000000000000000, 40000000000000000, 50000000000000000, 60000000000000000, 70000000000000000, 80000000000000000, 90000000000000000,
    100000000000000000, 200000000000000000, 300000000000000000, 400000000000000000, 500000000000000000, 600000000000000000, 700000000000000000, 800000000000000000, 900000000000000000,
    1000000000000000000, 2000000000000000000, 3000000000000000000, 4000000000000000000, 5000000000000000000, 6000000000000000000, 7000000000000000000, 8000000000000000000, 9000000000000000000,
    10000000000000000000]"

definition REWARD_INCREASING_FACTOR :: "uint64 list" where
  "REWARD_INCREASING_FACTOR = [
    0, 250000, 500000, 750000,
    1000000, 1250000, 1500000, 1750000,
    2000000, 2250000, 2500000, 2750000,
    3000000, 3250000, 3500000, 3750000,
    4000000, 4250000, 4500000, 4750000,
    5000000, 5250000, 5500000, 5750000,
    6000000, 6250000, 6500000, 6750000,
    7000000, 7250000, 7500000, 7750000,
    8000000, 8250000, 8500000, 8750000,
    9000000, 9250000, 9500000, 9750000,
    10000000, 10250000, 10500000, 10750000,
    11000000, 11250000, 11500000, 11750000,
    12000000, 12250000, 12500000, 12750000,
    13000000, 13250000, 13500000, 13750000,
    14000000, 14250000, 14500000, 14750000,
    15000000]"

definition GENESIS_COINBASE_TX_HEX :: string where
  "GENESIS_COINBASE_TX_HEX = ''010f01ff000180897a029b2e4c0281c0b02e7c53291a94d1d0cbff8883f8024f5142ee494ffbbd088071210171e9780fdd03e2f1a2364e958566a583dbd230df2f3d247456802efe6ef0ce5e''"

section \<open>The currency and its builder\<close>

record Currency =
  m_maxBlockHeight :: uint64
  m_maxBlockBlobSize :: uint64
  m_maxTxSize :: uint64
  m_publicAddressBase58Prefix :: uint64
  m_minedMoneyUnlockWindow :: uint64
  m_timestampCheckWindow :: uint64
  m_timestampCheckWindow_v1 :: uint64
  m_blockFutureTimeLimit :: uint64
  m_blockFutureTimeLimit_v1 :: uint64
  m_moneySupply :: uint64
  m_rewardBlocksWindow :: uint64
  m_blockGrantedFullRewardZone :: uint64
  m_minerTxBlobReservedSize :: uint64
  m_numberOfDecimalPlaces :: uint64
  m_coin :: uint64
  m_minimumFee :: uint64
  m_minimumFeeBanking :: uint64
  m_defaultDustThreshold :: uint64
  m_difficultyTarget :: uint64
  m_difficultyWindow :: uint64
  m_difficultyLag :: uint64
  m_difficultyCut :: uint64
  m_depositMinAmount :: uint64
  m_depositMinTerm :: uint32
  m_depositMaxTerm :: uint32
  m_depositMinTotalRateFactor :: uint64
  m_depositMaxTotalRate :: uint64
  m_maxBlockSizeInitial :: uint64
  m_maxBlockSizeGrowthSpeedNumerator :: uint64
  m_maxBlockSizeGrowthSpeedDenominator :: uint64
  m_lockedTxAllowedDeltaSeconds :: uint64
  m_lockedTxAllowedDeltaBlocks :: uint64
  m_mempoolTxLiveTime :: uint64
  m_mempoolTxFromAltBlockLiveTime :: uint64
  m_numberOfPeriodsToForgetTxDeletedFromPool :: uint64
  m_upgradeHeightV2 :: uint32
  m_upgradeHeightV3 :: uint32
  m_upgradeVotingThreshold :: uint32
  m_upgradeVotingWindow :: uint32
  m_upgradeWindow :: uint32
  m_transactionMaxSize :: uint64
  m_fusionTxMaxSize :: uint64
  m_fusionTxMinInputCount :: uint64
  m_fusionTxMinInOutCountRatio :: uint64
  m_blocksFileName :: string
  m_blocksCacheFileName :: string
  m_blockIndexesFileName :: string
  m_txPoolFileName :: string
  m_blockchinIndicesFileName :: string
  m_testnet :: bool
  m_genesisBlock :: Block
  m_genesisBlockHash :: Hash

text \<open>The builder's setters that do more than assign; a thrown \<open>invalid_argument\<close> is \<open>None\<close>.\<close>

definition set_numberOfDecimalPlaces :: "uint64 \<Rightarrow> Currency \<Rightarrow> Currency" where
  "set_numberOfDecimalPlaces val c =
     c\<lparr>m_numberOfDecimalPlaces := val, m_coin := ((\<lambda>coin. coin * 10) ^^ unat val) 1\<rparr>"

definition set_difficultyWindow :: "uint64 \<Rightarrow> Currency \<Rightarrow> Currency option" where
  "set_difficultyWindow val c = (if val < 2 then None else Some (c\<lparr>m_difficultyWindow := val\<rparr>))"

definition set_upgradeVotingThreshold :: "uint32 \<Rightarrow> Currency \<Rightarrow> Currency option" where
  "set_upgradeVotingThreshold val c =
     (if val \<le> 0 \<or> 100 < val then None else Some (c\<lparr>m_upgradeVotingThreshold := val\<rparr>))"

definition set_upgradeWindow :: "uint32 \<Rightarrow> Currency \<Rightarrow> Currency option" where
  "set_upgradeWindow val c = (if val \<le> 0 then None else Some (c\<lparr>m_upgradeWindow := val\<rparr>))"

definition empty_Transaction :: Transaction where
  "empty_Transaction = \<lparr>version = 0, unlockTime = 0, inputs = [], outputs = [], extra = [], signatures = []\<rparr>"

definition empty_Block :: Block where
  "empty_Block = \<lparr>majorVersion = 0, minorVersion = 0, nonce = 0, timestamp = 0, previousBlockHash = 0,
     baseTransaction = empty_Transaction, transactionHashes = []\<rparr>"

text \<open>The constructor of the builder; \<open>base\<close> holds what plain setters assign.\<close>

definition CurrencyBuilder_new :: "Currency option" where
  "CurrencyBuilder_new =
     (let base = \<lparr>
        m_maxBlockHeight = CRYPTONOTE_MAX_BLOCK_NUMBER,
        m_maxBlockBlobSize = CRYPTONOTE_MAX_BLOCK_BLOB_SIZE,
        m_maxTxSize = CRYPTONOTE_MAX_TX_SIZE,
        m_publicAddressBase58Prefix = CRYPTONOTE_PUBLIC_ADDRESS_BASE58_PREFIX,
        m_minedMoneyUnlockWindow = CRYPTONOTE_MINED_MONEY_UNLOCK_WINDOW,
        m_timestampCheckWindow = BLOCKCHAIN_TIMESTAMP_CHECK_WINDOW,
        m_timestampCheckWindow_v1 = BLOCKCHAIN_TIMESTAMP_CHECK_WINDOW_V1,
        m_blockFutureTimeLimit = CRYPTONOTE_BLOCK_FUTURE_TIME_LIMIT,
        m_blockFutureTimeLimit_v1 = CRYPTONOTE_BLOCK_FUTURE_TIME_LIMIT_V1,
        m_moneySupply = MONEY_SUPPLY,
        m_rewardBlocksWindow = CRYPTONOTE_REWARD_BLOCKS_WINDOW,
        m_blockGrantedFullRewardZone = CRYPTONOTE_BLOCK_GRANTED_FULL_REWARD_ZONE,
        m_minerTxBlobReservedSize = CRYPTONOTE_COINBASE_BLOB_RESERVED_SIZE,
        m_numberOfDecimalPlaces = 0,
        m_coin = 0,
        m_minimumFee = MINIMUM_FEE,
        m_minimumFeeBanking = MINIMUM_FEE_BANKING,
        m_defaultDustThreshold = DEFAULT_DUST_THRESHOLD,
        m_difficultyTarget = DIFFICULTY_TARGET,
        m_difficultyWindow = 0,
        m_difficultyLag = DIFFICULTY_LAG,
        m_difficultyCut = DIFFICULTY_CUT,
        m_depositMinAmount = DEPOSIT_MIN_AMOUNT,
        m_depositMinTerm = DEPOSIT_MIN_TERM,
        m_depositMaxTerm = DEPOSIT_MAX_TERM,
        m_depositMinTotalRateFactor = DEPOSIT_MIN_TOTAL_RATE_FACTOR,
        m_depositMaxTotalRate = DEPOSIT_MAX_TOTAL_RATE,
        m_maxBlockSizeInitial = MAX_BLOCK_SIZE_INITIAL,
        m_maxBlockSizeGrowthSpeedNumerator = MAX_BLOCK_SIZE_GROWTH_SPEED_NUMERATOR,
        m_maxBlockSizeGrowthSpeedDenominator = MAX_BLOCK_SIZE_GROWTH_SPEED_DENOMINATOR,
        m_lockedTxAllowedDeltaSeconds = CRYPTONOTE_LOCKED_TX_ALLOWED_DELTA_SECONDS,
        m_lockedTxAllowedDeltaBlocks = CRYPTONOTE_LOCKED_TX_ALLOWED_DELTA_BLOCKS,
        m_mempoolTxLiveTime = CRYPTONOTE_MEMPOOL_TX_LIVETIME,
        m_mempoolTxFromAltBlockLiveTime = CRYPTONOTE_MEMPOOL_TX_FROM_ALT_BLOCK_LIVETIME,
        m_numberOfPeriodsToForgetTxDeletedFromPool = CRYPTONOTE_NUMBER_OF_PERIODS_TO_FORGET_TX_DELETED_FROM_POOL,
        m_upgradeHeightV2 = ucast UPGRADE_HEIGHT_V2,
        m_upgradeHeightV3 = ucast UPGRADE_HEIGHT_V3,
        m_upgradeVotingThreshold = 0,
        m_upgradeVotingWindow = ucast UPGRADE_VOTING_WINDOW,
        m_upgradeWindow = 0,
        m_transactionMaxSize = CRYPTONOTE_MAX_TX_SIZE_LIMIT,
        m_fusionTxMaxSize = FUSION_TX_MAX_SIZE,
        m_fusionTxMinInputCount = FUSION_TX_MIN_INPUT_COUNT,
        m_fusionTxMinInOutCountRatio = FUSION_TX_MIN_IN_OUT_COUNT_RATIO,
        m_blocksFileName = ''blocks.dat'',
        m_blocksCacheFileName = ''blockscache.dat'',
        m_blockIndexesFileName = ''blockindexes.dat'',
        m_txPoolFileName = ''poolstate.bin'',
        m_blockchinIndicesFileName = ''blockchainindices.dat'',
        m_testnet = False,
        m_genesisBlock = empty_Block,
        m_genesisBlockHash = 0\<rparr>
      in
        Option.bind (set_difficultyWindow DIFFICULTY_WINDOW (set_numberOfDecimalPlaces CRYPTONOTE_DISPLAY_DECIMAL_POINT base))
          (\<lambda>c. Option.bind (set_upgradeVotingThreshold UPGRADE_VOTING_THRESHOLD c)
            (set_upgradeWindow (ucast UPGRADE_WINDOW))))"

definition generateGenesisBlock :: "Currency \<Rightarrow> Currency option" where
  "generateGenesisBlock c =
     (case fromHex GENESIS_COINBASE_TX_HEX [] of
        None \<Rightarrow> None
      | Some minerTxBlob \<Rightarrow>
          (case fromBinaryArray in_Transaction minerTxBlob of
             None \<Rightarrow> None
           | Some base \<Rightarrow> Some (c\<lparr>m_genesisBlock := empty_Block\<lparr>
               baseTransaction := base,
               majorVersion := BLOCK_MAJOR_VERSION_1,
               minorVersion := BLOCK_MINOR_VERSION_0,
               timestamp := GENESIS_TIMESTAMP,
               nonce := (if m_testnet c then GENESIS_NONCE + 1 else GENESIS_NONCE)\<rparr>\<rparr>)))"

definition Currency_init :: "(bytes \<Rightarrow> Hash) \<Rightarrow> Currency \<Rightarrow> Currency option" where
  "Currency_init cn_fast_hash c =
     (case generateGenesisBlock c of
        None \<Rightarrow> None
      | Some c \<Rightarrow>
          (case get_block_hash cn_fast_hash (m_genesisBlock c) of
             None \<Rightarrow> None
           | Some h \<Rightarrow>
               let c = c\<lparr>m_genesisBlockHash := h\<rparr> in
               Some (if m_testnet c
                 then c\<lparr>m_upgradeHeightV2 := 0, m_upgradeHeightV3 := 2,
                   m_blocksFileName := ''testnet_'' @ m_blocksFileName c,
                   m_blocksCacheFileName := ''testnet_'' @ m_blocksCacheFileName c,
                   m_blockIndexesFileName := ''testnet_'' @ m_blockIndexesFileName c,
                   m_txPoolFileName := ''testnet_'' @ m_txPoolFileName c,
                   m_blockchinIndicesFileName := ''testnet_'' @ m_blockchinIndicesFileName c\<rparr>
                 else c)))"

section \<open>Parameters by block version and height\<close>

definition timestampCheckWindow :: "Currency \<Rightarrow> uint8 \<Rightarrow> uint64" where
  "timestampCheckWindow c blockMajorVersion =
     (if BLOCK_MAJOR_VERSION_3 \<le> blockMajorVersion then m_timestampCheckWindow_v1 c else m_timestampCheckWindow c)"

definition blockFutureTimeLimit :: "Currency \<Rightarrow> uint8 \<Rightarrow> uint64" where
  "blockFutureTimeLimit c blockMajorVersion =
     (if BLOCK_MAJOR_VERSION_3 \<le> blockMajorVersion then m_blockFutureTimeLimit_v1 c else m_blockFutureTimeLimit c)"

definition difficultyWindowByBlockVersion :: "Currency \<Rightarrow> uint8 \<Rightarrow> uint64" where
  "difficultyWindowByBlockVersion c blockMajorVersion =
     (if BLOCK_MAJOR_VERSION_3 \<le> blockMajorVersion then DIFFICULTY_WINDOW_V3
      else if BLOCK_MAJOR_VERSION_2 \<le> blockMajorVersion then m_difficultyWindow c
      else if blockMajorVersion = BLOCK_MAJOR_VERSION_1 then DIFFICULTY_WINDOW_V2
      else DIFFICULTY_WINDOW_V1)"

definition difficultyCutByBlockVersion :: "Currency \<Rightarrow> uint8 \<Rightarrow> uint64" where
  "difficultyCutByBlockVersion c blockMajorVersion =
     (if BLOCK_MAJOR_VERSION_2 \<le> blockMajorVersion then m_difficultyCut c
      else if blockMajorVersion = BLOCK_MAJOR_VERSION_1 then DIFFICULTY_CUT_V2
      else DIFFICULTY_CUT_V1)"

definition difficultyBlocksCountByBlockVersion :: "Currency \<Rightarrow> uint8 \<Rightarrow> uint64" where
  "difficultyBlocksCountByBlockVersion c blockMajorVersion =
     (if BLOCK_MAJOR_VERSION_3 \<le> blockMajorVersion then DIFFICULTY_BLOCKS_COUNT
      else m_difficultyWindow c + m_difficultyLag c)"

definition upgradeHeight :: "Currency \<Rightarrow> uint8 \<Rightarrow> uint32" where
  "upgradeHeight c major =
     (if major = BLOCK_MAJOR_VERSION_2 then m_upgradeHeightV2 c
      else if major = BLOCK_MAJOR_VERSION_3 then m_upgradeHeightV3 c
      else - 1)"

definition minNumberVotingBlocks :: "Currency \<Rightarrow> uint32" where
  "minNumberVotingBlocks c = (m_upgradeVotingWindow c * m_upgradeVotingThreshold c + 99) div 100"

definition maxUpgradeDistance :: "Currency \<Rightarrow> uint32" where
  "maxUpgradeDistance c = 7 * m_upgradeWindow c"

definition calculateUpgradeHeight :: "Currency \<Rightarrow> uint32 \<Rightarrow> uint32" where
  "calculateUpgradeHeight c voteCompleteHeight = voteCompleteHeight + m_upgradeWindow c"

section \<open>Rewards and block sizes\<close>

definition baseRewardFunction :: "Currency \<Rightarrow> uint64 \<Rightarrow> uint32 \<Rightarrow> uint64 option" where
  "baseRewardFunction c alreadyGeneratedCoins height =
     (let incrIntervals = ucast height div REWARD_INCREASE_INTERVAL in
      if \<not> unat incrIntervals < length REWARD_INCREASING_FACTOR then None
      else
        let base_reward = START_BLOCK_REWARD + REWARD_INCREASING_FACTOR ! unat incrIntervals;
            base_reward = min base_reward MAX_BLOCK_REWARD
        in Some (min base_reward (m_moneySupply c - alreadyGeneratedCoins)))"

text \<open>The results are \<open>reward\<close> and \<open>emissionChange\<close>, the latter in two's complement.\<close>

definition getBlockReward ::
  "Currency \<Rightarrow> uint64 \<Rightarrow> uint64 \<Rightarrow> uint64 \<Rightarrow> uint64 \<Rightarrow> uint32 \<Rightarrow> (uint64 \<times> uint64) call" where
  "getBlockReward c medianSize currentBlockSize alreadyGeneratedCoins fee height =
     (if \<not> alreadyGeneratedCoins \<le> m_moneySupply c then AssertFailed
      else case baseRewardFunction c alreadyGeneratedCoins height of
        None \<Rightarrow> AssertFailed
      | Some baseReward \<Rightarrow>
          let medianSize = max medianSize (m_blockGrantedFullRewardZone c) in
          if 2 * medianSize < currentBlockSize then ReturnFalse
          else case (getPenalizedAmount baseReward medianSize currentBlockSize,
                     getPenalizedAmount fee medianSize currentBlockSize) of
            (Some penalizedBaseReward, Some penalizedFee) \<Rightarrow>
              Return (penalizedBaseReward + penalizedFee, penalizedBaseReward - (fee - penalizedFee))
          | _ \<Rightarrow> AssertFailed)"

definition maxBlockCumulativeSize :: "Currency \<Rightarrow> uint64 \<Rightarrow> uint64 option" where
  "maxBlockCumulativeSize c height =
     (if \<not> height \<le> - 1 div m_maxBlockSizeGrowthSpeedNumerator c then None
      else
        let maxSize = m_maxBlockSizeInitial c +
          (height * m_maxBlockSizeGrowthSpeedNumerator c) div m_maxBlockSizeGrowthSpeedDenominator c
        in if \<not> m_maxBlockSizeInitial c \<le> maxSize then None else Some maxSize)"

section \<open>Fusion transactions\<close>

fun fusion_inputs_loop :: "uint64 \<Rightarrow> uint64 list \<Rightarrow> uint64 \<Rightarrow> uint64 option" where
  "fusion_inputs_loop threshold [] inputAmount = Some inputAmount"
| "fusion_inputs_loop threshold (a # as) inputAmount =
     (if a < threshold then None else fusion_inputs_loop threshold as (inputAmount + a))"

definition isFusionTransaction_amounts :: "Currency \<Rightarrow> uint64 list \<Rightarrow> uint64 list \<Rightarrow> uint64 \<Rightarrow> bool" where
  "isFusionTransaction_amounts c inputsAmounts outputsAmounts txSize =
     (if m_fusionTxMaxSize c < txSize then False
      else if (of_nat (length inputsAmounts) :: uint64) < m_fusionTxMinInputCount c then False
      else if (of_nat (length inputsAmounts) :: uint64) < of_nat (length outputsAmounts) * m_fusionTxMinInOutCountRatio c then False
      else case fusion_inputs_loop (m_defaultDustThreshold c) inputsAmounts 0 of
        None \<Rightarrow> False
      | Some inputAmount \<Rightarrow> sort (decomposeAmount inputAmount (m_defaultDustThreshold c)) = outputsAmounts)"

definition isFusionTransaction_size :: "Currency \<Rightarrow> Transaction \<Rightarrow> uint64 \<Rightarrow> bool option" where
  "isFusionTransaction_size c tx txSize =
     (if snd (getObjectBinarySize out_Transaction tx) \<noteq> txSize then None
      else Some (isFusionTransaction_amounts c (getInputsAmounts tx) (map amount (outputs tx)) txSize))"

definition isFusionTransaction :: "Currency \<Rightarrow> Transaction \<Rightarrow> bool option" where
  "isFusionTransaction c tx = isFusionTransaction_size c tx (snd (getObjectBinarySize out_Transaction tx))"

text \<open>\<open>std::lower_bound\<close> as the number of elements before the iterator.\<close>

definition lower_bound :: "uint64 list \<Rightarrow> uint64 \<Rightarrow> nat" where
  "lower_bound xs a = length (takeWhile (\<lambda>x. x < a) xs)"

definition is_valid_decomposed_amount :: "uint64 \<Rightarrow> bool" where
  "is_valid_decomposed_amount a =
     (let it = lower_bound PRETTY_AMOUNTS a in \<not> (it = length PRETTY_AMOUNTS \<or> a \<noteq> PRETTY_AMOUNTS ! it))"

definition isAmountApplicableInFusionTransactionInput :: "Currency \<Rightarrow> uint64 \<Rightarrow> uint64 \<Rightarrow> uint32 \<Rightarrow> uint8 option" where
  "isAmountApplicableInFusionTransactionInput c amnt threshold height =
     (if threshold \<le> amnt then None
      else if ucast height < UPGRADE_HEIGHT_V3 \<and> amnt < m_defaultDustThreshold c then None
      else let it = lower_bound PRETTY_AMOUNTS amnt in
        if it = length PRETTY_AMOUNTS \<or> amnt \<noteq> PRETTY_AMOUNTS ! it then None
        else Some (of_nat (it div 9)))"

section \<open>Addresses, proof of work and transaction size\<close>

definition accountAddressAsString :: "(bytes \<Rightarrow> Hash) \<Rightarrow> Currency \<Rightarrow> AccountPublicAddress \<Rightarrow> string option" where
  "accountAddressAsString cn_fast_hash c adr = getAccountAddressAsStr cn_fast_hash (m_publicAddressBase58Prefix c) adr"

definition Currency_parseAccountAddressString ::
  "(bytes \<Rightarrow> Hash) \<Rightarrow> (PublicKey \<Rightarrow> bool) \<Rightarrow> Currency \<Rightarrow> string \<Rightarrow> AccountPublicAddress option" where
  "Currency_parseAccountAddressString cn_fast_hash check_key c str =
     (case parseAccountAddressString cn_fast_hash check_key str of
        None \<Rightarrow> None
      | Some (prefix, adr) \<Rightarrow> if prefix \<noteq> m_publicAddressBase58Prefix c then None else Some adr)"

definition checkProofOfWork :: "(bytes \<Rightarrow> Hash) \<Rightarrow> slow_hashes \<Rightarrow> Block \<Rightarrow> uint64 \<Rightarrow> bool" where
  "checkProofOfWork cn_fast_hash pow b currentDifficulty =
     (case get_block_longhash cn_fast_hash pow b of
        None \<Rightarrow> False
      | Some proofOfWork \<Rightarrow> check_hash proofOfWork currentDifficulty)"

definition getApproximateMaximumInputCount :: "uint64 \<Rightarrow> uint64 \<Rightarrow> uint64 \<Rightarrow> uint64" where
  "getApproximateMaximumInputCount transactionSize outputCount mixinCount =
     (let outputsSize = outputCount * (1 + 32 + (8 + 2));
          headerSize = 1 + 8 + 1 + 32;
          inputSize = 1 + (8 + 2) + 32 + 64 + 1 + 4 + mixinCount * (4 + 64)
      in (transactionSize - headerSize - outputsSize) div inputSize)"

section \<open>The reward schedule\<close>

lemma uint_small:
  assumes "unat (w :: uint64) < 2 ^ 63"
  shows "0 \<le> uint w" "uint w < 2 ^ 63"
proof -
  have "int (unat w) < int (2 ^ 63)" using assms by (simp only: of_nat_less_iff)
  then show "uint w < 2 ^ 63" by simp
qed (rule unsigned_greater_eq)

lemma sint_small:
  assumes "unat w < 2 ^ 63"
  shows "sint (w :: uint64) = int (unat w)"
proof -
  have "- (2 ^ 63) \<le> uint w" by (rule order_trans [OF _ unsigned_greater_eq]) simp
  then show ?thesis using uint_small(2) [OF assms] by (simp add: sint_uint signed_take_bit_int_eq_self)
qed

lemma sint_diff_small:
  assumes "unat x < 2 ^ 63" "unat y < 2 ^ 63"
  shows "sint (x - y :: uint64) = int (unat x) - int (unat y)"
proof -
  obtain a b where ab: "uint x = a" "uint y = b" "0 \<le> a" "0 \<le> b" "a < 2 ^ 63" "b < 2 ^ 63"
    using uint_small [OF assms(1)] uint_small [OF assms(2)] by blast
  then have "signed_take_bit 63 (a - b) = a - b" by (intro signed_take_bit_int_eq_self) linarith+
  then show ?thesis
    unfolding sint_word_ariths sint_small [OF assms(1)] sint_small [OF assms(2)] using ab by simp
qed

lemma REWARD_INCREASING_FACTOR_nth: "n < 61 \<Longrightarrow> REWARD_INCREASING_FACTOR ! n = of_nat (250000 * n)"
proof -
  have table: "REWARD_INCREASING_FACTOR = map (\<lambda>n. of_nat (250000 * n)) [0..<61]"
    by (simp add: REWARD_INCREASING_FACTOR_def upt_rec)
  assume "n < 61"
  then show ?thesis unfolding table by (subst nth_map_upt) simp_all
qed

lemma length_REWARD_INCREASING_FACTOR: "length REWARD_INCREASING_FACTOR = 61"
  by (simp add: REWARD_INCREASING_FACTOR_def)

lemma baseReward_eq:
  "baseRewardFunction c already height =
     (if unat height < 61 * 21900 then Some (min MAX_BLOCK_REWARD (m_moneySupply c - already)) else None)"
proof -
  define n where "n = unat (ucast height div REWARD_INCREASE_INTERVAL :: uint64)"
  have n: "n = unat height div 21900" by (simp add: n_def unat_div_eq unat_ucast_up config)
  then have less: "n < 61 \<longleftrightarrow> unat height < 61 * 21900" by linarith
  have "min (START_BLOCK_REWARD + REWARD_INCREASING_FACTOR ! n) MAX_BLOCK_REWARD = MAX_BLOCK_REWARD" if "n < 61"
  proof (rule min.absorb2)
    have "unat (of_nat (250000 * n) :: uint64) = 250000 * n" using that by (intro unat_of_nat_small) simp
    then show "MAX_BLOCK_REWARD \<le> START_BLOCK_REWARD + REWARD_INCREASING_FACTOR ! n"
      using that unfolding REWARD_INCREASING_FACTOR_nth [OF that] word_le_nat_alt unat_plus_mod config by simp
  qed
  then show ?thesis
    unfolding baseRewardFunction_def Let_def length_REWARD_INCREASING_FACTOR n_def [symmetric]
    using less by (cases "n < 61") simp_all
qed

text \<open>C32: The block reward before the size penalty does not depend on the height: at every height below
  1,335,900 it is 20 coins, or what is left of the money supply if that is less, because the starting
  reward of the increase schedule already exceeds its maximum; from that height on the schedule's
  table is exhausted and the assertion on it fails.\<close>

theorem base_reward_constant:
  "baseRewardFunction c already height =
     (if unat height < 1335900 then Some (min 2000000 (m_moneySupply c - already)) else None)"
  unfolding baseReward_eq by (simp add: config)

text \<open>What is left of an amount in a block of size \<open>n\<close> with median size \<open>m\<close>.\<close>

definition penalized :: "nat \<Rightarrow> nat \<Rightarrow> nat \<Rightarrow> nat" where
  "penalized m n a = (if n \<le> m then a else a * (n * (2 * m - n)) div (m * m))"

lemma penalized_word:
  assumes "unat n \<le> 2 * unat m" "unat m < 2 ^ 32" "unat n < 2 ^ 32"
  obtains r where "getPenalizedAmount a m n = Some r" "unat r = penalized (unat m) (unat n) (unat a)" "unat r \<le> unat a"
  using penalized_amount [OF assms, of a] by (auto simp: penalized_def word_le_nat_alt)

text \<open>C7: Emission is exact and bounded by the money supply: for block sizes of at most 32 bits, a supply not
  yet exceeded and a fee below half the 64-bit range, the reward computation fails no assertion below
  height 1,335,900; it refuses exactly the blocks of more than twice the effective median size. Otherwise
  the reward is the base reward plus the fees, each kept up to the effective median size and above it
  multiplied by \<open>n (2 m - n) / m^2\<close> and rounded down, and the emission grows by the penalized base reward
  less what the fees lost; the coins in circulation after the block do not exceed the supply.\<close>

theorem emission_bounded:
  assumes "already \<le> m_moneySupply c" "unat height < 1335900"
    and "unat median < 2 ^ 32" "unat (m_blockGrantedFullRewardZone c) < 2 ^ 32" "unat size_b < 2 ^ 32"
    and "unat fee < 2 ^ 63"
    and "m = max (unat median) (unat (m_blockGrantedFullRewardZone c))"
    and "pb = penalized m (unat size_b) (min 2000000 (unat (m_moneySupply c) - unat already))" "pf = penalized m (unat size_b) (unat fee)"
  shows "if 2 * m < unat size_b then getBlockReward c median size_b already fee height = ReturnFalse
    else \<exists>reward change. getBlockReward c median size_b already fee height = Return (reward, change) \<and>
      unat reward = pb + pf \<and> sint change = int pb - int (unat fee - pf) \<and>
      pb \<le> min 2000000 (unat (m_moneySupply c) - unat already) \<and> pf \<le> unat fee \<and>
      int (unat already) + sint change \<le> int (unat (m_moneySupply c))"
proof -
  let ?base = "min 2000000 (unat (m_moneySupply c) - unat already)" and ?m = "max median (m_blockGrantedFullRewardZone c)"
  have m: "unat ?m = m" by (simp add: assms(7) max_def word_le_nat_alt)
  have m32: "m < 2 ^ 32" using assms(3,4,7) by simp
  then have two: "unat (2 * ?m) = 2 * m" using m by (simp add: unat_mult_mod)
  define b where "b = min MAX_BLOCK_REWARD (m_moneySupply c - already)"
  have b: "unat b = ?base" using assms(1) by (simp add: b_def min_def word_le_nat_alt unat_sub_mod config)
  have base: "baseRewardFunction c already height = Some b"
    using assms(2) by (simp add: baseReward_eq b_def)
  show ?thesis
  proof (cases "2 * m < unat size_b")
    case True
    then have "2 * ?m < size_b" by (simp add: word_less_nat_alt two)
    then show ?thesis using True assms(1) base by (simp add: getBlockReward_def Let_def)
  next
    case False
    then have small: "\<not> 2 * ?m < size_b" "unat size_b \<le> 2 * unat ?m" by (simp_all add: word_less_nat_alt two m)
    obtain r where r: "getPenalizedAmount b ?m size_b = Some r" "unat r = pb" "pb \<le> ?base"
      using penalized_word [OF small(2), of b] assms(5) m m32 unfolding assms(8) b m by metis
    obtain f where f: "getPenalizedAmount fee ?m size_b = Some f" "unat f = pf" "pf \<le> unat fee"
      using penalized_word [OF small(2), of fee] assms(5) m m32 unfolding assms(9) m by metis
    have res: "getBlockReward c median size_b already fee height = Return (r + f, r - (fee - f))"
      using assms(1) base small(1) r(1) f(1) by (simp add: getBlockReward_def Let_def)
    have b_le: "?base \<le> 2000000" "?base \<le> unat (m_moneySupply c) - unat already" by simp_all
    have reward: "unat (r + f) = pb + pf"
      using r(2,3) f(2,3) b_le(1) assms(6) by (subst unat_plus_exact) simp_all
    have diff: "unat (fee - f) = unat fee - pf" using f(2,3) by (simp add: unat_sub_mod)
    have change: "sint (r - (fee - f)) = int pb - int (unat fee - pf)"
      using r(2,3) b_le(1) assms(6) unfolding diff [symmetric] r(2) [symmetric] by (intro sint_diff_small) (simp_all add: diff)
    have "int a + (int p - int q) \<le> int t" if "a \<le> t" "p \<le> t - a" for a p q t :: nat using that by linarith
    then have "int (unat already) + sint (r - (fee - f)) \<le> int (unat (m_moneySupply c))"
      using assms(1) r(3) b_le(2) unfolding change word_le_nat_alt by (meson order_trans)
    then show ?thesis unfolding if_not_P [OF False] using res reward change r(3) f(3) by blast
  qed
qed

theorem emission_bounded_witness:
  "\<exists>c. CurrencyBuilder_new = Some c \<and>
    (\<exists>reward change. getBlockReward c 300 150000 99999999999000 500 7 = Return (reward, change) \<and>
      unat reward = 1125 \<and> sint change = 625 \<and> 99999999999000 + sint change \<le> 100000000000000)"
proof -
  obtain c where c: "CurrencyBuilder_new = Some c" "m_moneySupply c = 100000000000000"
    "m_blockGrantedFullRewardZone c = 100000"
    by (simp add: CurrencyBuilder_new_def set_difficultyWindow_def set_upgradeVotingThreshold_def set_upgradeWindow_def
        set_numberOfDecimalPlaces_def config)
  have p: "750 = penalized 100000 150000 1000" "375 = penalized 100000 150000 500" by (simp_all add: penalized_def)
  have "if 2 * 100000 < unat (150000 :: uint64) then getBlockReward c 300 150000 99999999999000 500 7 = ReturnFalse
      else \<exists>reward change. getBlockReward c 300 150000 99999999999000 500 7 = Return (reward, change) \<and>
        unat reward = 750 + 375 \<and> sint change = int 750 - int (unat (500 :: uint64) - 375) \<and>
        750 \<le> min 2000000 (unat (m_moneySupply c) - unat (99999999999000 :: uint64)) \<and> 375 \<le> unat (500 :: uint64) \<and>
        int (unat (99999999999000 :: uint64)) + sint change \<le> int (unat (m_moneySupply c))"
    by (rule emission_bounded) (simp_all add: c p)
  then show ?thesis by (intro exI [of _ c]) (simp add: c)
qed

section \<open>The genesis block\<close>

definition genesis_key :: bytes where
  "genesis_key = [155, 46, 76, 2, 129, 192, 176, 46, 124, 83, 41, 26, 148, 209, 208, 203,
    255, 136, 131, 248, 2, 79, 81, 66, 238, 73, 79, 251, 189, 8, 128, 113]"

definition genesis_extra :: bytes where
  "genesis_extra = [1, 113, 233, 120, 15, 221, 3, 226, 241, 162, 54, 78, 149, 133, 102, 165,
    131, 219, 210, 48, 223, 47, 61, 36, 116, 86, 128, 46, 254, 110, 240, 206,
    94]"

definition genesis_transaction :: Transaction where
  "genesis_transaction = \<lparr>version = 1, unlockTime = 15, inputs = [BaseInput 0],
     outputs = [\<lparr>amount = 2000000, target = KeyOutput (pod_of_bytes genesis_key)\<rparr>],
     extra = genesis_extra, signatures = [[]]\<rparr>"

lemma genesis_bytes:
  "fromHex GENESIS_COINBASE_TX_HEX [] = Some ([1, 15, 1, 255, 0, 1, 128, 137, 122, 2] @ genesis_key @ [33] @ genesis_extra)"
  by code_simp

lemma genesis_encoding:
  "out_Transaction genesis_transaction = Inr ([1, 15, 1, 255, 0, 1, 128, 137, 122, 2] @ genesis_key @ [33] @ genesis_extra)"
proof -
  have key: "pod_bytes 32 (pod_of_bytes genesis_key :: 256 word) = genesis_key"
  proof -
    have len: "length genesis_key = 32" by (simp add: genesis_key_def)
    have "pod_bytes (length genesis_key) (pod_of_bytes genesis_key :: 256 word) = genesis_key"
      by (rule pod_bytes_pod_of_bytes) (simp add: len)
    then show ?thesis unfolding len .
  qed
  have blob: "blob_of genesis_extra = genesis_extra" "length genesis_extra = 33"
    by (simp_all add: blob_of_def genesis_extra_def pod_bytes_def)
  have one: "\<not> (128 :: uint64) \<le> 1" by (simp add: word_le_nat_alt)
  show ?thesis
    by (simp add: one genesis_transaction_def out_Transaction_def out_TransactionPrefix_def TRANSACTION_VERSION_2_def
        scalar_out out_container_def out_beginArray_def out_TransactionInput_def out_TransactionOutput_def
        out_TransactionOutputTarget_def out_binary_def out_pod_def input_tag_def target_tag_def out_asBinary_def
        out_string_def blob key getSignaturesCount_def Let_def writeVarint.simps)
qed

lemma genesis_transaction_wf: "wf_Transaction genesis_transaction"
  by (simp add: genesis_transaction_def wf_Transaction_def wf_TransactionPrefix_def TRANSACTION_VERSION_2_def
      max_container_size_def wf_TransactionInput_def wf_TransactionOutput_def getSignaturesCount_def genesis_extra_def)

lemma generateGenesisBlock_eq:
  "generateGenesisBlock c = Some (c\<lparr>m_genesisBlock := empty_Block\<lparr>baseTransaction := genesis_transaction,
     majorVersion := 1, minorVersion := 0, timestamp := 1527078920,
     nonce := (if m_testnet c then 10001 else 10000)\<rparr>\<rparr>)"
proof -
  have "fromBinaryArray in_Transaction ([1, 15, 1, 255, 0, 1, 128, 137, 122, 2] @ genesis_key @ [33] @ genesis_extra) =
      Some genesis_transaction"
    unfolding tx.from_iff_to toBinaryArray_iff using genesis_transaction_wf genesis_encoding by blast
  then show ?thesis unfolding generateGenesisBlock_def genesis_bytes option.case by (simp add: config)
qed

text \<open>C33: The hard-coded genesis data is good: with any hash function the default currency initialises.
  Its genesis block is well-formed, is the one with the transaction parsed from the hexadecimal
  constant, mines exactly the base reward of height 0 and has a hash; the test network differs from
  the main network in the nonce, the upgrade heights and the file names only.\<close>

theorem genesis_block_valid:
  "\<exists>c d. CurrencyBuilder_new = Some c \<and> Currency_init cn_fast_hash c = Some d \<and>
     wf_Block (m_genesisBlock d) \<and> get_block_hash cn_fast_hash (m_genesisBlock d) = Some (m_genesisBlockHash d) \<and>
     is_coinbase (baseTransaction (m_genesisBlock d)) \<and> get_block_height (m_genesisBlock d) = 0 \<and>
     Some (get_outs_money_amount (baseTransaction (m_genesisBlock d))) = baseRewardFunction d 0 0 \<and>
     (\<exists>t. Currency_init cn_fast_hash (c\<lparr>m_testnet := True\<rparr>) = Some t \<and>
        m_genesisBlock t = (m_genesisBlock d)\<lparr>nonce := 10001\<rparr> \<and> upgradeHeight t 2 = 0 \<and> upgradeHeight d 2 = 1)"
proof -
  obtain c where c: "CurrencyBuilder_new = Some c" "m_moneySupply c = 100000000000000" "\<not> m_testnet c"
    "m_upgradeHeightV2 c = 1"
    by (simp add: CurrencyBuilder_new_def set_difficultyWindow_def set_upgradeVotingThreshold_def set_upgradeWindow_def
        set_numberOfDecimalPlaces_def config)
  let ?g = "\<lambda>n. empty_Block\<lparr>baseTransaction := genesis_transaction, majorVersion := 1, minorVersion := 0,
      timestamp := 1527078920, nonce := n\<rparr>"
  have wf: "wf_Block (?g n)" for n
    by (simp add: wf_Block_def empty_Block_def BLOCK_MAJOR_VERSION_3_def genesis_transaction_wf)
  have some: "\<exists>h. get_block_hash cn_fast_hash (?g n) = Some h" for n
    using get_block_hashing_blob_wf [OF wf, of n cn_fast_hash]
    by (auto simp: get_block_hash_def getObjectHash_def toBinaryArray_def out_string_Inr)
  obtain h where h: "get_block_hash cn_fast_hash (?g 10000) = Some h" using some by blast
  obtain h' where h': "get_block_hash cn_fast_hash (?g 10001) = Some h'" using some by blast
  let ?d = "c\<lparr>m_genesisBlock := ?g 10000, m_genesisBlockHash := h\<rparr>"
  have init: "Currency_init cn_fast_hash c = Some ?d"
    using h c(3) by (simp add: Currency_init_def generateGenesisBlock_eq)
  moreover have "Some (get_outs_money_amount (baseTransaction (m_genesisBlock ?d))) = baseRewardFunction ?d 0 0"
    using c(2) by (simp add: baseReward_eq get_outs_money_amount_def empty_Block_def genesis_transaction_def config)
  moreover have "is_coinbase (baseTransaction (m_genesisBlock ?d))" "get_block_height (m_genesisBlock ?d) = 0"
    by (simp_all add: is_coinbase_def get_block_height_def empty_Block_def genesis_transaction_def)
  moreover obtain t where "Currency_init cn_fast_hash (c\<lparr>m_testnet := True\<rparr>) = Some t"
      "m_genesisBlock t = (m_genesisBlock ?d)\<lparr>nonce := 10001\<rparr>" "upgradeHeight t 2 = 0"
    using h' by (simp add: Currency_init_def generateGenesisBlock_eq upgradeHeight_def config)
  moreover have "upgradeHeight ?d 2 = 1" using c(4) by (simp add: upgradeHeight_def config)
  ultimately show ?thesis
    using c(1) wf h by (intro exI [of _ c] exI [of _ ?d]) auto
qed

section \<open>Limits on block sizes\<close>

text \<open>With the default parameters the limit on the cumulative block size fails no assertion at any
  32-bit height, is exact, starts at one million bytes and never decreases with the height.\<close>

lemma block_size_limit:
  assumes "CurrencyBuilder_new = Some c" "unat height < 2 ^ 32" "unat height' \<le> unat height"
  shows "\<exists>r r'. maxBlockCumulativeSize c height = Some r \<and> maxBlockCumulativeSize c height' = Some r' \<and>
    unat r = 1000000 + unat height * 102400 div 262800 \<and> unat r' \<le> unat r"
proof -
  have c: "m_maxBlockSizeInitial c = 1000000" "m_maxBlockSizeGrowthSpeedNumerator c = 102400"
    "m_maxBlockSizeGrowthSpeedDenominator c = 262800"
    using assms(1)
    by (auto simp: CurrencyBuilder_new_def set_difficultyWindow_def set_upgradeVotingThreshold_def set_upgradeWindow_def
        set_numberOfDecimalPlaces_def config)
  have "\<exists>r. maxBlockCumulativeSize c h = Some r \<and> unat r = 1000000 + unat h * 102400 div 262800"
    if "unat h < 2 ^ 32" for h
  proof -
    define q where "q = unat h * 102400 div 262800"
    have "unat h * 102400 < 2 ^ 64" using that by simp
    then have prod: "unat (h * 102400) = unat h * 102400" by (simp add: unat_mult_mod)
    then have q: "unat (h * 102400 div 262800) = q" by (simp add: unat_div_eq q_def)
    have "q \<le> unat h * 102400" unfolding q_def by (rule div_le_dividend)
    then have small: "q < 2 ^ 32 * 102400" using that by simp
    then have sum: "unat (1000000 + h * 102400 div 262800) = 1000000 + q" unfolding unat_plus_mod q by simp
    have "h \<le> - 1 div 102400" using that by (simp add: word_le_nat_alt unat_div_eq)
    then show ?thesis using sum unfolding q_def [symmetric]
      by (simp add: maxBlockCumulativeSize_def c word_le_nat_alt)
  qed
  from this [OF assms(2)] this [of height'] show ?thesis
    using assms(2,3) div_le_mono [of "unat height' * 102400" "unat height * 102400" 262800] by fastforce
qed

end
