(* ===== verification/Fusion.thy ===== *)
theory Fusion
  imports Currency "HOL-Library.Multiset"
begin

text \<open>
  Properties of the fusion functions of \<^verbatim>\<open>src/CryptoNoteCore/Currency.cpp\<close> and of
  \<open>is_valid_decomposed_amount\<close>: the table of round amounts, binary search in it, and what a fusion
  transaction conserves.
\<close>

section \<open>The table of round amounts\<close>

lemma PRETTY_AMOUNTS_eq:
  "PRETTY_AMOUNTS = concat (map (\<lambda>k. map (\<lambda>d. of_nat (d * 10 ^ k)) [1..<10]) [0..<19]) @ [of_nat (10 ^ 19)]"
  by (simp add: PRETTY_AMOUNTS_def upt_rec)

lemma length_PRETTY_AMOUNTS: "length PRETTY_AMOUNTS = 172"
  by (simp add: PRETTY_AMOUNTS_def)

lemma round_amount_bound:
  fixes d k :: nat
  assumes "1 \<le> d" "d \<le> 9" "d * 10 ^ k < 2 ^ 64"
  shows "k < 19 \<or> (k = 19 \<and> d = 1)"
proof (rule ccontr)
  assume "\<not> ?thesis"
  then have "k = 19 \<and> 2 \<le> d \<or> 20 \<le> k" using assms(1) by auto
  moreover have "(2 ^ 64 :: nat) \<le> d * 10 ^ k" if "20 \<le> k"
  proof -
    have "(10::nat) ^ 20 \<le> 10 ^ k" using that by (intro power_increasing) simp_all
    also have "\<dots> \<le> d * 10 ^ k" using assms(1) by simp
    finally show ?thesis by simp
  qed
  moreover have "(2 ^ 64 :: nat) \<le> d * 10 ^ 19" if "2 \<le> d"
    using mult_le_mono1 [OF that, of "10 ^ 19"] by simp
  ultimately show False using assms(3) by auto
qed

lemma PRETTY_AMOUNTS_nth:
  assumes "1 \<le> d" "d \<le> 9" "k < 19"
  shows "PRETTY_AMOUNTS ! (9 * k + d - 1) = of_nat (d * 10 ^ k)" "9 * k + d - 1 < 171"
proof -
  have block: "concat (map (\<lambda>k. map (\<lambda>d. f d k) [1..<10]) [0..<n]) ! (9 * k + d - 1) = f d k"
    if "k < n" "1 \<le> d" "d \<le> 9" for n and f :: "nat \<Rightarrow> nat \<Rightarrow> uint64"
    using that
  proof (induction n)
    case (Suc n)
    have len: "length (concat (map (\<lambda>k. map (\<lambda>d. f d k) [1..<10]) [0..<n])) = 9 * n"
      by (simp add: length_concat comp_def sum_list_triv)
    show ?case
    proof (cases "k = n")
      case True
      have "[Suc 0..<10] ! (d - Suc 0) = d" using Suc.prems(2,3) by (subst nth_upt) simp_all
      moreover have "\<not> 9 * n + d - Suc 0 < 9 * n" using Suc.prems(2) by linarith
      ultimately show ?thesis using True Suc.prems len by (simp add: nth_append del: upt_rec_numeral)
    next
      case False
      then have "k < n" using Suc.prems(1) by simp
      moreover from this have "9 * k + d - 1 < 9 * n" using Suc.prems(3) by linarith
      ultimately show ?thesis using Suc len by (simp add: nth_append del: upt_rec_numeral)
    qed
  qed simp
  show idx: "9 * k + d - 1 < 171" using assms by linarith
  have len: "length (concat (map (\<lambda>k. map (\<lambda>d. of_nat (d * 10 ^ k) :: uint64) [1..<10]) [0..<19])) = 171"
    by (simp add: length_concat comp_def sum_list_triv del: upt_rec_numeral)
  show "PRETTY_AMOUNTS ! (9 * k + d - 1) = of_nat (d * 10 ^ k)"
    unfolding PRETTY_AMOUNTS_eq nth_append len using idx block [OF assms(3,1,2), of "\<lambda>d k. of_nat (d * 10 ^ k)"] by (simp only: if_True)
qed

lemma sorted_PRETTY_AMOUNTS: "sorted_wrt (<) PRETTY_AMOUNTS"
  unfolding PRETTY_AMOUNTS_def by (simp add: sorted_wrt2_simps del: sorted_wrt.simps(2))

section \<open>Binary search\<close>

lemma lower_bound_nth:
  assumes "sorted_wrt (<) xs" "i < length xs"
  shows "lower_bound xs (xs ! i) = i"
proof -
  have "takeWhile (\<lambda>x. x < xs ! i) (take i xs @ drop i xs) = take i xs @ takeWhile (\<lambda>x. x < xs ! i) (drop i xs)"
    using assms by (intro takeWhile_append2) (auto simp: in_set_conv_nth sorted_wrt_iff_nth_less)
  also have "takeWhile (\<lambda>x. x < xs ! i) (drop i xs) = []"
    using assms(2) by (simp add: Cons_nth_drop_Suc [symmetric])
  finally show ?thesis using assms(2) by (simp add: lower_bound_def)
qed

lemma lower_bound_found:
  assumes "sorted_wrt (<) xs"
  shows "\<not> (lower_bound xs a = length xs \<or> a \<noteq> xs ! lower_bound xs a) \<longleftrightarrow> a \<in> set xs"
proof
  assume "a \<in> set xs"
  then obtain i where "i < length xs" "xs ! i = a" by (auto simp: in_set_conv_nth)
  then show "\<not> (lower_bound xs a = length xs \<or> a \<noteq> xs ! lower_bound xs a)" using lower_bound_nth [OF assms] by auto
next
  assume "\<not> (lower_bound xs a = length xs \<or> a \<noteq> xs ! lower_bound xs a)"
  moreover have "lower_bound xs a \<le> length xs" by (simp add: lower_bound_def length_takeWhile_le)
  ultimately show "a \<in> set xs" by (metis le_neq_implies_less nth_mem)
qed

lemma round_amount_index:
  assumes "1 \<le> d" "d \<le> 9" "unat a = d * 10 ^ k"
  shows "a \<in> set PRETTY_AMOUNTS" "lower_bound PRETTY_AMOUNTS a = 9 * k + d - 1"
proof -
  have a: "a = of_nat (d * 10 ^ k)" unfolding assms(3) [symmetric] by simp
  have "d * 10 ^ k < 2 ^ 64" using unsigned_less [of a, where ?'a = nat] assms(3) by simp
  from round_amount_bound [OF assms(1,2) this] have "PRETTY_AMOUNTS ! (9 * k + d - 1) = a \<and> 9 * k + d - 1 < length PRETTY_AMOUNTS"
  proof
    assume "k < 19"
    from PRETTY_AMOUNTS_nth [OF assms(1,2) this] show ?thesis by (simp add: a length_PRETTY_AMOUNTS)
  next
    assume "k = 19 \<and> d = 1"
    then show ?thesis by (simp add: a length_PRETTY_AMOUNTS PRETTY_AMOUNTS_def)
  qed
  then show "a \<in> set PRETTY_AMOUNTS" "lower_bound PRETTY_AMOUNTS a = 9 * k + d - 1"
    using lower_bound_nth [OF sorted_PRETTY_AMOUNTS] by auto
qed

lemma round_amounts:
  assumes "a \<in> set PRETTY_AMOUNTS"
  shows "\<exists>d k. 1 \<le> d \<and> d \<le> 9 \<and> k \<le> 19 \<and> unat a = d * 10 ^ k"
proof -
  consider k d where "k < 19" "1 \<le> d" "d \<le> 9" "a = of_nat (d * 10 ^ k)" | "a = of_nat (10 ^ 19)"
    using assms unfolding PRETTY_AMOUNTS_eq by (auto simp del: upt_rec_numeral of_nat_mult of_nat_power)
  then show ?thesis
  proof cases
    case 1
    have "(10::nat) ^ k \<le> 10 ^ 18" using 1(1) by (intro power_increasing) simp_all
    then have "d * 10 ^ k \<le> 9 * 10 ^ 18" using 1(3) by (intro mult_le_mono)
    then have "unat a = d * 10 ^ k" unfolding 1(4) by (intro unat_of_nat_small) simp
    with 1 show ?thesis by (intro exI [of _ d] exI [of _ k]) simp
  next
    case 2
    then show ?thesis by (intro exI [of _ 1] exI [of _ 19]) simp
  qed
qed

text \<open>The search in the table of 172 round amounts decides exactly whether an amount is a digit
  from 1 to 9 times a power of ten, and for a fusion input the reported exponent is that power.\<close>

lemma pretty_amount_exact:
  "(is_valid_decomposed_amount a \<longleftrightarrow> (\<exists>d k. 1 \<le> d \<and> d \<le> 9 \<and> unat a = d * 10 ^ k)) \<and>
   (isAmountApplicableInFusionTransactionInput c a threshold height = Some p \<longleftrightarrow>
     a < threshold \<and> \<not> (unat height < 2 \<and> a < m_defaultDustThreshold c) \<and>
     (\<exists>d. 1 \<le> d \<and> d \<le> 9 \<and> unat a = d * 10 ^ unat p))"
proof -
  have mem: "a \<in> set PRETTY_AMOUNTS \<longleftrightarrow> (\<exists>d k. 1 \<le> d \<and> d \<le> 9 \<and> unat a = d * 10 ^ k)"
    using round_amounts [of a] round_amount_index(1) by blast
  have index: "p = of_nat (lower_bound PRETTY_AMOUNTS a div 9) \<longleftrightarrow> (\<exists>d. 1 \<le> d \<and> d \<le> 9 \<and> unat a = d * 10 ^ unat p)"
    if pretty: "a \<in> set PRETTY_AMOUNTS"
  proof -
    obtain d k where dk: "1 \<le> d" "d \<le> 9" "k \<le> 19" "unat a = d * 10 ^ k" using round_amounts [OF pretty] by blast
    have div: "(9 * k' + d' - 1) div 9 = k'" if "1 \<le> d'" "d' \<le> 9" for d' k' :: nat using that by linarith
    have k: "unat (of_nat (lower_bound PRETTY_AMOUNTS a div 9) :: uint8) = k"
      using round_amount_index(2) [OF dk(1,2,4)] div [OF dk(1,2)] dk(3) by (simp add: unat_of_nat_small)
    show ?thesis
    proof
      assume "p = of_nat (lower_bound PRETTY_AMOUNTS a div 9)"
      then show "\<exists>d. 1 \<le> d \<and> d \<le> 9 \<and> unat a = d * 10 ^ unat p" using k dk by metis
    next
      assume "\<exists>d. 1 \<le> d \<and> d \<le> 9 \<and> unat a = d * 10 ^ unat p"
      then obtain d' where d': "1 \<le> d'" "d' \<le> 9" "unat a = d' * 10 ^ unat p" by blast
      then have "lower_bound PRETTY_AMOUNTS a div 9 = unat p"
        using round_amount_index(2) [OF d'] div [OF d'(1,2)] by simp
      then show "p = of_nat (lower_bound PRETTY_AMOUNTS a div 9)" by simp
    qed
  qed
  have "ucast height < UPGRADE_HEIGHT_V3 \<longleftrightarrow> unat height < 2"
    by (simp add: word_less_nat_alt unat_ucast_up UPGRADE_HEIGHT_V3_def)
  moreover have "is_valid_decomposed_amount a \<longleftrightarrow> a \<in> set PRETTY_AMOUNTS"
    unfolding is_valid_decomposed_amount_def Let_def by (rule lower_bound_found [OF sorted_PRETTY_AMOUNTS])
  ultimately show ?thesis
    using mem index lower_bound_found [OF sorted_PRETTY_AMOUNTS, of a]
    by (auto simp: isAmountApplicableInFusionTransactionInput_def Let_def)
qed

section \<open>What a fusion transaction conserves\<close>

lemma fusion_inputs_loop_Some:
  "fusion_inputs_loop t as s = Some r \<longleftrightarrow> list_all (\<lambda>a. t \<le> a) as \<and> r = s + sum_list as"
  by (induction as arbitrary: s) (auto simp: not_less add.assoc)

text \<open>C34: A fusion transaction only merges: when its inputs do not overflow, what the check accepts has
  inputs of at least the dust threshold, at least as many of them as the minimum and as the ratio times
  the outputs require, and outputs in ascending order whose sum is exactly the sum of the inputs, so
  it pays no fee.\<close>

theorem fusion_conserves_amount:
  assumes "isFusionTransaction_amounts c ins outs txSize" "(\<Sum>a\<leftarrow>ins. unat a) < 2 ^ 64"
    and "length ins < 2 ^ 64" "length outs * unat (m_fusionTxMinInOutCountRatio c) < 2 ^ 64"
  shows "(\<Sum>a\<leftarrow>outs. unat a) = (\<Sum>a\<leftarrow>ins. unat a) \<and> sorted outs \<and>
    list_all (\<lambda>a. m_defaultDustThreshold c \<le> a) ins \<and> unat (m_fusionTxMinInputCount c) \<le> length ins \<and>
    length outs * unat (m_fusionTxMinInOutCountRatio c) \<le> length ins \<and> txSize \<le> m_fusionTxMaxSize c"
proof -
  let ?r = "m_fusionTxMinInOutCountRatio c"
  obtain s where accepted: "\<not> m_fusionTxMaxSize c < txSize" "\<not> (of_nat (length ins) :: uint64) < m_fusionTxMinInputCount c"
    "\<not> (of_nat (length ins) :: uint64) < of_nat (length outs) * ?r"
    and s: "fusion_inputs_loop (m_defaultDustThreshold c) ins 0 = Some s"
    and outs: "outs = sort (decomposeAmount s (m_defaultDustThreshold c))"
    using assms(1) by (auto simp: isFusionTransaction_amounts_def split: if_splits option.splits)
  have "(\<Sum>a\<leftarrow>outs. unat a) = (\<Sum>a\<leftarrow>decomposeAmount s (m_defaultDustThreshold c). unat a)"
    unfolding outs by (metis mset_map mset_sort sum_mset_sum_list)
  also have "\<dots> = unat s" using decompose_total [of s "m_defaultDustThreshold c"] by blast
  also have "\<dots> = (\<Sum>a\<leftarrow>ins. unat a)"
    using s unat_sum_list_exact [of "\<lambda>a. a" ins] assms(2) by (simp add: fusion_inputs_loop_Some)
  finally have sum: "(\<Sum>a\<leftarrow>outs. unat a) = (\<Sum>a\<leftarrow>ins. unat a)" .
  have len: "unat (of_nat (length ins) :: uint64) = length ins" using assms(3) by (simp add: unat_of_nat_small)
  have "unat (of_nat (length outs) * ?r) = length outs * unat ?r"
  proof (cases "?r = 0")
    case False
    then have "1 \<le> unat ?r" by (simp add: unat_gt_0 Suc_le_eq)
    then have "length outs \<le> length outs * unat ?r" by simp
    then have "length outs < 2 ^ 64" using assms(4) by linarith
    then show ?thesis using assms(4) by (simp add: unat_mult_mod unat_of_nat_small)
  qed simp
  then show ?thesis
    using accepted len sum s outs by (simp add: word_less_nat_alt word_le_nat_alt fusion_inputs_loop_Some not_less)
qed

theorem fusion_conserves_amount_witness:
  "\<exists>c. CurrencyBuilder_new = Some c \<and>
    (\<Sum>a\<leftarrow>[600 :: uint64]. unat a) = (\<Sum>a\<leftarrow>[50, 50, 50, 50, 50, 50, 50, 50, 50, 50, 50, 50 :: uint64]. unat a) \<and> sorted [600 :: uint64] \<and>
    list_all (\<lambda>a. m_defaultDustThreshold c \<le> a) [50, 50, 50, 50, 50, 50, 50, 50, 50, 50, 50, 50 :: uint64] \<and> 1 * unat (m_fusionTxMinInOutCountRatio c) \<le> 12"
proof -
  obtain c where c: "CurrencyBuilder_new = Some c" "m_fusionTxMaxSize c = 48800" "m_fusionTxMinInputCount c = 12"
    "m_fusionTxMinInOutCountRatio c = 4" "m_defaultDustThreshold c = 10"
    by (simp add: CurrencyBuilder_new_def set_difficultyWindow_def set_upgradeVotingThreshold_def set_upgradeWindow_def
        set_numberOfDecimalPlaces_def config)
  have "decomposeAmount 600 10 = [600]" by code_simp
  then have acc: "isFusionTransaction_amounts c [50, 50, 50, 50, 50, 50, 50, 50, 50, 50, 50, 50 :: uint64] [600] 2000"
    by (simp add: isFusionTransaction_amounts_def c)
  have "(\<Sum>a\<leftarrow>[600 :: uint64]. unat a) = (\<Sum>a\<leftarrow>[50, 50, 50, 50, 50, 50, 50, 50, 50, 50, 50, 50 :: uint64]. unat a) \<and> sorted [600 :: uint64] \<and>
      list_all (\<lambda>a. m_defaultDustThreshold c \<le> a) [50, 50, 50, 50, 50, 50, 50, 50, 50, 50, 50, 50 :: uint64] \<and>
      unat (m_fusionTxMinInputCount c) \<le> length ([50, 50, 50, 50, 50, 50, 50, 50, 50, 50, 50, 50 :: uint64]) \<and>
      length [600 :: uint64] * unat (m_fusionTxMinInOutCountRatio c) \<le> length ([50, 50, 50, 50, 50, 50, 50, 50, 50, 50, 50, 50 :: uint64]) \<and>
      2000 \<le> m_fusionTxMaxSize c"
    by (rule fusion_conserves_amount [OF acc]) (simp_all add: c)
  with c show ?thesis by (intro exI [of _ c]) simp
qed

end
