(* ===== verification/CurrencyAmount.thy ===== *)
theory CurrencyAmount
  imports Currency
begin

text \<open>
  \<^verbatim>\<open>src/CryptoNoteCore/Currency.cpp\<close>: amounts as text with a decimal point. \<open>trim\<close> stands for
  \<open>boost::algorithm::trim\<close> and is a parameter; \<open>isdigit\<close> and the stream extraction of
  \<open>Common::fromString\<close> are those of \<open>StringTools\<close>.
\<close>

section \<open>Operations\<close>

definition formatAmount :: "Currency \<Rightarrow> uint64 \<Rightarrow> string" where
  "formatAmount c amnt =
     (let s = to_string (unat amnt);
          n = unat (m_numberOfDecimalPlaces c);
          s = (if length s < n + 1 then replicate (n + 1 - length s) CHR ''0'' @ s else s)
      in take (length s - n) s @ ''.'' @ drop (length s - n) s)"

definition formatAmount_int64 :: "Currency \<Rightarrow> uint64 \<Rightarrow> string" where
  "formatAmount_int64 c amnt =
     (let s = formatAmount c (of_int \<bar>sint amnt\<bar>) in if sint amnt < 0 then ''-'' @ s else s)"

text \<open>The loop that drops zeros after the last decimal place.\<close>

function drop_zeros :: "nat \<Rightarrow> nat \<Rightarrow> string \<Rightarrow> nat \<times> string" where
  "drop_zeros n fractionSize s =
     (if n < fractionSize \<and> last s = CHR ''0'' then drop_zeros n (fractionSize - 1) (butlast s) else (fractionSize, s))"
  by pat_completeness auto
termination by (relation "measure (\<lambda>(n, f, s). f)") auto

declare drop_zeros.simps [simp del]

definition parseAmount :: "(string \<Rightarrow> string) \<Rightarrow> Currency \<Rightarrow> string \<Rightarrow> uint64 option" where
  "parseAmount trim c str =
     (let strAmount = trim str;
          n = unat (m_numberOfDecimalPlaces c);
          pointIndex = length (takeWhile (\<lambda>ch. ch \<noteq> CHR ''.'') strAmount);
          point = (if pointIndex < length strAmount
            then
              let (fractionSize, s) = drop_zeros n (length strAmount - pointIndex - 1) strAmount
              in if n < fractionSize then None else Some (fractionSize, take pointIndex s @ drop (pointIndex + 1) s)
            else Some (0, strAmount))
      in case point of
        None \<Rightarrow> None
      | Some (fractionSize, s) \<Rightarrow>
          if s = [] then None
          else if \<not> list_all isdigit s then None
          else fromString_uint64 (if fractionSize < n then s @ replicate (n - fractionSize) CHR ''0'' else s))"

section \<open>Reading and printing\<close>

lemma isdigit_not_special: "isdigit ch \<Longrightarrow> \<not> isspace ch \<and> ch \<noteq> CHR ''.'' \<and> ch \<noteq> CHR ''-'' \<and> ch \<noteq> CHR ''+''"
  by (auto simp: isdigit_def isspace_def)

lemma fromString_digits:
  assumes "list_all isdigit s" "s \<noteq> []"
  shows "fromString_uint64 s = (if decimal_value s < 2 ^ 64 then Some (of_nat (decimal_value s)) else None)"
proof -
  obtain a t where s: "s = a # t" using assms(2) by (cases s) auto
  then have "dropWhile isspace s = s" "hd s \<noteq> CHR ''-''" "hd s \<noteq> CHR ''+''"
    using assms(1) isdigit_not_special [of a] by simp_all
  moreover have tw: "takeWhile isdigit s = s" using assms(1) by (simp add: list_all_iff)
  ultimately show ?thesis using assms(2) unfolding fromString_uint64_def Let_def by (simp add: not_less tw)
qed

lemma isdigit_zero: "isdigit CHR ''0''"
  by (simp add: isdigit_def)

text \<open>The loop drops all digits after the last decimal place if they are zeros, else some of them are left.\<close>

lemma drop_zeros_spec:
  "\<exists>zs. drop_zeros n (length ys) (pre @ ys) = (length zs, pre @ zs) \<and>
     (if list_all (\<lambda>ch. ch = CHR ''0'') (drop n ys) then zs = take n ys else n < length zs)"
proof (induction ys rule: rev_induct)
  case Nil
  then show ?case by (subst drop_zeros.simps) simp
next
  case (snoc y ys)
  show ?case
  proof (cases "n < Suc (length ys) \<and> y = CHR ''0''")
    case True
    then have "drop_zeros n (length (ys @ [y])) (pre @ ys @ [y]) = drop_zeros n (length ys) (pre @ ys)"
      by (subst drop_zeros.simps) (simp add: butlast_append)
    moreover have "list_all (\<lambda>ch. ch = CHR ''0'') (drop n (ys @ [y])) = list_all (\<lambda>ch. ch = CHR ''0'') (drop n ys)" "take n (ys @ [y]) = take n ys"
      using True by simp_all
    ultimately show ?thesis using snoc by (simp only:)
  next
    case False
    then have "drop_zeros n (length (ys @ [y])) (pre @ ys @ [y]) = (length (ys @ [y]), pre @ ys @ [y])"
      by (subst drop_zeros.simps) auto
    then show ?thesis using False by (cases "n < Suc (length ys)") (auto intro: exI [of _ "ys @ [y]"])
  qed
qed

text \<open>The digits of a text are those before the point and the decimal places after it.\<close>

lemma parseAmount_exact:
  assumes n: "n = unat (m_numberOfDecimalPlaces c)" and xs: "xs = takeWhile (\<lambda>ch. ch \<noteq> CHR ''.'') (trim str)"
    and ys: "ys = drop (length xs + 1) (trim str)" and v: "v = decimal_value (xs @ take n ys) * 10 ^ (n - length ys)"
  shows "parseAmount trim c str =
    (if xs @ take n ys \<noteq> [] \<and> list_all isdigit (xs @ take n ys) \<and> list_all (\<lambda>ch. ch = CHR ''0'') (drop n ys) \<and> v < 2 ^ 64
     then Some (of_nat v) else None)"
proof -
  define w where "w = take n ys"
  define t where "t = xs @ w"
  define u where "u = (if length w < n then t @ replicate (n - length w) CHR ''0'' else t)"
  have "decimal_value u = v" using decimal_value_append [of t "replicate (n - length ys) CHR ''0''"] by (auto simp: u_def v t_def w_def)
  moreover have "list_all isdigit t \<Longrightarrow> t \<noteq> [] \<Longrightarrow> list_all isdigit u \<and> u \<noteq> []" using isdigit_zero by (auto simp: u_def list_all_iff)
  ultimately have val: "(if t = [] then None else if \<not> list_all isdigit t then None else fromString_uint64 u) =
      (if t \<noteq> [] \<and> list_all isdigit t \<and> v < 2 ^ 64 then Some (of_nat v) else None)"
    using fromString_digits [of u] by auto
  show ?thesis
  proof (cases "length xs < length (trim str)")
    case False
    then have xt: "xs = trim str" unfolding xs by (metis length_takeWhile_le le_less takeWhile_eq_take take_all_iff not_less)
    then have yt: "ys = []" "t = trim str" "u = (if 0 < n then trim str @ replicate n CHR ''0'' else trim str)" by (simp_all add: ys t_def u_def w_def)
    show ?thesis using val False unfolding parseAmount_def Let_def xs [symmetric] n [symmetric] yt by (auto simp: xt split: if_splits)
  next
    case True
    then have at: "trim str ! length xs = CHR ''.''" using nth_length_takeWhile [of _ "trim str"] by (auto simp: xs)
    have whole: "trim str = (xs @ ''.'') @ ys"
      using id_take_nth_drop [OF True] at unfolding ys by (simp add: xs takeWhile_eq_take [symmetric])
    then have len: "length (trim str) - length xs - 1 = length ys" by simp
    obtain zs where zs: "drop_zeros n (length ys) (trim str) = (length zs, (xs @ ''.'') @ zs)"
      "if list_all (\<lambda>ch. ch = CHR ''0'') (drop n ys) then zs = take n ys else n < length zs"
      using drop_zeros_spec [of n ys "xs @ ''.''"] unfolding whole by blast
    show ?thesis
    proof (cases "list_all (\<lambda>ch. ch = CHR ''0'') (drop n ys)")
      case False
      then show ?thesis using True zs unfolding parseAmount_def Let_def xs [symmetric] n [symmetric] len by simp
    next
      case zeros: True
      then have w: "zs = w" "\<not> n < length w" using zs(2) by (simp_all add: w_def)
      then have "parseAmount trim c str = (if t = [] then None else if \<not> list_all isdigit t then None else fromString_uint64 u)"
        using True unfolding parseAmount_def Let_def xs [symmetric] n [symmetric] len zs(1) u_def t_def by simp
      then show ?thesis using zeros unfolding val w_def [symmetric] t_def [symmetric] by simp
    qed
  qed
qed

lemma formatAmount_parts:
  obtains xs ys where "formatAmount c a = xs @ ''.'' @ ys" "list_all isdigit xs" "list_all isdigit ys" "xs \<noteq> []"
    "length ys = unat (m_numberOfDecimalPlaces c)" "decimal_value (xs @ ys) = unat a"
proof -
  let ?n = "unat (m_numberOfDecimalPlaces c)" and ?s = "to_string (unat a)"
  define s where "s = (if length ?s < ?n + 1 then replicate (?n + 1 - length ?s) CHR ''0'' @ ?s else ?s)"
  have "list_all isdigit s" using to_string_digits [of "unat a"] isdigit_zero by (auto simp: s_def list_all_iff)
  then have digits: "list_all isdigit (take k s)" "list_all isdigit (drop k s)" for k
    by (auto simp: list_all_iff dest: in_set_takeD in_set_dropD)
  have n: "?n < length s" by (simp add: s_def)
  let ?xs = "take (length s - ?n) s" and ?ys = "drop (length s - ?n) s"
  have "formatAmount c a = ?xs @ ''.'' @ ?ys" by (simp only: formatAmount_def Let_def s_def)
  moreover have "?xs \<noteq> []" "length ?ys = ?n" using n by auto
  moreover have "decimal_value (?xs @ ?ys) = unat a"
    unfolding append_take_drop_id by (simp add: s_def decimal_value_append)
  ultimately show ?thesis by (intro that [OF _ digits])
qed

text \<open>C35: Reading an amount is exact and undoes printing it. Take the text before the first point and, after the
  point, as many characters as the currency has decimals: the text is read if these are digits, at least
  one, everything further behind is zeros and the value in atomic units fits 64 bits; the result is this
  value. Any other text is refused. A text without a point counts as one with the point at its end. Every
  amount is read back from its printed form; for this the trimming of white space is assumed to leave a
  text that does not start or end with it as it is.\<close>

theorem amount_text_roundtrip:
  assumes "\<And>s. s \<noteq> [] \<Longrightarrow> \<not> isspace (hd s) \<Longrightarrow> \<not> isspace (last s) \<Longrightarrow> trim s = s"
  shows "parseAmount trim c (formatAmount c a) = Some a \<and>
    parseAmount trim c str =
      (let n = unat (m_numberOfDecimalPlaces c); xs = takeWhile (\<lambda>ch. ch \<noteq> CHR ''.'') (trim str); ys = drop (length xs + 1) (trim str);
           v = decimal_value (xs @ take n ys) * 10 ^ (n - length ys)
       in if xs @ take n ys \<noteq> [] \<and> list_all isdigit (xs @ take n ys) \<and> list_all (\<lambda>ch. ch = CHR ''0'') (drop n ys) \<and> v < 2 ^ 64
          then Some (of_nat v) else None)"
proof -
  obtain us vs where f: "formatAmount c a = us @ ''.'' @ vs" "list_all isdigit us" "list_all isdigit vs" "us \<noteq> []"
    "length vs = unat (m_numberOfDecimalPlaces c)" "decimal_value (us @ vs) = unat a"
    using formatAmount_parts .
  have "\<not> isspace (hd (us @ ''.'' @ vs))" using f(2,4) isdigit_not_special by (cases us) auto
  moreover have "\<not> isspace (last (us @ ''.'' @ vs))"
    using f(3) isdigit_not_special by (cases vs rule: rev_cases) (auto simp: isspace_def)
  ultimately have trim: "trim (us @ ''.'' @ vs) = us @ ''.'' @ vs" by (intro assms) simp_all
  have point: "takeWhile (\<lambda>ch. ch \<noteq> CHR ''.'') (us @ ''.'' @ vs) = us"
    using f(2) isdigit_not_special by (subst takeWhile_append2) (auto simp: list_all_iff)
  have "parseAmount trim c (formatAmount c a) = Some a"
    using parseAmount_exact [OF refl refl refl refl, of trim c "us @ ''.'' @ vs"] f unfolding trim point by simp
  then show ?thesis using parseAmount_exact [OF refl refl refl refl, of trim c str] by (simp only: Let_def simp_thms)
qed

definition trim_spaces :: "string \<Rightarrow> string" where
  "trim_spaces s = rev (dropWhile isspace (rev (dropWhile isspace s)))"

theorem amount_text_roundtrip_witness:
  "\<exists>c. CurrencyBuilder_new = Some c \<and> parseAmount trim_spaces c (formatAmount c 1234567) = Some 1234567 \<and>
    parseAmount trim_spaces c ''3.25'' = Some 325000 \<and> parseAmount trim_spaces c '' 3.2500000'' = Some 325000 \<and>
    parseAmount trim_spaces c ''3.2500001'' = None \<and> parseAmount trim_spaces c ''7'' = Some 700000 \<and> parseAmount trim_spaces c ''.'' = None"
proof -
  obtain c where c: "CurrencyBuilder_new = Some c" "m_numberOfDecimalPlaces c = 5"
    by (simp add: CurrencyBuilder_new_def set_difficultyWindow_def set_upgradeVotingThreshold_def set_upgradeWindow_def
        set_numberOfDecimalPlaces_def config)
  have trim: "trim_spaces s = s" if "s \<noteq> []" "\<not> isspace (hd s)" "\<not> isspace (last s)" for s
    using that by (simp add: trim_spaces_def dropWhile_eq_self_iff [THEN iffD2] hd_rev)
  note parse = amount_text_roundtrip [where trim = trim_spaces, OF trim]
  have "parseAmount trim_spaces c (formatAmount c 1234567) = Some 1234567"
    using parse by blast
  moreover have "parseAmount trim_spaces c ''3.25'' = Some 325000" "parseAmount trim_spaces c '' 3.2500000'' = Some 325000"
      "parseAmount trim_spaces c ''3.2500001'' = None" "parseAmount trim_spaces c ''7'' = Some 700000" "parseAmount trim_spaces c ''.'' = None"
    using parse [of c 0 "''3.25''"] parse [of c 0 "'' 3.2500000''"] parse [of c 0 "''3.2500001''"] parse [of c 0 "''7''"] parse [of c 0 "''.''"]
    by (simp_all add: c(2) trim_spaces_def isspace_def isdigit_def decimal_value_def char_digit_def)
  ultimately show ?thesis using c(1) by blast
qed

end
