(* ===== verification/NextDifficulty.thy ===== *)
theory NextDifficulty
  imports Currency
begin

text \<open>
  \<^verbatim>\<open>src/CryptoNoteCore/Currency.cpp\<close>: the two difficulty algorithms, \<open>nextDifficulty\<close> over a sorted and
  trimmed window and \<open>nextDifficultyLWMA3\<close> with linear weights. A failed assertion or a division by
  zero is \<open>None\<close>.
\<close>

section \<open>Operations\<close>

definition resize :: "nat \<Rightarrow> uint64 list \<Rightarrow> uint64 list" where
  "resize n xs = take n xs @ replicate (n - length xs) 0"

definition difficulty_cut :: "Currency \<Rightarrow> uint64 \<Rightarrow> uint64 \<times> uint64" where
  "difficulty_cut c len =
     (if len \<le> m_difficultyWindow c - 2 * m_difficultyCut c then (0, len)
      else
        let cutBegin = (len - (m_difficultyWindow c - 2 * m_difficultyCut c) + 1) div 2
        in (cutBegin, cutBegin + (m_difficultyWindow c - 2 * m_difficultyCut c)))"

definition nextDifficulty :: "Currency \<Rightarrow> uint64 list \<Rightarrow> uint64 list \<Rightarrow> uint64 option" where
  "nextDifficulty c timestamps cumulativeDifficulties =
     (if \<not> 2 \<le> m_difficultyWindow c then None
      else
        let (timestamps, cumulativeDifficulties) =
              (if m_difficultyWindow c < of_nat (length timestamps)
               then (resize (unat (m_difficultyWindow c)) timestamps, resize (unat (m_difficultyWindow c)) cumulativeDifficulties)
               else (timestamps, cumulativeDifficulties));
            len = of_nat (length timestamps) :: uint64
        in
        if len \<noteq> of_nat (length cumulativeDifficulties) then None
        else if \<not> len \<le> m_difficultyWindow c then None
        else if len \<le> 1 then Some 1
        else
          let timestamps = sort timestamps in
          if \<not> 2 * m_difficultyCut c \<le> m_difficultyWindow c - 2 then None
          else
            let (cutBegin, cutEnd) = difficulty_cut c len in
            if \<not> (cutBegin + 2 \<le> cutEnd \<and> cutEnd \<le> len) then None
            else
              let timeSpan = timestamps ! unat (cutEnd - 1) - timestamps ! unat cutBegin;
                  timeSpan = (if timeSpan = 0 then 1 else timeSpan);
                  totalWork = cumulativeDifficulties ! unat (cutEnd - 1) - cumulativeDifficulties ! unat cutBegin
              in
              if \<not> 0 < totalWork then None
              else
                let (low, high) = mul128 totalWork (m_difficultyTarget c) in
                if high \<noteq> 0 \<or> low + timeSpan - 1 < low then Some 0
                else Some ((low + timeSpan - 1) div timeSpan))"

text \<open>The loop over the solve times: \<open>i\<close>, the previous timestamp, \<open>L\<close> and \<open>sum_3_ST\<close>.\<close>

fun lwma_loop :: "uint64 \<Rightarrow> uint64 list \<Rightarrow> uint64 \<Rightarrow> uint64 \<Rightarrow> uint64 \<Rightarrow> uint64 \<Rightarrow> uint64 \<times> uint64" where
  "lwma_loop N [] i previous_timestamp L sum_3_ST = (L, sum_3_ST)"
| "lwma_loop N (t # ts) i previous_timestamp L sum_3_ST =
     (let this_timestamp = (if previous_timestamp < t then t else previous_timestamp + 1);
          ST = min (6 * 120) (this_timestamp - previous_timestamp)
      in lwma_loop N ts (i + 1) this_timestamp (L + ST * i) (if N - 3 < i then sum_3_ST + ST else sum_3_ST))"

definition nextDifficultyLWMA3 :: "uint64 list \<Rightarrow> uint64 list \<Rightarrow> uint64 option" where
  "nextDifficultyLWMA3 timestamps cumulative_difficulties =
     (let T = 120; N = 60 in
      if \<not> (length timestamps = length cumulative_difficulties \<and> length timestamps \<le> 61) then None
      else if length timestamps \<le> 10 then Some 100
      else
        let N = (if length timestamps < 61 then of_nat (length timestamps - 1) else N) :: uint64;
            (L, sum_3_ST) = lwma_loop N (take (unat N) (tl timestamps)) 1 (hd timestamps) 0 0
        in
        if 100 * 2 * L = 0 then None
        else
          let next_D = ((cumulative_difficulties ! unat N - cumulative_difficulties ! 0) * T * (N + 1) * 99) div (100 * 2 * L);
              prev_D = cumulative_difficulties ! unat N - cumulative_difficulties ! unat (N - 1);
              next_D = max ((prev_D * 67) div 100) (min next_D ((prev_D * 150) div 100))
          in Some (if sum_3_ST < (8 * T) div 10 then max next_D ((prev_D * 108) div 100) else next_D))"

section \<open>The window algorithm\<close>

lemma resize_take: "n \<le> length xs \<Longrightarrow> resize n xs = take n xs"
  by (simp add: resize_def)

lemma difficulty_cut_bounds:
  assumes window: "2 * unat (m_difficultyCut c) + 2 \<le> unat (m_difficultyWindow c)" "unat (m_difficultyWindow c) < 2 ^ 62"
    and len: "2 \<le> unat len" "unat len \<le> unat (m_difficultyWindow c)"
    and K: "K = unat (m_difficultyWindow c) - 2 * unat (m_difficultyCut c)" and B: "B = (if unat len \<le> K then 0 else (unat len - K + 1) div 2)"
  shows "\<exists>b e. difficulty_cut c len = (b, e) \<and> unat b = B \<and> unat e = B + min (unat len) K \<and> B + 2 \<le> unat e \<and> unat e \<le> unat len"
proof -
  have two: "unat (2 * m_difficultyCut c) = 2 * unat (m_difficultyCut c)"
    using window by (simp add: unat_mult_mod)
  define k where "k = m_difficultyWindow c - 2 * m_difficultyCut c"
  have k: "K = unat k" using window two by (simp add: K k_def unat_sub_mod)
  show ?thesis
  proof (cases "len \<le> k")
    case True
    then have "unat len \<le> unat k" by (simp add: word_le_nat_alt)
    then have "B = 0" "min (unat len) K = unat len" by (simp_all add: B k)
    then show ?thesis using True len by (simp add: difficulty_cut_def k_def)
  next
    case False
    then have lt: "unat k < unat len" by (simp add: word_le_nat_alt)
    define b where "b = (len - k + 1) div 2"
    have "unat (len - k + 1) = unat len - unat k + 1"
      using lt len window by (simp add: unat_plus_mod unat_sub_mod)
    then have b: "unat b = (unat len - unat k + 1) div 2" by (simp add: b_def unat_div_eq)
    then have bB: "B = unat b" using lt by (simp add: B k)
    have bk: "unat b + unat k \<le> unat len" unfolding b using lt by linarith
    then have "unat (b + k) = unat b + unat k" using len window by (intro unat_plus_exact) simp
    moreover have "difficulty_cut c len = (b, b + k)" using False by (simp add: difficulty_cut_def k_def b_def Let_def)
    moreover have "2 \<le> unat k" using window unfolding k [symmetric] K by linarith
    ultimately show ?thesis using bk lt unfolding k bB by simp
  qed
qed

lemma span_exact: "x \<le> y \<Longrightarrow> unat (if y - x = 0 then 1 else y - x) = max 1 (unat y - unat x)" for x y :: uint64
proof -
  assume "x \<le> y"
  then have d: "unat (y - x) = unat y - unat x" by (simp add: word_le_nat_alt unat_sub_mod)
  show ?thesis
  proof (cases "y - x = 0")
    case True
    then show ?thesis using d by simp
  next
    case False
    then have "0 < unat (y - x)" by (rule unat_gt_0 [THEN iffD2])
    then show ?thesis using False d by simp
  qed
qed

lemma round_up_quotient:
  assumes mul: "mul128 work tgt = (lo, hi)" and span: "1 \<le> unat span"
  shows "(if hi \<noteq> 0 \<or> lo + span - 1 < lo then 0 else (lo + span - 1) div span) =
    (let p = unat work * unat tgt in if p + unat span - 1 < 2 ^ 64 then of_nat ((p + unat span - 1) div unat span) else 0)"
proof -
  have p: "unat work * unat tgt = unat hi * 2 ^ 64 + unat lo" using mul128_exact [of work tgt] mul by simp
  show ?thesis
  proof (cases "hi = 0")
    case True
    have s1: "unat (span - 1) = unat span - 1" using span by (simp add: unat_sub_mod)
    have regroup: "lo + span - 1 = lo + (span - 1)" by simp
    show ?thesis
    proof (cases "unat lo + (unat span - 1) < 2 ^ 64")
      case fits: True
      then have sum: "unat (lo + (span - 1)) = unat lo + (unat span - 1)" unfolding s1 [symmetric] by (intro unat_plus_exact) simp
      define q where "q = (unat lo + (unat span - 1)) div unat span"
      have "q < 2 ^ LENGTH(64)" using order_le_less_trans [OF div_le_dividend fits] by (simp add: q_def)
      then have "unat (of_nat q :: uint64) = q" by (rule unat_of_nat_small)
      moreover have "unat ((lo + (span - 1)) div span) = q" by (simp only: unat_div_eq sum q_def)
      ultimately have "(lo + (span - 1)) div span = of_nat q" by (metis word_unat_eq_iff)
      then have "(lo + (span - 1)) div span = of_nat ((unat lo + (unat span - 1)) div unat span)" unfolding q_def .
      moreover have "\<not> lo + (span - 1) < lo" using fits s1 by (simp add: plus_less_iff_overflow)
      ultimately show ?thesis using True p fits span unfolding regroup by (simp add: Let_def)
    next
      case False
      then have "lo + (span - 1) < lo" using s1 by (simp add: plus_less_iff_overflow)
      then show ?thesis using True p False span unfolding regroup by (simp add: Let_def)
    qed
  next
    case False
    then have "1 \<le> unat hi" by (simp add: unat_gt_0 Suc_le_eq)
    then have "1 * 2 ^ 64 \<le> unat hi * 2 ^ 64" by (rule mult_le_mono1)
    then have "\<not> unat work * unat tgt + unat span - 1 < 2 ^ 64" unfolding p using span by simp
    then show ?thesis using False by (simp add: Let_def)
  qed
qed

text \<open>C19: The window difficulty is exact: for parameters with a window of at least two more than the two
  cuts and data of equal length, at least two blocks and strictly increasing cumulative difficulty, no
  assertion fails. Of the blocks in the window, \<open>n\<close> of them, all count if there are at most
  \<open>k\<close>, the window without its two cuts; else \<open>k\<close> of them count, the first of which has the number
  \<open>(n - k + 1) div 2\<close>. The result is the work from the first to the last of these blocks times the
  target time, divided by the time between the timestamps at these places in their order, but at least by
  1, and rounded up, or 0 exactly when that does not fit 64 bits.\<close>

theorem next_difficulty_exact:
  assumes "2 * unat (m_difficultyCut c) + 2 \<le> unat (m_difficultyWindow c)" "unat (m_difficultyWindow c) < 2 ^ 62"
    and "length ts = length cds" "2 \<le> length ts" "length ts < 2 ^ 64" "sorted_wrt (<) cds"
    and "n = min (length ts) (unat (m_difficultyWindow c))" "k = unat (m_difficultyWindow c) - 2 * unat (m_difficultyCut c)"
    and "b = (if n \<le> k then 0 else (n - k + 1) div 2)" "e = b + min n k - 1"
    and "work = unat (cds ! e) - unat (cds ! b)" "span = max 1 (unat (sort (take n ts) ! e) - unat (sort (take n ts) ! b))"
  shows "b < e \<and> e < n \<and> 0 < work \<and> nextDifficulty c ts cds = Some (let p = work * unat (m_difficultyTarget c) in
      if p + span - 1 < 2 ^ 64 then of_nat ((p + span - 1) div span) else 0)"
proof -
  let ?W = "unat (m_difficultyWindow c)"
  define ts' cds' where "ts' = take n ts" and "cds' = take n cds"
  have W: "2 \<le> ?W" "?W < 2 ^ 62" using assms(1,2) by simp_all
  have n: "2 \<le> n" "n \<le> ?W" "n \<le> length ts" using W assms(4) by (simp_all add: assms(7))
  define len :: uint64 where "len = of_nat n"
  have len: "unat len = n" using n W by (simp add: len_def unat_of_nat_small)
  have trimmed: "(if m_difficultyWindow c < of_nat (length ts)
      then (resize (unat (m_difficultyWindow c)) ts, resize (unat (m_difficultyWindow c)) cds) else (ts, cds)) = (ts', cds')"
    using assms(3,5) by (auto simp: word_less_nat_alt unat_of_nat_small resize_take ts'_def cds'_def assms(7))
  have lens: "length ts' = n" "length cds' = n" using n assms(3) by (simp_all add: ts'_def cds'_def)
  obtain cb ce where cut': "difficulty_cut c len = (cb, ce)" "unat cb = b" "unat ce = b + min n k" "b + 2 \<le> unat ce" "unat ce \<le> n"
    using difficulty_cut_bounds [OF assms(1,2) _ _ assms(8), of len b] n assms(9) unfolding len by metis
  then have cut: "difficulty_cut c len = (cb, ce)" "unat cb = b" "unat ce = Suc e" "b < e" "e < n" using assms(10) by linarith+
  have e1: "unat (ce - 1) = e" using cut(3) by (simp add: unat_sub_mod)
  let ?s = "sort ts'"
  define tspan where "tspan = ?s ! unat (ce - 1) - ?s ! unat cb"
  define sp where "sp = (if tspan = 0 then 1 else tspan)"
  define wk where "wk = cds' ! unat (ce - 1) - cds' ! unat cb"
  have "?s ! unat cb \<le> ?s ! unat (ce - 1)"
    using cut lens e1 by (intro sorted_nth_mono) simp_all
  then have span: "unat sp = span"
    unfolding sp_def tspan_def assms(12) by (simp only: span_exact e1 cut(2) ts'_def)
  have "cds ! b < cds ! e"
    using assms(3,6) cut n by (intro sorted_wrt_nth_less [of "(<)" cds]) simp_all
  then have work: "unat wk = work" "0 < work"
    using cut by (auto simp: wk_def cds'_def e1 unat_sub_mod word_less_nat_alt assms(11))
  obtain lo hi where mul: "mul128 wk (m_difficultyTarget c) = (lo, hi)" by fastforce
  have "nextDifficulty c ts cds = Some (if hi \<noteq> 0 \<or> lo + sp - 1 < lo then 0 else (lo + sp - 1) div sp)"
  proof -
    have "unat (cb + 2) = b + 2" using cut n W by (simp add: unat_plus_mod)
    then have "2 \<le> m_difficultyWindow c" "\<not> len \<le> 1" "len \<le> m_difficultyWindow c" "cb + 2 \<le> ce" "ce \<le> len" "0 < wk"
      using W n cut work len by (simp_all add: word_le_nat_alt word_less_nat_alt)
    moreover have "2 * m_difficultyCut c \<le> m_difficultyWindow c - 2"
      using assms(1,2) by (simp add: word_le_nat_alt unat_sub_mod unat_mult_mod)
    ultimately show ?thesis
      unfolding nextDifficulty_def trimmed prod.case Let_def lens len_def [symmetric] cut(1)
      unfolding tspan_def [symmetric] sp_def [symmetric] wk_def [symmetric] mul prod.case
      by simp
  qed
  also have "\<dots> = Some (let p = work * unat (m_difficultyTarget c) in
      if p + span - 1 < 2 ^ 64 then of_nat ((p + span - 1) div span) else 0)"
    unfolding span [symmetric] work(1) [symmetric] using span by (subst round_up_quotient [OF mul]) (simp_all add: assms(12))
  finally show ?thesis using cut(4,5) work(2) by blast
qed

theorem next_difficulty_exact_witness:
  "\<exists>c. CurrencyBuilder_new = Some c \<and> nextDifficulty (c\<lparr>m_difficultyWindow := 6, m_difficultyCut := 1\<rparr>)
     [100, 340, 220, 460, 700, 580, 2000] [10, 20, 35, 50, 70, 90, 900] = Some 17"
proof -
  obtain c where c: "CurrencyBuilder_new = Some c" "m_difficultyTarget c = 120"
    by (simp add: CurrencyBuilder_new_def set_difficultyWindow_def set_upgradeVotingThreshold_def set_upgradeWindow_def
        set_numberOfDecimalPlaces_def config)
  let ?c = "c\<lparr>m_difficultyWindow := 6, m_difficultyCut := 1\<rparr>"
  let ?ts = "[100, 340, 220, 460, 700, 580, 2000] :: uint64 list" and ?cds = "[10, 20, 35, 50, 70, 90, 900] :: uint64 list"
  have s: "sort (take 6 ?ts) = [100, 220, 340, 460, 580, 700]" by simp
  have "1 < (4 :: nat) \<and> 4 < (6 :: nat) \<and> 0 < (50 :: nat) \<and> nextDifficulty ?c ?ts ?cds = Some (let p = 50 * unat (m_difficultyTarget ?c) in
      if p + 360 - 1 < 2 ^ 64 then of_nat ((p + 360 - 1) div 360) else 0)"
    by (rule next_difficulty_exact [where n = 6 and k = 4 and b = 1 and e = 4 and work = 50 and span = 360]) (simp_all add: s)
  then show ?thesis using c by (intro exI [of _ c]) simp
qed

section \<open>The weighted algorithm\<close>

lemma lwma_loop_bounds:
  assumes "\<And>t. t \<in> set ts \<Longrightarrow> unat t < 2 ^ 62" "unat prev + length ts < 2 ^ 63" "0 < unat i" "unat i + length ts \<le> 1000"
    and "unat L + 720000 * length ts < 2 ^ 62" "lwma_loop N ts i prev L s = (L', s')"
  shows "unat L + length ts \<le> unat L' \<and> unat L' \<le> unat L + 720000 * length ts"
  using assms
proof (induction N ts i prev L s rule: lwma_loop.induct)
  case (2 N t ts i prev L s)
  define this' where "this' = (if prev < t then t else prev + 1)"
  define ST where "ST = min (6 * 120) (this' - prev)"
  have t: "unat t < 2 ^ 62" using "2.prems"(1) by simp
  have prev1: "unat (prev + 1) = unat prev + 1" using "2.prems"(2) by (intro unat_plus_exact [THEN trans]) simp_all
  have this': "unat prev < unat this'" "unat this' + length ts < 2 ^ 63"
    using t prev1 "2.prems"(2,4) by (auto simp: this'_def word_less_nat_alt)
  then have "1 \<le> unat (this' - prev)" by (simp add: unat_sub_mod)
  then have ST: "1 \<le> unat ST" "unat ST \<le> 720" by (auto simp: ST_def min_def word_le_nat_alt)
  have i: "unat i \<le> 1000" "unat (i + 1) = unat i + 1"
    using "2.prems"(4) by (simp, intro unat_plus_exact [THEN trans]) simp_all
  have le: "unat ST * unat i \<le> 720 * 1000" using ST(2) i(1) by (rule mult_le_mono)
  have ge: "1 * 1 \<le> unat ST * unat i" using ST(1) "2.prems"(3) by (intro mult_le_mono) simp_all
  have "unat (ST * i) = unat ST * unat i" using le by (simp add: unat_mult_mod)
  then have L: "unat (L + ST * i) = unat L + unat ST * unat i"
    using le "2.prems"(5) by (subst unat_plus_exact) simp_all
  have rec: "lwma_loop N ts (i + 1) this' (L + ST * i) (if N - 3 < i then s + ST else s) = (L', s')"
    using "2.prems"(6) unfolding lwma_loop.simps Let_def this'_def ST_def .
  have "unat (L + ST * i) + length ts \<le> unat L' \<and> unat L' \<le> unat (L + ST * i) + 720000 * length ts"
    by (rule "2.IH" [OF this'_def ST_def _ this'(2) _ _ _ rec])
      (use "2.prems" i L le in simp_all)
  moreover have "a + Suc l \<le> m \<and> m \<le> a + 720000 * Suc l"
    if "a + q + l \<le> m \<and> m \<le> a + q + 720000 * l" "q \<le> 720 * 1000" "1 * 1 \<le> q" for a q l m :: nat
    using that by simp
  ultimately show ?case using le ge unfolding L length_Cons by metis
qed simp

lemma percent_bounds:
  fixes p :: uint64
  assumes "unat p * 150 < 2 ^ 64" "k \<le> 150"
  shows "unat (p * of_nat k div 100) = unat p * k div 100"
proof -
  have "unat p * k \<le> unat p * 150" using assms(2) by simp
  then have "unat p * k < 2 ^ 64" using assms(1) by linarith
  then show ?thesis using assms(2) by (simp add: unat_div_eq unat_mult_mod unat_of_nat_small)
qed

lemma clamp_bounds:
  fixes nx lo hi jump :: "'a::linorder"
  assumes "lo \<le> hi" "lo \<le> jump" "jump \<le> hi"
  shows "lo \<le> (if b then max (max lo (min nx hi)) jump else max lo (min nx hi))"
    "(if b then max (max lo (min nx hi)) jump else max lo (min nx hi)) \<le> hi"
  using assms by (auto simp: le_max_iff_disj)

text \<open>C31: The weighted difficulty algorithm never fails and moves gently: for up to 61 blocks with
  timestamps below 2 to the 62, the sum of weights is never zero, and beyond the first 10 blocks the
  new difficulty is between 67 and 150 percent of the last block's, whatever the timestamps are, as
  long as 150 times that difficulty fits 64 bits.\<close>

theorem lwma_bounded:
  assumes "length ts = length cds" "length ts \<le> 61" "list_all (\<lambda>t. unat t < 2 ^ 62) ts"
    and "10 < length ts \<Longrightarrow> unat (cds ! (length ts - 1) - cds ! (length ts - 2)) * 150 < 2 ^ 64"
  shows "\<exists>r. nextDifficultyLWMA3 ts cds = Some r \<and> (if length ts \<le> 10 then r = 100 else
    let p = unat (cds ! (length ts - 1) - cds ! (length ts - 2)) in p * 67 div 100 \<le> unat r \<and> unat r \<le> p * 150 div 100)"
proof (cases "length ts \<le> 10")
  case True
  then show ?thesis using assms(1,2) by (simp add: nextDifficultyLWMA3_def)
next
  case False
  define N :: uint64 where "N = of_nat (length ts - 1)"
  have N: "unat N = length ts - 1" "unat (N - 1) = length ts - 2" "(if length ts < 61 then of_nat (length ts - 1) else 60) = N"
    using assms(2) False by (auto simp: N_def unat_of_nat_small unat_sub_mod)
  obtain t0 rest where ts: "ts = t0 # rest" using False by (cases ts) auto
  have loop_list: "take (unat N) (tl ts) = rest" "hd ts = t0" using N ts by simp_all
  obtain L s3 where loop: "lwma_loop N rest 1 t0 0 0 = (L, s3)" by fastforce
  have "unat (0 :: uint64) + length rest \<le> unat L \<and> unat L \<le> unat (0 :: uint64) + 720000 * length rest"
    using assms(2,3) ts by (intro lwma_loop_bounds [OF _ _ _ _ _ loop]) (auto simp: list_all_iff)
  then have "unat (100 * 2 * L) \<noteq> 0" using assms(2) False ts by (simp add: unat_mult_mod)
  then have L: "100 * 2 * L \<noteq> 0" by (metis unat_0)
  define p where "p = cds ! unat N - cds ! unat (N - 1)"
  have p: "unat p * 150 < 2 ^ 64" using assms(4) False N by (simp add: p_def)
  define nx where "nx = ((cds ! unat N - cds ! 0) * 120 * (N + 1) * 99) div (100 * 2 * L)"
  define r where "r = (if s3 < (8 * 120) div 10 then max (max (p * 67 div 100) (min nx (p * 150 div 100))) (p * 108 div 100)
      else max (p * 67 div 100) (min nx (p * 150 div 100)))"
  have res: "nextDifficultyLWMA3 ts cds = Some r"
    using False assms(1,2) L unfolding nextDifficultyLWMA3_def Let_def N(3) loop_list loop prod.case
    by (simp add: r_def nx_def p_def)
  have b: "unat (p * 67 div 100) = unat p * 67 div 100" "unat (p * 108 div 100) = unat p * 108 div 100"
    "unat (p * 150 div 100) = unat p * 150 div 100"
    using percent_bounds [OF p, of 67] percent_bounds [OF p, of 108] percent_bounds [OF p, of 150] by simp_all
  have "p * 67 div 100 \<le> p * 150 div 100" "p * 67 div 100 \<le> p * 108 div 100" "p * 108 div 100 \<le> p * 150 div 100"
    unfolding word_le_nat_alt b by (simp_all add: div_le_mono)
  then have "p * 67 div 100 \<le> r" "r \<le> p * 150 div 100"
    unfolding r_def by (rule clamp_bounds)+
  then have "unat p * 67 div 100 \<le> unat r" "unat r \<le> unat p * 150 div 100"
    unfolding word_le_nat_alt b .
  then show ?thesis using res False N unfolding p_def by (simp add: Let_def)
qed

theorem lwma_bounded_witness:
  "\<exists>r. nextDifficultyLWMA3 [0, 1, 2, 3, 4, 5, 6, 7, 8, 9, 10, 11] [0, 9, 18, 27, 36, 45, 54, 63, 72, 81, 90, 1090] = Some r \<and>
    670 \<le> unat r \<and> unat r \<le> 1500"
  using lwma_bounded [of "[0, 1, 2, 3, 4, 5, 6, 7, 8, 9, 10, 11]" "[0, 9, 18, 27, 36, 45, 54, 63, 72, 81, 90, 1090]"]
  by simp

end
