(* ===== verification/BlockIndex.thy ===== *)
theory BlockIndex
  imports CryptoNoteSerialization "HOL-Library.Dlist"
begin

text \<open>
  \<^verbatim>\<open>src/CryptoNoteCore/BlockIndex.h\<close> and \<^verbatim>\<open>BlockIndex.cpp\<close>: the hashes of the main chain by height and
  the heights by hash. The container is a \<open>boost::multi_index_container\<close> with a random access and a
  unique hashed index; it is a parameter of the model, the record \<open>hash_container\<close> of the
  operations the code calls, and the locale \<open>unique_sequence\<close> states what its documentation
  promises. A failed \<open>assert\<close> is \<open>None\<close>.
\<close>

section \<open>The container\<close>

record 'c hash_container =
  mi_push_back :: "'c \<Rightarrow> Hash \<Rightarrow> 'c \<times> bool"
  mi_pop_back :: "'c \<Rightarrow> 'c"
  mi_clear :: "'c \<Rightarrow> 'c"
  mi_size :: "'c \<Rightarrow> nat"
  mi_at :: "'c \<Rightarrow> nat \<Rightarrow> Hash"
  mi_find :: "'c \<Rightarrow> Hash \<Rightarrow> nat option"

text \<open>The documented behaviour: a sequence without repetitions, in which an element already present
  is not inserted again, and whose hashed index finds the position of every element.\<close>

locale unique_sequence =
  fixes C :: "'c hash_container" and elems :: "'c \<Rightarrow> Hash list"
  assumes elems_distinct: "distinct (elems c)"
    and push_new: "h \<notin> set (elems c) \<Longrightarrow> \<exists>c'. mi_push_back C c h = (c', True) \<and> elems c' = elems c @ [h]"
    and push_old: "h \<in> set (elems c) \<Longrightarrow> mi_push_back C c h = (c, False)"
    and pop_elems: "elems c \<noteq> [] \<Longrightarrow> elems (mi_pop_back C c) = butlast (elems c)"
    and clear_elems: "elems (mi_clear C c) = []"
    and size_elems: "mi_size C c = length (elems c)"
    and at_elems: "i < length (elems c) \<Longrightarrow> mi_at C c i = elems c ! i"
    and find_some: "i < length (elems c) \<Longrightarrow> mi_find C c (elems c ! i) = Some i"
    and find_none: "h \<notin> set (elems c) \<Longrightarrow> mi_find C c h = None"

section \<open>Operations\<close>

definition BlockIndex_pop :: "'c hash_container \<Rightarrow> 'c \<Rightarrow> 'c" where
  "BlockIndex_pop C c = mi_pop_back C c"

definition BlockIndex_push :: "'c hash_container \<Rightarrow> 'c \<Rightarrow> Hash \<Rightarrow> 'c \<times> bool" where
  "BlockIndex_push C c h = mi_push_back C c h"

definition hasBlock :: "'c hash_container \<Rightarrow> 'c \<Rightarrow> Hash \<Rightarrow> bool" where
  "hasBlock C c h \<longleftrightarrow> mi_find C c h \<noteq> None"

definition getBlockHeight :: "'c hash_container \<Rightarrow> 'c \<Rightarrow> Hash \<Rightarrow> uint32 option" where
  "getBlockHeight C c h = map_option of_nat (mi_find C c h)"

definition BlockIndex_size :: "'c hash_container \<Rightarrow> 'c \<Rightarrow> uint32" where
  "BlockIndex_size C c = of_nat (mi_size C c)"

definition BlockIndex_clear :: "'c hash_container \<Rightarrow> 'c \<Rightarrow> 'c" where
  "BlockIndex_clear C c = mi_clear C c"

definition getBlockId :: "'c hash_container \<Rightarrow> 'c \<Rightarrow> uint32 \<Rightarrow> Hash option" where
  "getBlockId C c height = (if unat height < mi_size C c then Some (mi_at C c (unat height)) else None)"

definition getBlockIds :: "'c hash_container \<Rightarrow> 'c \<Rightarrow> uint32 \<Rightarrow> uint32 \<Rightarrow> Hash list" where
  "getBlockIds C c startBlockIndex maxCount =
     (if mi_size C c \<le> unat startBlockIndex then []
      else map (\<lambda>i. mi_at C c (unat startBlockIndex + i))
             [0..<min (unat maxCount) (mi_size C c - unat startBlockIndex)])"

fun findSupplement :: "'c hash_container \<Rightarrow> 'c \<Rightarrow> Hash list \<Rightarrow> uint32 option" where
  "findSupplement C c [] = None"
| "findSupplement C c (h # ids) =
     (case getBlockHeight C c h of Some offset \<Rightarrow> Some offset | None \<Rightarrow> findSupplement C c ids)"

text \<open>The loop doubles a 64-bit counter; that it ends is a theorem below.\<close>

partial_function (option) sparse_loop :: "(uint64 \<Rightarrow> Hash) \<Rightarrow> uint64 \<Rightarrow> uint64 \<Rightarrow> Hash list \<Rightarrow> Hash list option" where
  "sparse_loop container sparseChainEnd i result =
     (if i \<le> sparseChainEnd
      then sparse_loop container sparseChainEnd (i * 2) (result @ [container (sparseChainEnd - i)])
      else Some result)"

definition buildSparseChain :: "'c hash_container \<Rightarrow> 'c \<Rightarrow> Hash \<Rightarrow> Hash list option" where
  "buildSparseChain C c startBlockId =
     (case getBlockHeight C c startBlockId of
        None \<Rightarrow> None
      | Some startBlockHeight \<Rightarrow>
          (case sparse_loop (\<lambda>i. mi_at C c (unat i)) (ucast (startBlockHeight + 1)) 1 [] of
             None \<Rightarrow> None
           | Some result \<Rightarrow>
               Some (if last result \<noteq> mi_at C c 0 then result @ [mi_at C c 0] else result)))"

definition getTailId :: "'c hash_container \<Rightarrow> 'c \<Rightarrow> Hash option" where
  "getTailId C c = (if mi_size C c = 0 then None else Some (mi_at C c (mi_size C c - 1)))"

definition out_BlockIndex :: "'c hash_container \<Rightarrow> 'c \<Rightarrow> writer" where
  "out_BlockIndex C c = out_container out_pod (map (mi_at C c) [0..<mi_size C c])"

definition in_BlockIndex :: "'c hash_container \<Rightarrow> 'c \<Rightarrow> 'c reader" where
  "in_BlockIndex C c = rbind (in_container in_pod) (\<lambda>hs. rreturn (fold (\<lambda>h c. fst (mi_push_back C c h)) hs c))"

section \<open>The sparse chain loop\<close>

lemma unat_two_power: "n < LENGTH('a) \<Longrightarrow> unat (2 ^ n :: 'a::len word) = 2 ^ n"
  using unat_of_nat_small [of "2 ^ n", where 'a = 'a] by simp

lemma sparse_loop_result:
  assumes "unat e < 2 ^ K" "k \<le> K" "K \<le> 63" "\<And>j. k \<le> j \<Longrightarrow> j < K \<Longrightarrow> 2 ^ j \<le> unat e"
  shows "sparse_loop f e (2 ^ k) res = Some (res @ map (\<lambda>j. f (e - 2 ^ j)) [k..<K])"
  using assms
proof (induction "K - k" arbitrary: k res)
  case 0
  then have "k = K" by simp
  moreover have "unat (2 ^ K :: uint64) = 2 ^ K" using 0(4) by (intro unat_two_power) simp
  ultimately have "\<not> (2 ^ k :: uint64) \<le> e" using 0(2) by (simp add: word_le_nat_alt)
  then show ?case using \<open>k = K\<close> by (subst sparse_loop.simps) simp
next
  case (Suc n)
  then have kK: "k < K" "k < 64" by auto
  have "unat (2 ^ k :: uint64) = 2 ^ k" using kK by (intro unat_two_power) simp
  then have le: "(2 ^ k :: uint64) \<le> e" using Suc.prems(4) [of k] kK by (simp add: word_le_nat_alt)
  have step: "(2 ^ k * 2 :: uint64) = 2 ^ Suc k" by simp
  have "sparse_loop f e (2 ^ Suc k) (res @ [f (e - 2 ^ k)]) =
      Some ((res @ [f (e - 2 ^ k)]) @ map (\<lambda>j. f (e - 2 ^ j)) [Suc k..<K])"
    using Suc kK by (intro Suc.hyps(1)) auto
  with le kK show ?case by (subst sparse_loop.simps) (simp only: step if_True upt_conv_Cons, simp)
qed

text \<open>The number of bits of a positive number.\<close>

lemma bit_length_exists: "0 < n \<Longrightarrow> \<exists>K. 0 < K \<and> 2 ^ (K - 1) \<le> n \<and> n < 2 ^ K" for n :: nat
proof -
  assume "0 < n"
  define K where "K = (LEAST K. n < 2 ^ K)"
  have K: "n < 2 ^ K" unfolding K_def by (rule LeastI [of _ n]) simp
  moreover have "K \<noteq> 0" using K \<open>0 < n\<close> by (cases K) auto
  moreover have "\<not> n < 2 ^ (K - 1)" using not_less_Least [of "K - 1" "\<lambda>K. n < 2 ^ K"] \<open>K \<noteq> 0\<close> by (simp add: K_def)
  ultimately show ?thesis by (intro exI [of _ K]) simp
qed

section \<open>The index as a list of hashes\<close>

context unique_sequence
begin

lemma find_eq: "mi_find C c h = Some i \<longleftrightarrow> i < length (elems c) \<and> elems c ! i = h"
proof (cases "h \<in> set (elems c)")
  case True
  then obtain j where j: "j < length (elems c)" "h = elems c ! j" by (auto simp: in_set_conv_nth)
  show ?thesis using j find_some [OF j(1)] nth_eq_iff_index_eq [OF elems_distinct] by auto
next
  case False
  then show ?thesis by (auto simp: find_none)
qed

lemma contents: "map (mi_at C c) [0..<mi_size C c] = elems c"
  by (rule nth_equalityI) (simp_all add: size_elems at_elems)

lemma height_eq:
  assumes "length (elems c) < 2 ^ 32"
  shows "getBlockHeight C c h = Some n \<longleftrightarrow> unat n < length (elems c) \<and> elems c ! unat n = h"
proof
  assume "getBlockHeight C c h = Some n"
  then obtain i where i: "mi_find C c h = Some i" "n = of_nat i" by (auto simp: getBlockHeight_def)
  then have "unat n = i" using find_eq assms by (auto simp: unat_of_nat_small)
  with i(1) show "unat n < length (elems c) \<and> elems c ! unat n = h" by (simp add: find_eq)
next
  assume "unat n < length (elems c) \<and> elems c ! unat n = h"
  then have "mi_find C c h = Some (unat n)" by (simp add: find_eq)
  then show "getBlockHeight C c h = Some n" by (simp add: getBlockHeight_def)
qed

lemma height_none: "getBlockHeight C c h = None \<longleftrightarrow> h \<notin> set (elems c)"
proof -
  have "mi_find C c h = None \<longleftrightarrow> (\<nexists>i. mi_find C c h = Some i)" by auto
  also have "\<dots> \<longleftrightarrow> h \<notin> set (elems c)" unfolding find_eq in_set_conv_nth ..
  finally show ?thesis by (simp add: getBlockHeight_def)
qed

lemma blockId_eq: "getBlockId C c n = (if unat n < length (elems c) then Some (elems c ! unat n) else None)"
  by (simp add: getBlockId_def size_elems at_elems)

lemma blockIds_eq: "getBlockIds C c s m = take (unat m) (drop (unat s) (elems c))"
  by (rule nth_equalityI) (auto simp: getBlockIds_def size_elems at_elems min_def)

lemma fold_push: "distinct (elems c @ hs) \<Longrightarrow> elems (fold (\<lambda>h c. fst (mi_push_back C c h)) hs c) = elems c @ hs"
proof (induction hs arbitrary: c)
  case (Cons h hs)
  then obtain c' where "mi_push_back C c h = (c', True)" "elems c' = elems c @ [h]"
    using push_new [of h c] by auto
  with Cons.IH [of c'] Cons.prems show ?case by simp
qed simp

text \<open>Every chain that the sparse chain lists ends with the first block and begins with the
  requested one, at distances that double.\<close>

lemma sparse_chain_eq:
  assumes "n < length (elems c)" "length (elems c) < 2 ^ 32" "0 < K" "2 ^ (K - 1) \<le> n + 1" "n + 1 < 2 ^ K"
  shows "buildSparseChain C c (elems c ! n) = Some (map (\<lambda>j. elems c ! (n + 1 - 2 ^ j)) [0..<K] @
    (if n + 1 = 2 ^ (K - 1) then [] else [elems c ! 0]))"
proof -
  let ?h = "of_nat n :: uint32" let ?e = "ucast (?h + 1) :: uint64"
  have "(2 :: nat) ^ (K - 1) < 2 ^ 32" using assms by linarith
  then have "K - 1 < 32" using power_less_imp_less_exp [of "2 :: nat" "K - 1" 32] by simp
  then have K: "K \<le> 32" by simp
  have h: "unat ?h = n" using assms by (intro unat_of_nat_small) simp
  have e: "unat ?e = n + 1" using assms h by (simp add: unat_ucast_up unat_plus_exact)
  have height: "getBlockHeight C c (elems c ! n) = Some ?h" using assms h by (simp add: height_eq)
  have pow: "2 ^ j \<le> n + 1" if "j < K" for j
  proof -
    have "(2 :: nat) ^ j \<le> 2 ^ (K - 1)" using that by (intro power_increasing) auto
    then show ?thesis using assms(4) by (rule order_trans)
  qed
  have at: "mi_at C c (unat (?e - 2 ^ j)) = elems c ! (n + 1 - 2 ^ j)" if "j < K" for j
  proof -
    have "unat (2 ^ j :: uint64) = 2 ^ j" using that K by (intro unat_two_power) simp
    then have "unat (?e - 2 ^ j) = n + 1 - 2 ^ j" using e pow [OF that] by (simp add: unat_sub_mod)
    moreover have "n + 1 - 2 ^ j < length (elems c)"
      using assms(1) one_le_power [of "2 :: nat" j] by linarith
    ultimately show ?thesis by (simp add: at_elems)
  qed
  have "sparse_loop (\<lambda>i. mi_at C c (unat i)) ?e (2 ^ 0) [] =
      Some ([] @ map (\<lambda>j. mi_at C c (unat (?e - 2 ^ j))) [0..<K])"
    using assms K pow by (intro sparse_loop_result) (simp_all add: e)
  also have "map (\<lambda>j. mi_at C c (unat (?e - 2 ^ j))) [0..<K] = map (\<lambda>j. elems c ! (n + 1 - 2 ^ j)) [0..<K]"
    using at by simp
  finally have loop: "sparse_loop (\<lambda>i. mi_at C c (unat i)) ?e 1 [] = Some (map (\<lambda>j. elems c ! (n + 1 - 2 ^ j)) [0..<K])"
    by simp
  have last: "last (map (\<lambda>j. elems c ! (n + 1 - 2 ^ j)) [0..<K]) = elems c ! (n + 1 - 2 ^ (K - 1))"
    using assms(3) by (simp add: last_map)
  have first: "mi_at C c 0 = elems c ! 0" using assms(1) by (intro at_elems) linarith
  have "n + 1 - 2 ^ (K - 1) < length (elems c)" "0 < length (elems c)"
    using assms(1) one_le_power [of "2 :: nat" "K - 1"] by linarith+
  then have "elems c ! (n + 1 - 2 ^ (K - 1)) = elems c ! 0 \<longleftrightarrow> n + 1 - 2 ^ (K - 1) = 0"
    by (rule nth_eq_iff_index_eq [OF elems_distinct])
  then have "elems c ! (n + 1 - 2 ^ (K - 1)) = elems c ! 0 \<longleftrightarrow> n + 1 = 2 ^ (K - 1)" using assms(4) by auto
  then show ?thesis by (simp only: buildSparseChain_def height loop option.case last first) simp
qed

lemma supplement_eq:
  "findSupplement C c ids = (case find (\<lambda>h. h \<in> set (elems c)) ids of None \<Rightarrow> None | Some h \<Rightarrow> getBlockHeight C c h)"
proof (induction ids)
  case (Cons h ids)
  then show ?case using height_none [of c h] by (cases "getBlockHeight C c h") auto
qed simp

text \<open>The first entry of a sparse chain that lies in the common part of two chains is found at its
  own height.\<close>

lemma supplement_common:
  assumes "length (elems peer) < 2 ^ 32" "n \<le> length (elems ours)" "n \<le> length (elems peer)"
    and "take n (elems ours) = take n (elems peer)" "set (drop n (elems ours)) \<inter> set (elems peer) = {}"
    and "list_all (\<lambda>p. n \<le> p \<and> p < length (elems ours)) qs" "p < n"
  shows "findSupplement C peer (map ((!) (elems ours)) qs @ elems ours ! p # rest) = Some (of_nat p)"
proof -
  have same: "elems ours ! p = elems peer ! p" using assms(4,7) nth_take [of p n] by metis
  have "elems ours ! q \<notin> set (elems peer)" if "q \<in> set qs" for q
  proof -
    have "n \<le> q" "q < length (elems ours)" using assms(6) that by (auto simp: list_all_iff)
    then have "elems ours ! q = drop n (elems ours) ! (q - n)" "q - n < length (drop n (elems ours))" by auto
    then have "elems ours ! q \<in> set (drop n (elems ours))" using nth_mem by metis
    then show ?thesis using assms(5) by blast
  qed
  then have "find (\<lambda>h. h \<in> set (elems peer)) (map ((!) (elems ours)) qs @ elems ours ! p # rest) = Some (elems peer ! p)"
    using assms(3,7) same by (induction qs) auto
  moreover have "unat (of_nat p :: uint32) = p" using assms by (intro unat_of_nat_small) simp
  then have "getBlockHeight C peer (elems peer ! p) = Some (of_nat p)" using assms by (simp add: height_eq)
  ultimately show ?thesis by (simp add: supplement_eq)
qed

lemma sync_offset:
  assumes "length (elems ours) < 2 ^ 32" "length (elems peer) < 2 ^ 32" "k < length (elems ours)"
    and "0 < n" "n \<le> k + 1" "n \<le> length (elems peer)" "take n (elems ours) = take n (elems peer)"
    and "set (drop n (elems ours)) \<inter> set (elems peer) = {}"
  shows "\<exists>chain p. buildSparseChain C ours (elems ours ! k) = Some chain \<and> length chain \<le> 33 \<and>
    findSupplement C peer chain = Some (of_nat p) \<and> p < n \<and> n - 1 - p \<le> k + 1 - n"
proof -
  obtain K where K: "0 < K" "2 ^ (K - 1) \<le> k + 1" "k + 1 < 2 ^ K" using bit_length_exists [of "k + 1"] by auto
  have "(2 :: nat) ^ (K - 1) < 2 ^ 32" using assms K by linarith
  then have K32: "K \<le> 32" using power_less_imp_less_exp [of "2 :: nat" "K - 1" 32] by simp
  let ?p = "\<lambda>j. k + 1 - 2 ^ j"
  let ?tail = "if k + 1 = 2 ^ (K - 1) then [] else [elems ours ! 0]"
  have chain: "buildSparseChain C ours (elems ours ! k) = Some (map ((!) (elems ours)) (map ?p [0..<K]) @ ?tail)"
    using sparse_chain_eq [OF assms(3,1) K] by (simp add: comp_def)
  have p: "?p j < length (elems ours)" for j using assms(3) one_le_power [of "2 :: nat" j] by linarith
  show ?thesis
  proof (cases "\<exists>j<K. ?p j < n")
    case True
    then obtain j where j: "j < K" "?p j < n" and least: "\<And>i. i < j \<Longrightarrow> \<not> (i < K \<and> ?p i < n)"
      using exists_least_iff [of "\<lambda>j. j < K \<and> ?p j < n"] by blast
    have before: "n \<le> ?p i" if "i < j" for i using least [OF that] that j(1) by auto
    have "[0..<K] = [0..<j] @ j # [Suc j..<K]" using j(1) upt_add_eq_append [of 0 j "K - j"] by (simp add: upt_conv_Cons)
    then have "findSupplement C peer (map ((!) (elems ours)) (map ?p [0..<K]) @ ?tail) = Some (of_nat (?p j))"
      using supplement_common [OF assms(2) _ assms(6,7,8) _ j(2), of "map ?p [0..<j]"] assms(3,5) before p
      by (simp add: list_all_iff)
    moreover have "n - 1 - ?p j \<le> k + 1 - n"
    proof (cases j)
      case (Suc i)
      then have "n \<le> k + 1 - 2 ^ i" using before by simp
      then show ?thesis using Suc by simp
    qed (use assms(5) in simp)
    ultimately show ?thesis using chain j(2) K32 by (intro exI conjI) (assumption | simp)+
  next
    case False
    then have far: "n \<le> ?p j" if "j < K" for j using that by (meson not_less)
    then have all: "list_all (\<lambda>q. n \<le> q \<and> q < length (elems ours)) (map ?p [0..<K])"
      using p by (simp add: list_all_iff)
    have last: "n \<le> ?p (K - 1)" using far [of "K - 1"] K(1) by simp
    then have "?tail = [elems ours ! 0]" using assms(4) by auto
    then have "findSupplement C peer (map ((!) (elems ours)) (map ?p [0..<K]) @ ?tail) = Some (of_nat 0)"
      using supplement_common [OF assms(2) _ assms(6,7,8) all assms(4), of "[]"] assms(3,5) by simp
    moreover have "(2 :: nat) ^ K = 2 * 2 ^ (K - 1)" using K(1) by (cases K) auto
    then have "n - 1 - 0 \<le> k + 1 - n" using K(3) last by linarith
    ultimately show ?thesis using chain assms(4) K32 by (intro exI conjI) (assumption | simp)+
  qed
qed

text \<open>An index written to a stream and read into an empty one holds the same blocks.\<close>

lemma index_persists:
  assumes "length (elems c) \<le> max_container_size" "elems c0 = []"
  shows "\<exists>b c'. out_BlockIndex C c = Inr b \<and> in_BlockIndex C c0 (b @ r) = Inr (c', r) \<and> elems c' = elems c"
proof -
  obtain b where b: "out_container out_pod (elems c) = Inr b" using key_list.enc_wf [of "elems c"] assms(1) by auto
  then have "in_container in_pod (b @ r) = Inr (elems c, r)" using key_list.dec_enc assms(1) by simp
  then have "in_BlockIndex C c0 (b @ r) = Inr (fold (\<lambda>h c. fst (mi_push_back C c h)) (elems c) c0, r)"
    by (simp add: in_BlockIndex_def rbind_def rreturn_def)
  moreover have "elems (fold (\<lambda>h c. fst (mi_push_back C c h)) (elems c) c0) = elems c"
    using fold_push [of c0 "elems c"] elems_distinct assms(2) by simp
  ultimately show ?thesis using b by (simp add: out_BlockIndex_def contents)
qed

end

section \<open>A container of distinct lists\<close>

definition dlist_container :: "Hash dlist hash_container" where
  "dlist_container = \<lparr>
     mi_push_back = (\<lambda>c h. if Dlist.member c h then (c, False) else (Dlist (list_of_dlist c @ [h]), True)),
     mi_pop_back = (\<lambda>c. Dlist (butlast (list_of_dlist c))),
     mi_clear = (\<lambda>c. Dlist.empty),
     mi_size = (\<lambda>c. length (list_of_dlist c)),
     mi_at = (\<lambda>c i. list_of_dlist c ! i),
     mi_find = (\<lambda>c h. if Dlist.member c h then Some (length (takeWhile ((\<noteq>) h) (list_of_dlist c))) else None)\<rparr>"

lemma takeWhile_position:
  "distinct xs \<Longrightarrow> i < length xs \<Longrightarrow> length (takeWhile ((\<noteq>) (xs ! i)) xs) = i"
  by (induction xs arbitrary: i) (auto simp: nth_Cons' less_Suc_eq_0_disj)

interpretation dlc: unique_sequence dlist_container list_of_dlist
  by unfold_locales
    (auto simp: dlist_container_def Dlist.member_def takeWhile_position distinct_butlast remdups_id_iff_distinct [THEN iffD2])

section \<open>Properties\<close>

text \<open>C14: Two nodes whose chains share their first \<open>n\<close> blocks always find each other: the sparse chain
  built from a block at height \<open>k\<close> beyond the fork has at most 33 entries, the peer finds a block
  of the common part in it, and that block is at most as far below the fork as \<open>k\<close> is above it.\<close>

theorem sparse_chain_sync:
  assumes "unique_sequence C elems"
    and "length (elems ours) < 2 ^ 32" "length (elems peer) < 2 ^ 32" "k < length (elems ours)"
    and "0 < n" "n \<le> k + 1" "n \<le> length (elems peer)" "take n (elems ours) = take n (elems peer)"
    and "set (drop n (elems ours)) \<inter> set (elems peer) = {}"
  shows "\<exists>chain p. buildSparseChain C ours (elems ours ! k) = Some chain \<and> length chain \<le> 33 \<and>
    findSupplement C peer chain = Some (of_nat p) \<and> p < n \<and> n - 1 - p \<le> k + 1 - n"
  by (rule unique_sequence.sync_offset [OF assms])

theorem sparse_chain_sync_witness:
  "\<exists>chain p. buildSparseChain dlist_container (Dlist [1, 2, 3, 4, 5, 6]) (list_of_dlist (Dlist [1, 2, 3, 4, 5, 6]) ! 5) = Some chain \<and>
    length chain \<le> 33 \<and> findSupplement dlist_container (Dlist [1, 2, 3, 7]) chain = Some (of_nat p) \<and>
    p < 3 \<and> 3 - 1 - p \<le> 5 + 1 - (3 :: nat)"
  by (rule sparse_chain_sync [OF dlc.unique_sequence_axioms]) simp_all

end
