(* ===== verification/Checkpoints.thy ===== *)
theory Checkpoints
  imports StringTools Config
begin

text \<open>
  \<^verbatim>\<open>src/CryptoNoteCore/Checkpoints.cpp\<close>: the blocks that the chain must contain. The \<open>std::map\<close>
  \<open>m_points\<close> is the list of its entries in the order of the heights, which is how the code
  iterates over it. The text of the checkpoints file and the DNS records are arguments; a file that
  cannot be opened is \<open>None\<close>. An exception that leaves a function is the value \<open>Threw\<close>, with the
  state it leaves behind.
\<close>

section \<open>State and operations\<close>

record Checkpoints =
  m_points :: "(uint32 \<times> Hash) list"

definition Checkpoints_new :: Checkpoints where
  "Checkpoints_new = \<lparr>m_points = []\<rparr>"

definition add_checkpoint :: "uint32 \<Rightarrow> string \<Rightarrow> Checkpoints \<Rightarrow> bool \<times> Checkpoints" where
  "add_checkpoint height hash_str c = (case podFromHex hash_str of
     None \<Rightarrow> (False, c)
   | Some h \<Rightarrow>
       if height \<in> fst ` set (m_points c) then (False, c)
       else (True, c\<lparr>m_points := insort_key fst (height, h) (m_points c)\<rparr>))"

definition is_in_checkpoint_zone :: "Checkpoints \<Rightarrow> uint32 \<Rightarrow> bool" where
  "is_in_checkpoint_zone c height \<longleftrightarrow> m_points c \<noteq> [] \<and> height \<le> fst (last (m_points c))"

text \<open>The result and the out parameter \<open>is_a_checkpoint\<close>.\<close>

definition check_block_flag :: "Checkpoints \<Rightarrow> uint32 \<Rightarrow> Hash \<Rightarrow> bool \<times> bool" where
  "check_block_flag c height h = (case map_of (m_points c) height of
     None \<Rightarrow> (True, False)
   | Some p \<Rightarrow> (p = h, True))"

definition check_block :: "Checkpoints \<Rightarrow> uint32 \<Rightarrow> Hash \<Rightarrow> bool" where
  "check_block c height h = fst (check_block_flag c height h)"

text \<open>The height is promoted to the 64 bits of the window before the subtraction.\<close>

definition is_alternative_block_allowed :: "Checkpoints \<Rightarrow> uint32 \<Rightarrow> uint32 \<Rightarrow> bool" where
  "is_alternative_block_allowed c blockchain_height block_height =
     (if block_height = 0 then False
      else if (ucast block_height :: uint64) < ucast blockchain_height - CRYPTONOTE_MINED_MONEY_UNLOCK_WINDOW \<and>
        \<not> is_in_checkpoint_zone c block_height then False
      else
        let before = takeWhile (\<lambda>p. fst p \<le> blockchain_height) (m_points c) in
        if before = [] then True else fst (last before) < block_height)"

definition getCheckpointHeights :: "Checkpoints \<Rightarrow> uint32 list" where
  "getCheckpointHeights c = map fst (m_points c)"

subsection \<open>Loading\<close>

text \<open>Extraction of a \<open>uint32_t\<close> from a string stream: the value, unless the fail bit is set, and what
  is left in the stream.\<close>

definition istream_uint32 :: "string \<Rightarrow> uint32 option \<times> string" where
  "istream_uint32 str =
     (let t = dropWhile isspace str;
          neg = (t \<noteq> [] \<and> hd t = CHR ''-'');
          u = (if t \<noteq> [] \<and> (hd t = CHR ''-'' \<or> hd t = CHR ''+'') then tl t else t);
          ds = takeWhile isdigit u
      in (if ds = [] \<or> 2 ^ 32 \<le> decimal_value ds then None
          else Some (if neg then - of_nat (decimal_value ds) else of_nat (decimal_value ds)),
          dropWhile isdigit u))"

definition load_dns_record :: "string \<Rightarrow> Checkpoints \<Rightarrow> Checkpoints" where
  "load_dns_record str c =
     (let del = length (takeWhile (\<lambda>ch. ch \<noteq> CHR '':'') str);
          hash_str = take 64 (drop (del + 1) str)
      in if del = length str then c
         else case istream_uint32 (take del str) of
           (Some height, []) \<Rightarrow>
             (case (podFromHex hash_str :: Hash option) of
                None \<Rightarrow> c
              | Some _ \<Rightarrow>
                  if height \<in> fst ` set (m_points c) then c else snd (add_checkpoint height hash_str c))
         | _ \<Rightarrow> c)"

definition load_checkpoints_from_dns :: "string list \<Rightarrow> Checkpoints \<Rightarrow> bool \<times> Checkpoints" where
  "load_checkpoints_from_dns records c = (True, fold load_dns_record records c)"

definition CHECKPOINTS :: "(uint32 \<times> string) list" where
  "CHECKPOINTS = [(0, ''b9dc432e56e37b52771970ce014dd23fda517cfd4fc5a9b296f1954b7d4505de'')]"

definition load_checkpoints :: "Checkpoints \<Rightarrow> bool \<times> Checkpoints" where
  "load_checkpoints c = (True, fold (\<lambda>(height, blockId) c. snd (add_checkpoint height blockId c)) CHECKPOINTS c)"

text \<open>\<open>std::stoi\<close>: the value of the longest number at the start, \<open>std::invalid_argument\<close> when there
  is none, \<open>std::out_of_range\<close> when it does not fit an \<open>int\<close>.\<close>

datatype stoi_result = InvalidArgument | OutOfRange | Number int

definition stoi :: "string \<Rightarrow> stoi_result" where
  "stoi str =
     (let t = dropWhile isspace str;
          neg = (t \<noteq> [] \<and> hd t = CHR ''-'');
          u = (if t \<noteq> [] \<and> (hd t = CHR ''-'' \<or> hd t = CHR ''+'') then tl t else t);
          ds = takeWhile isdigit u;
          v = (if neg then - int (decimal_value ds) else int (decimal_value ds))
      in if ds = [] then InvalidArgument
         else if v < - (2 ^ 31) \<or> 2 ^ 31 \<le> v then OutOfRange
         else Number v)"

text \<open>\<open>std::getline\<close> on a stream without error flags: the line, and the rest of the stream when the
  delimiter was found, or \<open>None\<close> when the end of the file was met and further reads fail. The loop
  stops when the second read of a line extracts nothing.\<close>

definition getline :: "char \<Rightarrow> string \<Rightarrow> string \<times> string option" where
  "getline delim str =
     (let l = takeWhile (\<lambda>ch. ch \<noteq> delim) str
      in (l, if length l < length str then Some (drop (length l + 1) str) else None))"

datatype load_result = Threw Checkpoints | Returned bool Checkpoints

function load_file_loop :: "string \<Rightarrow> Checkpoints \<Rightarrow> load_result" where
  "load_file_loop str c = (case getline CHR '','' str of
     (_, None) \<Rightarrow> Returned True c
   | (indexString, Some after) \<Rightarrow>
       if after = [] then Returned True c
       else
         let (hash, rest) = getline CHR ''\<newline>'' after in
         case stoi indexString of
           InvalidArgument \<Rightarrow> Returned False c
         | OutOfRange \<Rightarrow> Threw c
         | Number height \<Rightarrow>
             (case add_checkpoint (of_int height) hash c of
                (False, c) \<Rightarrow> Returned False c
              | (True, c) \<Rightarrow> (case rest of None \<Rightarrow> Returned True c | Some rest \<Rightarrow> load_file_loop rest c)))"
  by pat_completeness auto
termination
  by (relation "measure (length \<circ> fst)") (auto simp: getline_def Let_def split: if_splits)

declare load_file_loop.simps [simp del]

definition load_checkpoints_from_file :: "string option \<Rightarrow> Checkpoints \<Rightarrow> load_result" where
  "load_checkpoints_from_file contents c = (case contents of
     None \<Rightarrow> Returned False c
   | Some str \<Rightarrow> load_file_loop str c)"

section \<open>The points as a map\<close>

definition points_sorted :: "Checkpoints \<Rightarrow> bool" where
  "points_sorted c \<longleftrightarrow> sorted_wrt (<) (map fst (m_points c))"

lemma map_of_insort:
  "k \<notin> fst ` set ps \<Longrightarrow> map_of (insort_key fst (k, v) ps) = (map_of ps)(k \<mapsto> v)"
  by (induction ps) (auto simp: fun_upd_twist)

lemma sorted_insort:
  "k \<notin> fst ` set ps \<Longrightarrow> sorted_wrt (<) (map fst ps) \<Longrightarrow> sorted_wrt (<) (map fst (insort_key fst (k, v) ps))"
  for k :: uint32
  by (induction ps) (auto simp: set_insort_key)

lemma add_checkpoint_map:
  "map_of (m_points (snd (add_checkpoint n str c))) = (case podFromHex str of
     Some h \<Rightarrow> if n \<in> dom (map_of (m_points c)) then map_of (m_points c) else (map_of (m_points c))(n \<mapsto> h)
   | None \<Rightarrow> map_of (m_points c))"
  by (auto simp: add_checkpoint_def dom_map_of_conv_image_fst map_of_insort split: option.split)

lemma add_checkpoint_sorted: "points_sorted c \<Longrightarrow> points_sorted (snd (add_checkpoint n str c))"
  by (auto simp: add_checkpoint_def points_sorted_def sorted_insort split: option.split)

text \<open>The operations that change the points, as steps between states.\<close>

inductive checkpoint_run :: "Checkpoints \<Rightarrow> Checkpoints \<Rightarrow> bool" where
  start: "checkpoint_run c c"
| add: "checkpoint_run c d \<Longrightarrow> checkpoint_run c (snd (add_checkpoint n str d))"

lemma run_trans: "checkpoint_run d e \<Longrightarrow> checkpoint_run c d \<Longrightarrow> checkpoint_run c e"
  by (induction rule: checkpoint_run.induct) (auto intro: checkpoint_run.intros)

lemma run_sorted: "checkpoint_run c d \<Longrightarrow> points_sorted c \<Longrightarrow> points_sorted d"
  by (induction rule: checkpoint_run.induct) (auto intro: add_checkpoint_sorted)

lemma run_le: "checkpoint_run c d \<Longrightarrow> map_of (m_points c) \<subseteq>\<^sub>m map_of (m_points d)"
proof (induction rule: checkpoint_run.induct)
  case (add c d n str)
  have "map_of (m_points d) \<subseteq>\<^sub>m map_of (m_points (snd (add_checkpoint n str d)))"
    by (auto simp: add_checkpoint_map map_le_def split: option.split)
  with add.IH show ?case by (rule map_le_trans)
qed simp

text \<open>Every loader is a sequence of additions.\<close>

lemma dns_record_run: "checkpoint_run c (load_dns_record str c)"
  using checkpoint_run.add [OF checkpoint_run.start, of c]
  by (auto simp: load_dns_record_def Let_def intro: checkpoint_run.start split: prod.splits option.splits list.splits)

lemma dns_run: "checkpoint_run c (snd (load_checkpoints_from_dns records c))"
proof -
  have "checkpoint_run c (fold load_dns_record records c)"
    by (induction records arbitrary: c) (auto intro: checkpoint_run.start run_trans dns_record_run)
  then show ?thesis by (simp add: load_checkpoints_from_dns_def)
qed

lemma builtin_run: "checkpoint_run c (snd (load_checkpoints c))"
  by (simp add: load_checkpoints_def CHECKPOINTS_def checkpoint_run.intros)

fun loaded :: "load_result \<Rightarrow> Checkpoints" where
  "loaded (Threw c) = c"
| "loaded (Returned ok c) = c"

lemma file_loop_run: "checkpoint_run c (loaded (load_file_loop str c))"
proof (induction str c rule: load_file_loop.induct)
  case (1 str c)
  have added: "add_checkpoint n hash c = (ok, d) \<Longrightarrow> checkpoint_run c d" for n hash ok d
    using checkpoint_run.add [OF checkpoint_run.start, of c n hash] by simp
  have "checkpoint_run c (loaded (load_file_loop rest d))"
    if "getline CHR '','' str = (i, Some after)" "after \<noteq> []" "getline CHR ''\<newline>'' after = (hash, Some rest)"
      "stoi i = Number n" "add_checkpoint (of_int n) hash c = (True, d)" for i after hash rest n d
  proof (rule run_trans)
    show "checkpoint_run d (loaded (load_file_loop rest d))" by (rule 1) (use that in auto)
    show "checkpoint_run c d" using that(5) by (rule added)
  qed
  then show ?case
    by (subst load_file_loop.simps)
      (auto simp: Let_def intro: checkpoint_run.start added
        split: prod.split option.split stoi_result.split bool.split)
qed

lemma file_run: "checkpoint_run c (loaded (load_checkpoints_from_file contents c))"
  by (auto simp: load_checkpoints_from_file_def intro: checkpoint_run.start file_loop_run split: option.split)

lemmas loader_runs = dns_run builtin_run file_run

section \<open>Checkpoint zones and alternative blocks\<close>

lemma fresh_run_sorted: "checkpoint_run Checkpoints_new c \<Longrightarrow> points_sorted c"
  by (rule run_sorted) (auto simp: points_sorted_def Checkpoints_new_def)

lemma sorted_last_max:
  "sorted_wrt (<) (map fst ps) \<Longrightarrow> p \<in> set ps \<Longrightarrow> fst p \<le> fst (last ps)" for ps :: "(uint32 \<times> 'h) list"
  by (induction ps) (auto simp: less_imp_le)

lemma zone_iff:
  assumes "points_sorted c"
  shows "is_in_checkpoint_zone c n \<longleftrightarrow> (\<exists>p \<in> set (m_points c). n \<le> fst p)"
proof
  assume "is_in_checkpoint_zone c n"
  then show "\<exists>p \<in> set (m_points c). n \<le> fst p"
    unfolding is_in_checkpoint_zone_def by (intro bexI [of _ "last (m_points c)"]) auto
next
  assume "\<exists>p \<in> set (m_points c). n \<le> fst p"
  then obtain p where p: "p \<in> set (m_points c)" "n \<le> fst p" ..
  moreover have "fst p \<le> fst (last (m_points c))"
    using assms p(1) unfolding points_sorted_def by (rule sorted_last_max)
  ultimately show "is_in_checkpoint_zone c n" unfolding is_in_checkpoint_zone_def by auto
qed

lemma takeWhile_sorted_set:
  "sorted_wrt (<) (map fst ps) \<Longrightarrow> set (takeWhile (\<lambda>p. fst p \<le> n) ps) = {p \<in> set ps. fst p \<le> n}"
  for n :: uint32
  by (induction ps) auto

lemma last_below_iff:
  fixes n b :: uint32
  assumes "sorted_wrt (<) (map fst ps)"
  shows "(let before = takeWhile (\<lambda>p. fst p \<le> n) ps in before = [] \<or> fst (last before) < b) \<longleftrightarrow>
    (\<forall>p \<in> set ps. fst p \<le> n \<longrightarrow> fst p < b)"
proof -
  let ?w = "takeWhile (\<lambda>p. fst p \<le> n) ps"
  have w: "sorted_wrt (<) (map fst ?w)" using assms by (induction ps) (auto dest: set_takeWhileD)
  have "?w = [] \<or> fst (last ?w) < b \<longleftrightarrow> (\<forall>p \<in> set ?w. fst p < b)"
  proof
    assume "?w = [] \<or> fst (last ?w) < b"
    then show "\<forall>p \<in> set ?w. fst p < b" using sorted_last_max [OF w] by (auto intro: le_less_trans)
  next
    assume "\<forall>p \<in> set ?w. fst p < b"
    then show "?w = [] \<or> fst (last ?w) < b" using last_in_set [of ?w] by blast
  qed
  then show ?thesis using takeWhile_sorted_set [OF assms, of n] by (auto simp: Let_def)
qed

text \<open>The subtraction of the window wraps below it.\<close>

lemma too_deep_iff:
  "(ucast b :: uint64) < ucast n - CRYPTONOTE_MINED_MONEY_UNLOCK_WINDOW \<longleftrightarrow> unat n < 15 \<or> unat b < unat n - 15"
  for b n :: uint32
proof -
  have "unat (ucast b :: uint64) = unat b" "unat (ucast n :: uint64) = unat n" by (simp_all add: unat_ucast_up)
  moreover have "unat b < 18446744073709551601 + unat n" using unat_bound32 [of b] by linarith
  ultimately show ?thesis
    by (auto simp: word_less_nat_alt unat_sub_mod config)
qed

section \<open>Files of checkpoints\<close>

definition checkpoint_line :: "uint32 \<times> Hash \<Rightarrow> string" where
  "checkpoint_line p = to_string (unat (fst p)) @ '','' @ podToHex (snd p) @ ''\<newline>''"

lemma getline_found: "delim \<notin> set l \<Longrightarrow> getline delim (l @ delim # rest) = (l, Some rest)"
proof -
  assume "delim \<notin> set l"
  then have "takeWhile (\<lambda>ch. ch \<noteq> delim) (l @ delim # rest) = l" by (subst takeWhile_append2) auto
  then show ?thesis by (simp add: getline_def)
qed

lemma stoi_to_string: "n < 2 ^ 31 \<Longrightarrow> stoi (to_string n) = Number (int n)"
proof -
  assume n: "n < 2 ^ 31"
  have digits: "list_all isdigit (to_string n)" "to_string n \<noteq> []" using to_string_digits by auto
  then obtain a t where at: "to_string n = a # t" "isdigit a" by (cases "to_string n") auto
  then have "dropWhile isspace (to_string n) = to_string n" "hd (to_string n) \<noteq> CHR ''-''" "hd (to_string n) \<noteq> CHR ''+''"
    by (auto simp: isdigit_def isspace_def)
  moreover have tw: "takeWhile isdigit (to_string n) = to_string n" using digits by (simp add: list_all_iff)
  ultimately show ?thesis using digits(2) n unfolding stoi_def Let_def by (simp add: tw)
qed

lemma hex_no_newline: "CHR ''\<newline>'' \<notin> set (podToHex h)"
proof -
  have "set (toHex bs) \<subseteq> set hex_digits" for bs
  proof (induction bs)
    case (Cons b bs)
    have "hex_digits ! k \<in> set hex_digits" if "k < 16" for k using that by (intro nth_mem) (simp add: hex_digits_def)
    then show ?case using Cons unat_nibble [of b] by (simp add: toHex_def)
  qed (simp add: toHex_def)
  moreover have "CHR ''\<newline>'' \<notin> set hex_digits" by (simp add: hex_digits_def)
  ultimately show ?thesis by (auto simp: podToHex_def)
qed

lemma file_loop_line:
  assumes "unat n < 2 ^ 31" "n \<notin> fst ` set (m_points c)"
  shows "load_file_loop (checkpoint_line (n, h) @ rest) c = load_file_loop rest (snd (add_checkpoint n (podToHex h) c))"
proof -
  have "CHR '','' \<notin> set (to_string (unat n))"
    using to_string_digits [of "unat n"] by (auto simp: list_all_iff isdigit_def)
  then have "getline CHR '','' (checkpoint_line (n, h) @ rest) =
      (to_string (unat n), Some (podToHex h @ CHR ''\<newline>'' # rest))"
    using getline_found by (simp add: checkpoint_line_def)
  moreover have "getline CHR ''\<newline>'' (podToHex h @ CHR ''\<newline>'' # rest) = (podToHex h, Some rest)"
    by (rule getline_found [OF hex_no_newline])
  moreover have "stoi (to_string (unat n)) = Number (int (unat n))" using assms(1) by (rule stoi_to_string)
  moreover have "(of_int (int (unat n)) :: uint32) = n" by simp
  moreover obtain d where "add_checkpoint n (podToHex h) c = (True, d)"
    using assms(2) podHex_roundtrip [of h] by (simp add: add_checkpoint_def)
  ultimately show ?thesis by (subst load_file_loop.simps) (simp add: Let_def del: of_int_of_nat_eq)
qed

lemma file_loop_lines:
  assumes "distinct (map fst ps)" "list_all (\<lambda>p. unat (fst p) < 2 ^ 31) ps" "fst ` set ps \<inter> fst ` set (m_points c) = {}"
  shows "\<exists>d. load_file_loop (concat (map checkpoint_line ps)) c = Returned True d \<and>
    map_of (m_points d) = map_of (m_points c) ++ map_of ps"
  using assms
proof (induction ps arbitrary: c)
  case Nil
  then show ?case by (subst load_file_loop.simps) (simp add: getline_def)
next
  case (Cons p ps)
  obtain n h where p: "p = (n, h)" by fastforce
  let ?d = "snd (add_checkpoint n (podToHex h) c)"
  have m: "map_of (m_points ?d) = (map_of (m_points c))(n \<mapsto> h)"
    using Cons.prems(3) p podHex_roundtrip [of h] by (auto simp: add_checkpoint_map dom_map_of_conv_image_fst)
  then have "fst ` set (m_points ?d) = insert n (fst ` set (m_points c))"
    by (metis dom_fun_upd dom_map_of_conv_image_fst option.distinct(1))
  moreover have "n \<notin> fst ` set ps" "fst ` set ps \<inter> fst ` set (m_points c) = {}" using Cons.prems(1,3) p by auto
  ultimately have "fst ` set ps \<inter> fst ` set (m_points ?d) = {}" by simp
  moreover have "distinct (map fst ps)" "list_all (\<lambda>p. unat (fst p) < 2 ^ 31) ps" using Cons.prems(1,2) by simp_all
  ultimately obtain d where d: "load_file_loop (concat (map checkpoint_line ps)) ?d = Returned True d"
    "map_of (m_points d) = map_of (m_points ?d) ++ map_of ps" using Cons.IH by blast
  have "n \<notin> dom (map_of ps)" using Cons.prems(1) p by (simp add: dom_map_of_conv_image_fst)
  then have "(map_of (m_points c))(n \<mapsto> h) ++ map_of ps = map_of (m_points c) ++ map_of (p # ps)"
    by (simp add: p map_add_upd_left)
  moreover have "load_file_loop (concat (map checkpoint_line (p # ps))) c = load_file_loop (concat (map checkpoint_line ps)) ?d"
    using Cons.prems(2,3) p file_loop_line [of n c h "concat (map checkpoint_line ps)"] by auto
  ultimately show ?case using d m by metis
qed

section \<open>Properties\<close>

text \<open>C17: Checkpoints are permanent: after any additions to an empty set, each way of loading more of
  them (one by one, built in, from DNS records or from a file, whatever they contain and however the
  load ends) keeps the heights strictly increasing, accepts no block that was refused before and
  keeps every height of the checkpoint zone in it.\<close>

theorem checkpoints_permanent:
  assumes "checkpoint_run Checkpoints_new c"
    and "d \<in> {snd (add_checkpoint n str c), snd (load_checkpoints c), snd (load_checkpoints_from_dns records c),
      loaded (load_checkpoints_from_file contents c)}"
  shows "sorted_wrt (<) (getCheckpointHeights d) \<and> (check_block d k h \<longrightarrow> check_block c k h) \<and>
    (is_in_checkpoint_zone c k \<longrightarrow> is_in_checkpoint_zone d k)"
proof -
  have run: "checkpoint_run c d" using assms(2) loader_runs checkpoint_run.intros by auto
  have sorted: "points_sorted c" "points_sorted d" using fresh_run_sorted assms(1) run_trans [OF run] by auto
  have le: "map_of (m_points c) \<subseteq>\<^sub>m map_of (m_points d)" by (rule run_le [OF run])
  have "map_of (m_points d) k = Some p" if "map_of (m_points c) k = Some p" for p
    using le that by (metis domI map_le_def)
  then have "check_block d k h \<longrightarrow> check_block c k h"
    by (auto simp: check_block_def check_block_flag_def split: option.splits)
  moreover have "fst ` set (m_points c) \<subseteq> fst ` set (m_points d)"
    using map_le_implies_dom_le [OF le] by (simp add: dom_map_of_conv_image_fst)
  then have "is_in_checkpoint_zone c k \<longrightarrow> is_in_checkpoint_zone d k"
    unfolding zone_iff [OF sorted(1)] zone_iff [OF sorted(2)] by (metis (no_types, lifting) image_iff subsetD)
  ultimately show ?thesis using sorted(2) by (simp add: points_sorted_def getCheckpointHeights_def)
qed

theorem checkpoints_permanent_witness:
  "let c = snd (load_checkpoints Checkpoints_new); d = loaded (load_checkpoints_from_file (Some ''7,00'') c) in
   sorted_wrt (<) (getCheckpointHeights d) \<and> (\<not> check_block d 0 0 \<or> check_block c 0 0) \<and>
   (\<not> is_in_checkpoint_zone c 0 \<or> is_in_checkpoint_zone d 0)"
  using checkpoints_permanent [OF builtin_run, of "loaded (load_checkpoints_from_file (Some ''7,00'') (snd (load_checkpoints Checkpoints_new)))"
      _ _ _ "Some ''7,00''" 0 0]
  by (simp add: Let_def)

text \<open>C37: When an alternative block may replace the main chain: never at height 0, only above every
  checkpoint the chain has reached, and outside the checkpoint zone only within 15 blocks of the top.
  On a chain of fewer than 15 blocks the subtraction of the window wraps, and no alternative block
  outside the checkpoint zone is allowed.\<close>

theorem alternative_block_exact:
  assumes "checkpoint_run Checkpoints_new c"
  shows "is_alternative_block_allowed c n b \<longleftrightarrow> b \<noteq> 0 \<and> (\<forall>k \<in> set (getCheckpointHeights c). k \<le> n \<longrightarrow> k < b) \<and>
    (unat n < 15 \<or> unat b < unat n - 15 \<longrightarrow> (\<exists>k \<in> set (getCheckpointHeights c). b \<le> k))"
proof -
  have sorted: "points_sorted c" using assms by (rule fresh_run_sorted)
  then have "sorted_wrt (<) (map fst (m_points c))" by (simp add: points_sorted_def)
  from last_below_iff [OF this, of n b] show ?thesis
    unfolding is_alternative_block_allowed_def too_deep_iff zone_iff [OF sorted] getCheckpointHeights_def
    by (auto simp: Let_def)
qed

theorem alternative_block_exact_witness:
  "is_alternative_block_allowed (snd (load_checkpoints Checkpoints_new)) 20 5 \<and>
   \<not> is_alternative_block_allowed (snd (load_checkpoints Checkpoints_new)) 20 4 \<and>
   \<not> is_alternative_block_allowed (snd (load_checkpoints Checkpoints_new)) 14 13"
proof -
  have "case podFromHex (snd (hd CHECKPOINTS)) :: Hash option of None \<Rightarrow> False | Some _ \<Rightarrow> True" by code_simp
  then obtain h :: Hash where "podFromHex (snd (hd CHECKPOINTS)) = Some h" by (auto split: option.splits)
  then have "getCheckpointHeights (snd (load_checkpoints Checkpoints_new)) = [0]"
    by (simp add: load_checkpoints_def CHECKPOINTS_def add_checkpoint_def Checkpoints_new_def getCheckpointHeights_def)
  then show ?thesis using alternative_block_exact [OF builtin_run] by simp
qed

text \<open>A file with one line per checkpoint, with distinct heights below 2 to the 31 that are not
  checkpoints yet, loads completely, and the points are then those from before and those of the
  file.\<close>

lemma checkpoint_file_exact:
  assumes "distinct (map fst ps)" "list_all (\<lambda>p. unat (fst p) < 2 ^ 31) ps" "fst ` set ps \<inter> fst ` set (m_points c) = {}"
  shows "\<exists>d. load_checkpoints_from_file (Some (concat (map checkpoint_line ps))) c = Returned True d \<and>
    map_of (m_points d) = map_of (m_points c) ++ map_of ps"
  using file_loop_lines [OF assms] by (simp add: load_checkpoints_from_file_def)

end
