(* ===== verification/UpgradeDetector.thy ===== *)
theory UpgradeDetector
  imports Currency
begin

text \<open>
  \<^verbatim>\<open>src/CryptoNoteCore/UpgradeDetector.h\<close>: finding the height from which blocks have a new major
  version. The blockchain that the detector holds a reference to is an argument: the headers of its
  blocks, oldest first. Comparisons with \<open>m_targetVersion - 1\<close> are comparisons of \<open>int\<close>s. A failed
  \<open>assert\<close> is \<open>None\<close>; log messages are left out.
\<close>

section \<open>State and operations\<close>

definition UNDEF_HEIGHT :: uint32 where
  "UNDEF_HEIGHT = - 1"

record UpgradeDetector =
  m_targetVersion :: uint8
  m_votingCompleteHeight :: uint32

definition UpgradeDetector_new :: "uint8 \<Rightarrow> UpgradeDetector" where
  "UpgradeDetector_new target_version = \<lparr>m_targetVersion = target_version, m_votingCompleteHeight = UNDEF_HEIGHT\<rparr>"

definition is_vote :: "uint8 \<Rightarrow> 'z BlockHeader_scheme \<Rightarrow> bool" where
  "is_vote target_version b \<longleftrightarrow>
     uint (majorVersion b) = uint target_version - 1 \<and> minorVersion b = BLOCK_MINOR_VERSION_1"

definition getNumberOfVotes :: "Currency \<Rightarrow> uint8 \<Rightarrow> 'z BlockHeader_scheme list \<Rightarrow> uint32 \<Rightarrow> uint64" where
  "getNumberOfVotes c target_version bs height =
     (if height < m_upgradeVotingWindow c - 1 then 0
      else fold (\<lambda>i voteCounter. voteCounter + (if is_vote target_version (bs ! i) then 1 else 0))
        [unat (height + 1 - m_upgradeVotingWindow c)..<unat height + 1] 0)"

definition isVotingComplete :: "Currency \<Rightarrow> uint8 \<Rightarrow> 'z BlockHeader_scheme list \<Rightarrow> uint32 \<Rightarrow> bool option" where
  "isVotingComplete c target_version bs height =
     (if upgradeHeight c target_version \<noteq> UNDEF_HEIGHT then None
      else if \<not> 1 < m_upgradeVotingWindow c then None
      else if \<not> (0 < m_upgradeVotingThreshold c \<and> m_upgradeVotingThreshold c \<le> 100) then None
      else Some ((ucast (m_upgradeVotingThreshold c * m_upgradeVotingWindow c) :: uint64)
        \<le> 100 * getNumberOfVotes c target_version bs height))"

fun find_complete_loop :: "Currency \<Rightarrow> uint8 \<Rightarrow> 'z BlockHeader_scheme list \<Rightarrow> nat list \<Rightarrow> uint32 option" where
  "find_complete_loop c target_version bs [] = Some UNDEF_HEIGHT"
| "find_complete_loop c target_version bs (i # is) =
     (case isVotingComplete c target_version bs (of_nat i) of
        None \<Rightarrow> None
      | Some True \<Rightarrow> Some (of_nat i)
      | Some False \<Rightarrow> find_complete_loop c target_version bs is)"

definition findVotingCompleteHeight :: "Currency \<Rightarrow> uint8 \<Rightarrow> 'z BlockHeader_scheme list \<Rightarrow> uint32 \<Rightarrow> uint32 option" where
  "findVotingCompleteHeight c target_version bs probableUpgradeHeight =
     (if upgradeHeight c target_version \<noteq> UNDEF_HEIGHT then None
      else
        let probableVotingCompleteHeight =
          (if maxUpgradeDistance c < probableUpgradeHeight then probableUpgradeHeight - maxUpgradeDistance c else 0)
        in find_complete_loop c target_version bs [unat probableVotingCompleteHeight..<unat probableUpgradeHeight + 1])"

definition UpgradeDetector_init ::
  "Currency \<Rightarrow> 'z BlockHeader_scheme list \<Rightarrow> UpgradeDetector \<Rightarrow> (bool \<times> UpgradeDetector) option" where
  "UpgradeDetector_init c bs d =
     (let target_version = m_targetVersion d; height = upgradeHeight c target_version in
      if height = UNDEF_HEIGHT then
        (if bs = [] then Some (True, d\<lparr>m_votingCompleteHeight := UNDEF_HEIGHT\<rparr>)
         else if uint target_version - 1 = uint (majorVersion (last bs)) then
           map_option (\<lambda>v. (True, d\<lparr>m_votingCompleteHeight := v\<rparr>))
             (findVotingCompleteHeight c target_version bs (of_nat (length bs - 1)))
         else if target_version \<le> majorVersion (last bs) then
           (let n = length (takeWhile (\<lambda>b. majorVersion b < target_version) bs) in
            if n = length bs \<or> majorVersion (bs ! n) \<noteq> target_version then Some (False, d)
            else map_option (\<lambda>v. (v \<noteq> UNDEF_HEIGHT, d\<lparr>m_votingCompleteHeight := v\<rparr>))
              (findVotingCompleteHeight c target_version bs (of_nat n)))
         else Some (True, d\<lparr>m_votingCompleteHeight := UNDEF_HEIGHT\<rparr>))
      else if bs \<noteq> [] then
        (if length bs \<le> unat (height + 1) then Some (majorVersion (last bs) < target_version, d)
         else Some (majorVersion (bs ! unat (height + 1)) = target_version, d))
      else Some (True, d))"

definition detector_upgradeHeight :: "Currency \<Rightarrow> UpgradeDetector \<Rightarrow> uint32" where
  "detector_upgradeHeight c d =
     (if upgradeHeight c (m_targetVersion d) = UNDEF_HEIGHT
      then (if m_votingCompleteHeight d = UNDEF_HEIGHT then UNDEF_HEIGHT
            else calculateUpgradeHeight c (m_votingCompleteHeight d))
      else upgradeHeight c (m_targetVersion d))"

text \<open>The remainder that decides whether to log is undefined for a target time above an hour.\<close>

definition blockPushed :: "Currency \<Rightarrow> 'z BlockHeader_scheme list \<Rightarrow> UpgradeDetector \<Rightarrow> UpgradeDetector option" where
  "blockPushed c bs d =
     (let target_version = m_targetVersion d in
      if bs = [] then None
      else if upgradeHeight c target_version \<noteq> UNDEF_HEIGHT then
        (if length bs \<le> unat (upgradeHeight c target_version + 1)
         then (if uint (majorVersion (last bs)) \<le> uint target_version - 1 then Some d else None)
         else (if target_version \<le> majorVersion (last bs) then Some d else None))
      else if m_votingCompleteHeight d \<noteq> UNDEF_HEIGHT then
        (if \<not> unat (m_votingCompleteHeight d) < length bs then None
         else if length bs \<le> unat (detector_upgradeHeight c d) then
           (if uint (majorVersion (last bs)) = uint target_version - 1 \<and> 60 * 60 div m_difficultyTarget c \<noteq> 0
            then Some d else None)
         else if length bs = unat (detector_upgradeHeight c d + 1) then
           (if uint (majorVersion (last bs)) = uint target_version - 1 then Some d else None)
         else (if majorVersion (last bs) = target_version then Some d else None))
      else
        let lastBlockHeight = of_nat (length bs - 1) in
        map_option (\<lambda>complete. if complete then d\<lparr>m_votingCompleteHeight := lastBlockHeight\<rparr> else d)
          (isVotingComplete c target_version bs lastBlockHeight))"

definition blockPopped :: "Currency \<Rightarrow> 'z BlockHeader_scheme list \<Rightarrow> UpgradeDetector \<Rightarrow> UpgradeDetector option" where
  "blockPopped c bs d =
     (if m_votingCompleteHeight d \<noteq> UNDEF_HEIGHT then
        (if upgradeHeight c (m_targetVersion d) \<noteq> UNDEF_HEIGHT then None
         else if length bs = unat (m_votingCompleteHeight d) then Some (d\<lparr>m_votingCompleteHeight := UNDEF_HEIGHT\<rparr>)
         else if \<not> unat (m_votingCompleteHeight d) < length bs then None
         else Some d)
      else Some d)"

section \<open>Votes\<close>

text \<open>The rule that the code implements: enough of the last blocks, a full window of them, are votes.\<close>

definition votes_complete :: "Currency \<Rightarrow> uint8 \<Rightarrow> 'z BlockHeader_scheme list \<Rightarrow> nat \<Rightarrow> bool" where
  "votes_complete c t bs h \<longleftrightarrow> unat (m_upgradeVotingWindow c) \<le> h + 1 \<and>
     unat (m_upgradeVotingThreshold c) * unat (m_upgradeVotingWindow c) \<le>
       100 * length (filter (is_vote t) (drop (h + 1 - unat (m_upgradeVotingWindow c)) (take (h + 1) bs)))"

text \<open>A currency that leaves the upgrade to version \<open>t\<close> to a vote, with parameters in range.\<close>

definition voting_currency :: "Currency \<Rightarrow> uint8 \<Rightarrow> bool" where
  "voting_currency c t \<longleftrightarrow> upgradeHeight c t = UNDEF_HEIGHT \<and> 1 < m_upgradeVotingWindow c \<and>
     0 < m_upgradeVotingThreshold c \<and> m_upgradeVotingThreshold c \<le> 100 \<and>
     unat (m_upgradeVotingThreshold c) * unat (m_upgradeVotingWindow c) < 2 ^ 32 \<and>
     0 < m_upgradeWindow c \<and> 7 * unat (m_upgradeWindow c) < 2 ^ 32"

lemma fold_count: "fold (\<lambda>i n. n + (if P i then 1 else 0)) is (k :: uint64) = k + of_nat (length (filter P is))"
  by (induction "is" arbitrary: k) (auto simp: add.assoc)

lemma filter_slice: "b \<le> length bs \<Longrightarrow> length (filter (\<lambda>i. P (bs ! i)) [a..<b]) = length (filter P (drop a (take b bs)))"
proof -
  assume "b \<le> length bs"
  then have "drop a (take b bs) = map ((!) bs) [a..<b]" by (intro nth_equalityI) auto
  then show ?thesis by (simp add: filter_map comp_def)
qed

lemma votes_eq:
  assumes "1 < m_upgradeVotingWindow c" "h < length bs" "length bs < 2 ^ 32"
  shows "unat (getNumberOfVotes c t bs (of_nat h)) = (if unat (m_upgradeVotingWindow c) \<le> h + 1
    then length (filter (is_vote t) (drop (h + 1 - unat (m_upgradeVotingWindow c)) (take (h + 1) bs))) else 0)"
proof -
  let ?w = "m_upgradeVotingWindow c" and ?h = "of_nat h :: uint32"
  have w: "1 < unat ?w" using assms(1) by (simp add: word_less_nat_alt)
  have h: "unat ?h = h" using assms by (intro unat_of_nat_small) simp
  have "unat (?w - 1) = unat ?w - 1" using w by (simp add: unat_sub_mod)
  then have less: "?h < ?w - 1 \<longleftrightarrow> \<not> unat ?w \<le> h + 1" using w h by (auto simp: word_less_nat_alt)
  have h1: "unat (?h + 1) = h + 1" using assms h by (simp add: unat_plus_exact)
  let ?n = "length (filter (is_vote t) (drop (h + 1 - unat ?w) (take (h + 1) bs)))"
  have "?n \<le> length bs" using length_filter_le [of "is_vote t"] by (rule order_trans) simp
  then have "unat (of_nat ?n :: uint64) = ?n" using assms(3) by (intro unat_of_nat_small) simp
  moreover have "unat (?h + 1 - ?w) = h + 1 - unat ?w" if "unat ?w \<le> h + 1" using that h1 by (simp add: unat_sub_mod)
  ultimately show ?thesis
    using less h assms(2) filter_slice [of "h + 1" bs "is_vote t" "h + 1 - unat ?w"]
    by (simp add: getNumberOfVotes_def fold_count)
qed

lemma complete_iff:
  assumes "voting_currency c t" "h < length bs" "length bs < 2 ^ 32"
  shows "isVotingComplete c t bs (of_nat h) = Some (votes_complete c t bs h)"
proof -
  let ?w = "m_upgradeVotingWindow c" and ?p = "m_upgradeVotingThreshold c"
  let ?n = "unat (getNumberOfVotes c t bs (of_nat h))"
  note cur = assms(1) [unfolded voting_currency_def]
  have n: "?n = (if unat ?w \<le> h + 1 then length (filter (is_vote t) (drop (h + 1 - unat ?w) (take (h + 1) bs))) else 0)"
    using cur assms(2,3) by (intro votes_eq) auto
  have "?n \<le> length bs"
    unfolding n using length_filter_le [of "is_vote t" "drop (h + 1 - unat ?w) (take (h + 1) bs)"] by auto
  then have m: "unat (100 * getNumberOfVotes c t bs (of_nat h)) = 100 * ?n"
    using assms(3) by (subst unat_mult_mod) simp
  have p: "unat (ucast (?p * ?w) :: uint64) = unat ?p * unat ?w"
    using cur by (simp add: unat_ucast_up unat_mult_mod)
  have "0 < unat ?p * unat ?w" using cur by (auto simp: word_less_nat_alt)
  then have "unat ?p * unat ?w \<le> 100 * ?n \<longleftrightarrow> votes_complete c t bs h"
    using n by (auto simp: votes_complete_def split: if_splits)
  then show ?thesis using cur by (simp add: isVotingComplete_def word_le_nat_alt m p)
qed

lemma complete_prefix: "h < length bs \<Longrightarrow> votes_complete c t (bs @ xs) h = votes_complete c t bs h"
  by (simp add: votes_complete_def)

lemma find_loop_eq:
  assumes "voting_currency c t" "length bs < 2 ^ 32" "list_all (\<lambda>i. i < length bs) is"
  shows "find_complete_loop c t bs is = Some (case find (votes_complete c t bs) is of None \<Rightarrow> UNDEF_HEIGHT | Some i \<Rightarrow> of_nat i)"
  using assms(3) by (induction "is") (auto simp: complete_iff [OF assms(1) _ assms(2)])

section \<open>Runs of the detector\<close>

text \<open>Blocks come and go as \<open>Blockchain::pushBlock\<close> and \<open>popBlock\<close> add and remove them: the detector is
  told after the change. The version check of the blockchain keeps the versions from decreasing and
  below the target as long as no upgrade is due; heights stay below the end of their range.\<close>

inductive detector_run :: "Currency \<Rightarrow> uint8 \<Rightarrow> UpgradeDetector \<Rightarrow> 'z BlockHeader_scheme list \<Rightarrow> bool" for c t where
  start: "detector_run c t (UpgradeDetector_new t) []"
| push: "detector_run c t d bs \<Longrightarrow> length bs + 1 + unat (m_upgradeWindow c) < 2 ^ 32 - 1 \<Longrightarrow>
    sorted (map majorVersion (bs @ [b])) \<Longrightarrow> m_votingCompleteHeight d = UNDEF_HEIGHT \<longrightarrow> majorVersion b < t \<Longrightarrow>
    blockPushed c (bs @ [b]) d = Some d' \<Longrightarrow> detector_run c t d' (bs @ [b])"
| pop: "detector_run c t d (bs @ [b]) \<Longrightarrow> blockPopped c bs d = Some d' \<Longrightarrow> detector_run c t d' bs"

text \<open>What holds between the calls: the recorded height is the first at which the vote was complete,
  and the blocks have the new version exactly beyond the window that follows it.\<close>

definition detector_inv :: "Currency \<Rightarrow> uint8 \<Rightarrow> UpgradeDetector \<Rightarrow> 'z BlockHeader_scheme list \<Rightarrow> bool" where
  "detector_inv c t d bs \<longleftrightarrow> m_targetVersion d = t \<and> sorted (map majorVersion bs) \<and>
     length bs + unat (m_upgradeWindow c) < 2 ^ 32 - 1 \<and>
     (if m_votingCompleteHeight d = UNDEF_HEIGHT
      then (\<forall>h < length bs. \<not> votes_complete c t bs h) \<and> (\<forall>i < length bs. majorVersion (bs ! i) < t)
      else let v = unat (m_votingCompleteHeight d) in
        v < length bs \<and> votes_complete c t bs v \<and> (\<forall>h < v. \<not> votes_complete c t bs h) \<and>
        (\<forall>i < length bs. if i \<le> v + unat (m_upgradeWindow c) then majorVersion (bs ! i) < t else majorVersion (bs ! i) = t))"

lemma undef_unat: "unat UNDEF_HEIGHT = 4294967295"
  by (simp add: UNDEF_HEIGHT_def unsigned_minus_1_eq_mask mask_eq_exp_minus_1)

lemma of_nat_defined: "n < 4294967295 \<Longrightarrow> (of_nat n :: uint32) \<noteq> UNDEF_HEIGHT"
  by (auto simp: unat_of_nat_small undef_unat dest!: arg_cong [where f = unat])

lemma upgrade_height_eq:
  assumes "voting_currency c t" "detector_inv c t d bs" "m_votingCompleteHeight d \<noteq> UNDEF_HEIGHT"
  shows "unat (detector_upgradeHeight c d) = unat (m_votingCompleteHeight d) + unat (m_upgradeWindow c)"
    and "unat (detector_upgradeHeight c d + 1) = unat (m_votingCompleteHeight d) + unat (m_upgradeWindow c) + 1"
proof -
  have "unat (m_votingCompleteHeight d) + unat (m_upgradeWindow c) + 1 < 2 ^ 32"
    using assms(2,3) by (auto simp: detector_inv_def Let_def)
  then show "unat (detector_upgradeHeight c d) = unat (m_votingCompleteHeight d) + unat (m_upgradeWindow c)"
    "unat (detector_upgradeHeight c d + 1) = unat (m_votingCompleteHeight d) + unat (m_upgradeWindow c) + 1"
    using assms by (auto simp: detector_upgradeHeight_def calculateUpgradeHeight_def voting_currency_def detector_inv_def
        unat_plus_exact)
qed

lemma below_target: "uint m = uint t - 1 \<Longrightarrow> m < t" for m t :: uint8
  by (simp add: word_less_def)

lemma push_inv:
  assumes "voting_currency c t" "detector_inv c t d bs" "length bs + 1 + unat (m_upgradeWindow c) < 2 ^ 32 - 1"
    and "sorted (map majorVersion (bs @ [b]))" "m_votingCompleteHeight d = UNDEF_HEIGHT \<longrightarrow> majorVersion b < t"
    and "blockPushed c (bs @ [b]) d = Some d'"
  shows "detector_inv c t d' (bs @ [b])"
proof (cases "m_votingCompleteHeight d = UNDEF_HEIGHT")
  case True
  have t: "m_targetVersion d = t" using assms(2) by (simp add: detector_inv_def)
  have step: "isVotingComplete c t (bs @ [b]) (of_nat (length bs)) = Some (votes_complete c t (bs @ [b]) (length bs))"
    using assms(3) by (intro complete_iff [OF assms(1)]) auto
  have len: "unat (of_nat (length bs) :: uint32) = length bs" "of_nat (length bs) \<noteq> UNDEF_HEIGHT"
    using assms(3) by (auto intro!: unat_of_nat_small of_nat_defined)
  have d': "d' = (if votes_complete c t (bs @ [b]) (length bs) then d\<lparr>m_votingCompleteHeight := of_nat (length bs)\<rparr> else d)"
    using assms(1,6) True t step by (auto simp: blockPushed_def voting_currency_def Let_def)
  have "\<forall>h < length bs. \<not> votes_complete c t (bs @ [b]) h"
    using assms(2) True by (auto simp: detector_inv_def complete_prefix)
  moreover have "\<forall>i < length bs + 1. majorVersion ((bs @ [b]) ! i) < t"
    using assms(2,5) True by (auto simp: detector_inv_def nth_append less_Suc_eq)
  ultimately show ?thesis
    using assms(3,4) True t len d' by (auto simp: detector_inv_def Let_def less_Suc_eq)
next
  case False
  let ?v = "unat (m_votingCompleteHeight d)"
  have t: "m_targetVersion d = t" using assms(2) by (simp add: detector_inv_def)
  have step: "d' = d" "if length bs \<le> ?v + unat (m_upgradeWindow c) then majorVersion b < t else majorVersion b = t"
    using assms(1,6) False t below_target [of "majorVersion b" t]
    by (auto simp: blockPushed_def voting_currency_def Let_def upgrade_height_eq [OF assms(1,2) False] split: if_splits)
  have old: "?v < length bs" "votes_complete c t bs ?v" "\<forall>h < ?v. \<not> votes_complete c t bs h"
    "\<forall>i < length bs. if i \<le> ?v + unat (m_upgradeWindow c) then majorVersion (bs ! i) < t else majorVersion (bs ! i) = t"
    using assms(2) False by (auto simp: detector_inv_def Let_def)
  have "\<forall>i < length bs + 1. if i \<le> ?v + unat (m_upgradeWindow c) then majorVersion ((bs @ [b]) ! i) < t
      else majorVersion ((bs @ [b]) ! i) = t"
    using old(4) step(2) by (auto simp: nth_append less_Suc_eq)
  then show ?thesis
    using assms(3,4) False t old(1-3) step(1) by (auto simp: detector_inv_def Let_def complete_prefix)
qed

lemma pop_inv:
  assumes "detector_inv c t d (bs @ [b])" "blockPopped c bs d = Some d'"
  shows "detector_inv c t d' bs"
proof (cases "m_votingCompleteHeight d = UNDEF_HEIGHT")
  case True
  have "\<not> votes_complete c t bs h" if "h < length bs" for h
    using assms(1) True that complete_prefix [OF that, of c t "[b]"] by (auto simp: detector_inv_def)
  moreover have "majorVersion (bs ! i) < t" if "i < length bs" for i
    using assms(1) True that by (auto simp: detector_inv_def nth_append less_Suc_eq)
  ultimately show ?thesis
    using assms True by (auto simp: detector_inv_def blockPopped_def sorted_append)
next
  case False
  let ?v = "unat (m_votingCompleteHeight d)"
  have old: "?v < length bs + 1" "votes_complete c t (bs @ [b]) ?v" "\<forall>h < ?v. \<not> votes_complete c t (bs @ [b]) h"
    and ver: "\<And>i. i < length bs \<Longrightarrow> if i \<le> ?v + unat (m_upgradeWindow c) then majorVersion (bs ! i) < t else majorVersion (bs ! i) = t"
    using assms(1) False by (auto simp: detector_inv_def Let_def nth_append less_Suc_eq split: if_splits)
  then have "\<forall>h < ?v. h < length bs \<longrightarrow> \<not> votes_complete c t bs h" using complete_prefix [of _ bs c t "[b]"] by auto
  then show ?thesis
    using assms False old ver complete_prefix [of ?v bs c t "[b]"]
    by (auto simp: detector_inv_def blockPopped_def sorted_append Let_def split: if_splits)
qed

lemma run_inv:
  assumes "voting_currency c t"
  shows "detector_run c t d bs \<Longrightarrow> detector_inv c t d bs"
proof (induction rule: detector_run.induct)
  case start
  have "7 * unat (m_upgradeWindow c) < 2 ^ 32" using assms by (simp add: voting_currency_def)
  then show ?case by (simp add: detector_inv_def UpgradeDetector_new_def)
qed (auto intro: push_inv [OF assms] pop_inv)

section \<open>Restarting\<close>

text \<open>A complete vote contains a vote, so the block that completes it has at least the version of the
  votes.\<close>

lemma complete_version:
  assumes "voting_currency c t" "votes_complete c t bs v" "v < length bs" "sorted (map majorVersion bs)"
  shows "uint t - 1 \<le> uint (majorVersion (bs ! v))"
proof -
  let ?w = "unat (m_upgradeVotingWindow c)"
  have "0 < unat (m_upgradeVotingThreshold c) * ?w"
    using assms(1) by (auto simp: voting_currency_def word_less_nat_alt)
  then have "filter (is_vote t) (drop (v + 1 - ?w) (take (v + 1) bs)) \<noteq> []"
    using assms(2) by (auto simp: votes_complete_def)
  then obtain b where "b \<in> set (take (v + 1) bs)" "is_vote t b"
    by (auto simp: filter_empty_conv dest: in_set_dropD)
  then obtain i where i: "i \<le> v" "is_vote t (bs ! i)" by (auto simp: in_set_conv_nth less_Suc_eq_le)
  have "majorVersion (bs ! i) \<le> majorVersion (bs ! v)"
    using sorted_nth_mono [OF assms(4) i(1)] assms(3) i(1) by simp
  with i(2) show ?thesis by (simp add: is_vote_def word_le_def)
qed

lemma find_least:
  assumes "P v" "\<And>h. h < v \<Longrightarrow> \<not> P h" "a \<le> v" "v < b"
  shows "find P [a..<b] = Some v"
  using assms by (auto simp: find_Some_iff intro!: exI [of _ "v - a"])

lemma restart_eq:
  assumes "voting_currency c t" "detector_inv c t d bs"
  shows "UpgradeDetector_init c bs (UpgradeDetector_new t) = Some (True, d)"
proof (cases "bs = []")
  case True
  then show ?thesis using assms
    by (cases d) (auto simp: UpgradeDetector_init_def UpgradeDetector_new_def voting_currency_def detector_inv_def Let_def split: if_splits)
next
  case False
  let ?w = "unat (m_upgradeWindow c)" and ?n = "length bs"
  have bs: "length bs < 2 ^ 32" "?n + ?w < 2 ^ 32 - 1" using assms(2) by (auto simp: detector_inv_def)
  have undef: "upgradeHeight c t = UNDEF_HEIGHT" and w: "0 < ?w" "unat (maxUpgradeDistance c) = 7 * ?w"
    using assms(1) by (auto simp: voting_currency_def maxUpgradeDistance_def word_less_nat_alt unat_mult_mod)
  have last: "last bs = bs ! (?n - 1)" using False by (rule last_conv_nth)
  have search: "findVotingCompleteHeight c t bs (of_nat k) =
      Some (case find (votes_complete c t bs) [k - 7 * ?w..<k + 1] of None \<Rightarrow> UNDEF_HEIGHT | Some i \<Rightarrow> of_nat i)"
    if "k < ?n" for k
  proof -
    have k: "unat (of_nat k :: uint32) = k" using that bs by (intro unat_of_nat_small) simp
    have "unat (if maxUpgradeDistance c < of_nat k then of_nat k - maxUpgradeDistance c else 0) = k - 7 * ?w"
      using k w by (auto simp: word_less_nat_alt unat_sub_mod)
    then show ?thesis using that k undef bs find_loop_eq [OF assms(1) bs(1), of "[k - 7 * ?w..<k + 1]"]
      by (simp add: findVotingCompleteHeight_def Let_def list_all_iff)
  qed
  show ?thesis
  proof (cases "m_votingCompleteHeight d = UNDEF_HEIGHT")
    case True
    then have none: "\<forall>h < ?n. \<not> votes_complete c t bs h" and ver: "majorVersion (last bs) < t"
      and d: "d = UpgradeDetector_new t"
      using assms(2) False last by (auto simp: detector_inv_def UpgradeDetector_new_def)
    have "find (votes_complete c t bs) [?n - 1 - 7 * ?w..<?n - 1 + 1] = None"
      using none False by (auto simp: find_None_iff)
    then have "findVotingCompleteHeight c t bs (of_nat (?n - 1)) = Some UNDEF_HEIGHT"
      using search [of "?n - 1"] False by simp
    moreover have "\<not> t \<le> majorVersion (last bs)" using ver by simp
    ultimately show ?thesis unfolding d
      using False undef by (simp add: UpgradeDetector_init_def UpgradeDetector_new_def Let_def)
  next
    case voted: False
    let ?v = "unat (m_votingCompleteHeight d)"
    have v: "?v < ?n" "votes_complete c t bs ?v" "\<And>h. h < ?v \<Longrightarrow> \<not> votes_complete c t bs h"
      and ver: "\<And>i. i < ?n \<Longrightarrow> if i \<le> ?v + ?w then majorVersion (bs ! i) < t else majorVersion (bs ! i) = t"
      and d: "(UpgradeDetector_new t)\<lparr>m_votingCompleteHeight := of_nat ?v\<rparr> = d" and sorted: "sorted (map majorVersion bs)"
      using assms(2) voted by (auto simp: detector_inv_def Let_def UpgradeDetector_new_def)
    have found: "findVotingCompleteHeight c t bs (of_nat k) = Some (of_nat ?v)" if "k < ?n" "?v \<le> k" "k \<le> ?v + 7 * ?w" for k
      using search [OF that(1)] find_least [of "votes_complete c t bs", OF v(2,3), of "k - 7 * ?w" "k + 1"] that by simp
    show ?thesis
    proof (cases "?n - 1 \<le> ?v + ?w")
      case True
      have "uint t - 1 \<le> uint (majorVersion (bs ! ?v))" by (rule complete_version [OF assms(1) v(2,1) sorted])
      moreover have "majorVersion (bs ! ?v) \<le> majorVersion (last bs)"
        using sorted_nth_mono [OF sorted, of ?v "?n - 1"] v(1) last by simp
      moreover have "majorVersion (last bs) < t" using ver [of "?n - 1"] True last False by auto
      ultimately have "uint t - 1 = uint (majorVersion (last bs))" by (simp add: word_less_def word_le_def)
      moreover have "findVotingCompleteHeight c t bs (of_nat (?n - 1)) = Some (of_nat ?v)"
        using v(1) True w by (intro found) auto
      ultimately have "UpgradeDetector_init c bs (UpgradeDetector_new t) =
          Some (True, (UpgradeDetector_new t)\<lparr>m_votingCompleteHeight := of_nat ?v\<rparr>)"
        using False undef by (simp add: UpgradeDetector_init_def UpgradeDetector_new_def Let_def)
      then show ?thesis by (simp only: d)
    next
      case beyond: False
      let ?u = "?v + ?w + 1"
      have u: "?u < ?n" using beyond by simp
      have take: "takeWhile (\<lambda>b. majorVersion b < t) bs = take ?u bs"
      proof (rule takeWhile_eq_take_P_nth)
        show "i < ?u \<Longrightarrow> i < ?n \<Longrightarrow> majorVersion (bs ! i) < t" for i using ver [of i] by (auto split: if_splits)
        show "?u < ?n \<Longrightarrow> \<not> majorVersion (bs ! ?u) < t" using ver [of ?u] by auto
      qed
      have "majorVersion (last bs) = t" "majorVersion (bs ! ?u) = t" using ver [of "?n - 1"] ver [of ?u] beyond u last by auto
      moreover have "findVotingCompleteHeight c t bs (of_nat ?u) = Some (of_nat ?v)" using u w by (intro found) auto
      ultimately have "UpgradeDetector_init c bs (UpgradeDetector_new t) =
          Some (True, (UpgradeDetector_new t)\<lparr>m_votingCompleteHeight := of_nat ?v\<rparr>)"
        using False undef u voted take by (simp add: UpgradeDetector_init_def UpgradeDetector_new_def Let_def)
      then show ?thesis by (simp only: d)
    qed
  qed
qed

section \<open>Properties\<close>

text \<open>C13: The detector follows the vote: after any pushes and pops that pass its assertions, the recorded
  height is the first at which the share of votes among the last blocks reached the threshold, no
  height is recorded exactly when there is none, the upgrade is due one window later, and the blocks
  have the target version exactly beyond that height.\<close>

theorem detector_tracks_votes:
  assumes "voting_currency c t" "detector_run c t d bs"
  shows "if m_votingCompleteHeight d = UNDEF_HEIGHT
    then (\<forall>h < length bs. \<not> votes_complete c t bs h) \<and> (\<forall>i < length bs. majorVersion (bs ! i) < t)
    else \<exists>v < length bs. m_votingCompleteHeight d = of_nat v \<and> votes_complete c t bs v \<and>
      (\<forall>h < v. \<not> votes_complete c t bs h) \<and> unat (detector_upgradeHeight c d) = v + unat (m_upgradeWindow c) \<and>
      (\<forall>i < length bs. if i \<le> unat (detector_upgradeHeight c d) then majorVersion (bs ! i) < t else majorVersion (bs ! i) = t)"
proof -
  have inv: "detector_inv c t d bs" using run_inv [OF assms(1)] assms(2) by blast
  show ?thesis
  proof (cases "m_votingCompleteHeight d = UNDEF_HEIGHT")
    case False
    then show ?thesis using inv upgrade_height_eq(1) [OF assms(1) inv False]
      by (auto simp: detector_inv_def Let_def intro!: exI [of _ "unat (m_votingCompleteHeight d)"])
  qed (use inv in \<open>simp add: detector_inv_def\<close>)
qed

definition sample_header :: BlockHeader where
  "sample_header = \<lparr>majorVersion = 3, minorVersion = 1, nonce = 0, timestamp = 0, previousBlockHash = 0\<rparr>"

text \<open>The default currency leaves an upgrade to version 4 to a vote; one block does not decide it.\<close>

lemma default_voting:
  obtains c where "CurrencyBuilder_new = Some c" "voting_currency c 4" "detector_run c 4 (UpgradeDetector_new 4) [sample_header]"
proof -
  obtain c where c: "CurrencyBuilder_new = Some c"
    and p: "m_upgradeVotingWindow c = ucast UPGRADE_VOTING_WINDOW" "m_upgradeVotingThreshold c = UPGRADE_VOTING_THRESHOLD"
      "m_upgradeWindow c = ucast UPGRADE_WINDOW"
    by (simp add: CurrencyBuilder_new_def set_difficultyWindow_def set_upgradeVotingThreshold_def set_upgradeWindow_def
        set_numberOfDecimalPlaces_def config)
  have v: "voting_currency c 4"
    by (simp add: voting_currency_def p config upgradeHeight_def UNDEF_HEIGHT_def)
  have "isVotingComplete c 4 [sample_header] (of_nat 0) = Some (votes_complete c 4 [sample_header] 0)"
    by (rule complete_iff [OF v]) simp_all
  moreover have "\<not> votes_complete c 4 [sample_header] 0" by (simp add: votes_complete_def p config)
  ultimately have "blockPushed c ([] @ [sample_header]) (UpgradeDetector_new 4) = Some (UpgradeDetector_new 4)"
    using v by (simp add: blockPushed_def UpgradeDetector_new_def voting_currency_def)
  then have "detector_run c 4 (UpgradeDetector_new 4) ([] @ [sample_header])"
    by (rule detector_run.push [OF detector_run.start, rotated 3]) (simp_all add: p config sample_header_def)
  then show ?thesis using c v that by simp
qed

theorem detector_tracks_votes_witness:
  "\<exists>c. CurrencyBuilder_new = Some c \<and> majorVersion ([sample_header] ! 0) < 4 \<and> \<not> votes_complete c 4 [sample_header] 0"
proof -
  obtain c where c: "CurrencyBuilder_new = Some c" "voting_currency c 4" "detector_run c 4 (UpgradeDetector_new 4) [sample_header]"
    by (rule default_voting)
  from detector_tracks_votes [OF c(2,3)] show ?thesis using c(1) by (intro exI [of _ c]) (simp add: UpgradeDetector_new_def)
qed

text \<open>Restarting is harmless: initialising a fresh detector from the stored blocks, by a search through
  a bounded number of them, succeeds and gives exactly the state that the detector had reached by
  following the blocks one by one.\<close>

lemma detector_restart:
  assumes "voting_currency c t" "detector_run c t d bs"
  shows "UpgradeDetector_init c bs (UpgradeDetector_new t) = Some (True, d)"
  using run_inv [OF assms(1)] assms(2) by (intro restart_eq [OF assms(1)]) blast

end
