(* ===== verification/FloatArith.thy ===== *)
theory FloatArith
  imports Prelude "HOL-Library.Log_Nat"
begin

text \<open>
  The binary floating-point arithmetic of the interest computation. A value is the rational number
  it stands for, and every operation is the exact operation followed by rounding to the nearest
  number with 24 significant bits (\<open>float\<close>) or 53 (\<open>double\<close>), ties to the even one, as IEEE 754
  prescribes and as compilers for 64-bit targets implement. Overflow and underflow of the exponent
  are not modelled: the numbers of this program lie between one thousandth and 2 to the 64.
\<close>

section \<open>Rounding\<close>

definition pow2 :: "int \<Rightarrow> rat" where
  "pow2 e = (if 0 \<le> e then 2 ^ nat e else 1 / 2 ^ nat (- e))"

text \<open>The exponent of the leading bit.\<close>

definition bexp :: "rat \<Rightarrow> int" where
  "bexp x = (let (n, d) = quotient_of x; k = bitlen n - bitlen d in if pow2 k \<le> x then k else k - 1)"

definition round_even :: "rat \<Rightarrow> int" where
  "round_even x = (let f = \<lfloor>x\<rfloor>; r = x - of_int f in
     if r < 1 / 2 then f else if 1 / 2 < r then f + 1 else if even f then f else f + 1)"

definition fl_pos :: "nat \<Rightarrow> rat \<Rightarrow> rat" where
  "fl_pos p x = (let e = bexp x - (int p - 1) in of_int (round_even (x / pow2 e)) * pow2 e)"

definition fl :: "nat \<Rightarrow> rat \<Rightarrow> rat" where
  "fl p x = (if x = 0 then 0 else if x < 0 then - fl_pos p (- x) else fl_pos p x)"

abbreviation fl32 :: "rat \<Rightarrow> rat" where "fl32 \<equiv> fl 24"

abbreviation fl64 :: "rat \<Rightarrow> rat" where "fl64 \<equiv> fl 53"

section \<open>The rounding error\<close>

lemma pow2_pos [simp]: "0 < pow2 e"
  by (simp add: pow2_def)

lemma pow2_add: "pow2 (a + b) = pow2 a * pow2 b"
proof -
  have p: "pow2 e = 2 powi e" for e by (simp add: pow2_def power_int_def field_simps)
  show ?thesis unfolding p by (rule power_int_add) simp
qed

lemma pow2_minus: "pow2 (- int n) = 1 / 2 ^ n"
  by (cases "n = 0") (simp_all add: pow2_def)

lemma pow2_nonzero [simp]: "pow2 e \<noteq> 0"
  using pow2_pos [of e] by linarith

lemma bexp_le:
  assumes "0 < x"
  shows "pow2 (bexp x) \<le> x"
proof -
  obtain n d where nd: "quotient_of x = (n, d)" by fastforce
  then have d: "0 < d" "x = of_int n / of_int d" using quotient_of_denom_pos quotient_of_div by auto
  with assms have n: "0 < n" by (simp add: zero_less_divide_iff)
  have bn: "1 \<le> bitlen n" "1 \<le> bitlen d" using n d(1) by (simp_all add: bitlen_def floorlog_def)
  let ?k = "bitlen n - bitlen d"
  have "pow2 (?k - 1) \<le> x"
  proof -
    have "(2 :: int) ^ nat (bitlen n - 1) \<le> n" "d < 2 ^ nat (bitlen d)" using bitlen_bounds n d(1) by auto
    then have "(of_int (2 ^ nat (bitlen n - 1)) :: rat) \<le> of_int n" "(of_int d :: rat) < of_int (2 ^ nat (bitlen d))"
      by (simp_all only: of_int_le_iff of_int_less_iff)
    then have le: "(2 :: rat) ^ nat (bitlen n - 1) \<le> of_int n" "(of_int d :: rat) < 2 ^ nat (bitlen d)"
      by (simp_all only: of_int_power of_int_numeral)
    have "pow2 (?k - 1) * pow2 (bitlen d) = pow2 (bitlen n - 1)" by (simp flip: pow2_add)
    then have "pow2 (?k - 1) * 2 ^ nat (bitlen d) = 2 ^ nat (bitlen n - 1)" using bn by (simp add: pow2_def)
    moreover have "pow2 (?k - 1) * of_int d \<le> pow2 (?k - 1) * 2 ^ nat (bitlen d)"
      using le(2) by (intro mult_left_mono) (simp_all add: less_imp_le)
    ultimately have "pow2 (?k - 1) * of_int d \<le> of_int n" using le(1) by linarith
    then show ?thesis using d by (simp add: pos_le_divide_eq)
  qed
  then show ?thesis by (simp add: bexp_def nd Let_def)
qed

lemma round_even_error: "\<bar>of_int (round_even x) - x\<bar> \<le> 1 / 2"
proof -
  define f where "f = \<lfloor>x\<rfloor>"
  have f: "of_int f \<le> x" "x < of_int f + 1" using floor_correct [of x] by (auto simp: f_def)
  consider "x - of_int f < 1 / 2" | "x - of_int f = 1 / 2" | "1 / 2 < x - of_int f" by linarith
  then show ?thesis
    unfolding round_even_def Let_def f_def [symmetric] using f by cases (auto simp: abs_le_iff)
qed

lemma fl_error:
  assumes "0 < x"
  shows "\<bar>fl p x - x\<bar> \<le> x / 2 ^ p"
proof -
  let ?e = "bexp x - (int p - 1)"
  have "fl p x - x = (of_int (round_even (x / pow2 ?e)) - x / pow2 ?e) * pow2 ?e"
    using assms by (simp add: fl_def fl_pos_def Let_def field_simps)
  then have "\<bar>fl p x - x\<bar> = \<bar>of_int (round_even (x / pow2 ?e)) - x / pow2 ?e\<bar> * pow2 ?e"
    by (simp add: abs_mult less_imp_le)
  also have "\<dots> \<le> 1 / 2 * pow2 ?e" using round_even_error by (intro mult_right_mono) (simp_all add: less_imp_le)
  also have "\<dots> = pow2 (bexp x) / 2 ^ p"
  proof -
    have "pow2 (bexp x + (- int p + 1)) = pow2 (bexp x) * (pow2 (- int p) * pow2 1)" by (simp only: pow2_add)
    moreover have "pow2 1 = 2" by (simp add: pow2_def)
    ultimately show ?thesis by (simp add: pow2_minus algebra_simps)
  qed
  also have "\<dots> \<le> x / 2 ^ p" using bexp_le [OF assms] by (intro divide_right_mono) simp_all
  finally show ?thesis .
qed

lemma fl_bounds:
  assumes "0 < x"
  shows "x * (1 - 1 / 2 ^ p) \<le> fl p x" "fl p x \<le> x * (1 + 1 / 2 ^ p)"
  using fl_error [OF assms, of p] by (simp_all add: abs_le_iff algebra_simps)

lemma fl_nonneg: "0 \<le> x \<Longrightarrow> 0 \<le> fl p x"
proof (cases "x = 0")
  case False
  assume "0 \<le> x"
  with False have "0 < x" by simp
  have "0 \<le> x * (1 - 1 / 2 ^ p)" using \<open>0 < x\<close> by (intro mult_nonneg_nonneg) simp_all
  with fl_bounds(1) [OF \<open>0 < x\<close>] show ?thesis by (rule order_trans [rotated])
qed (simp add: fl_def)

section \<open>Exact integers\<close>

lemma bexp_less:
  assumes "0 < x" "x < 2 ^ p"
  shows "bexp x \<le> int p - 1"
proof (rule ccontr)
  assume "\<not> bexp x \<le> int p - 1"
  then have "pow2 (bexp x) = pow2 (int p) * pow2 (bexp x - int p)" "0 \<le> bexp x - int p" by (simp_all flip: pow2_add)
  moreover have "1 \<le> pow2 (bexp x - int p)" using calculation(2) by (simp add: pow2_def)
  ultimately have "2 ^ p \<le> pow2 (bexp x)" by (simp add: pow2_def)
  with bexp_le [OF assms(1)] assms(2) show False by linarith
qed

lemma fl_of_nat: "n < 2 ^ p \<Longrightarrow> fl p (of_nat n) = of_nat n"
proof (cases "n = 0")
  case False
  assume n: "n < 2 ^ p"
  let ?x = "of_nat n :: rat" and ?e = "bexp (of_nat n) - (int p - 1)"
  have "(of_nat n :: rat) < of_nat (2 ^ p)" using n by (simp only: of_nat_less_iff)
  then have x: "0 < ?x" "?x < 2 ^ p" using False by simp_all
  then have e: "?e \<le> 0" using bexp_less [of ?x p] by simp
  have "pow2 ?e * pow2 (- ?e) = 1" by (simp flip: pow2_add) (simp add: pow2_def)
  moreover have "pow2 (- ?e) = of_int (2 ^ nat (- ?e))" using e by (simp add: pow2_def)
  ultimately have "?x / pow2 ?e = of_int (int n * 2 ^ nat (- ?e))" by (simp add: field_simps)
  then have "of_int (round_even (?x / pow2 ?e)) = ?x / pow2 ?e" by (simp only: round_even_def floor_of_int) simp
  then show ?thesis using x(1) by (simp add: fl_def fl_pos_def Let_def)
qed (simp add: fl_def)

section \<open>Accumulated errors\<close>

text \<open>\<open>near k x y\<close>: \<open>x\<close> is \<open>y\<close> after at most \<open>k\<close> roundings to 24 or more bits.\<close>

definition near :: "nat \<Rightarrow> rat \<Rightarrow> rat \<Rightarrow> bool" where
  "near k x y \<longleftrightarrow> 0 \<le> y \<and> y * (1 - 1 / 2 ^ 24) ^ k \<le> x \<and> x \<le> y * (1 + 1 / 2 ^ 24) ^ k"

lemma near_refl: "0 \<le> x \<Longrightarrow> near 0 x x"
  by (simp add: near_def)

lemma near_nonneg: "near k x y \<Longrightarrow> 0 \<le> x"
proof -
  assume n: "near k x y"
  then have "0 \<le> y * (1 - 1 / 2 ^ 24) ^ k" unfolding near_def by (intro mult_nonneg_nonneg zero_le_power) simp_all
  with n show ?thesis unfolding near_def by linarith
qed

lemma near_mono: "near k x y \<Longrightarrow> k \<le> l \<Longrightarrow> near l x y"
proof -
  assume n: "near k x y" and "k \<le> l"
  have "(1 - 1 / 2 ^ 24 :: rat) ^ l \<le> (1 - 1 / 2 ^ 24) ^ k" using \<open>k \<le> l\<close> by (intro power_decreasing) simp_all
  then have "y * (1 - 1 / 2 ^ 24) ^ l \<le> y * (1 - 1 / 2 ^ 24) ^ k" using n unfolding near_def by (intro mult_left_mono) simp_all
  moreover have "(1 + 1 / 2 ^ 24 :: rat) ^ k \<le> (1 + 1 / 2 ^ 24) ^ l" using \<open>k \<le> l\<close> by (intro power_increasing) simp_all
  then have "y * (1 + 1 / 2 ^ 24) ^ k \<le> y * (1 + 1 / 2 ^ 24) ^ l" using n unfolding near_def by (intro mult_left_mono) simp_all
  ultimately show ?thesis using n unfolding near_def by linarith
qed

lemma near_add: "near k x y \<Longrightarrow> near k x' y' \<Longrightarrow> near k (x + x') (y + y')"
  unfolding near_def distrib_right by linarith

lemma near_mult:
  assumes "near i x y" "near j x' y'"
  shows "near (i + j) (x * x') (y * y')"
proof -
  note xy = assms [unfolded near_def] and nonneg = near_nonneg [OF assms(1)] near_nonneg [OF assms(2)]
  have "(y * (1 - 1 / 2 ^ 24) ^ i) * (y' * (1 - 1 / 2 ^ 24) ^ j) \<le> x * x'"
    using xy nonneg by (intro mult_mono) (auto intro: mult_nonneg_nonneg)
  moreover have "x * x' \<le> (y * (1 + 1 / 2 ^ 24) ^ i) * (y' * (1 + 1 / 2 ^ 24) ^ j)"
    using xy nonneg by (intro mult_mono) (auto intro: mult_nonneg_nonneg)
  ultimately show ?thesis using xy by (simp add: near_def power_add mult_ac del: power_divide)
qed

lemma near_divide: "near k x y \<Longrightarrow> 0 < d \<Longrightarrow> near k (x / d) (y / d)"
  using near_mult [OF _ near_refl, of k x y "1 / d"] by simp

lemma near_fl:
  assumes "near k x y" "24 \<le> p"
  shows "near (Suc k) (fl p x) y"
proof (cases "x = 0")
  case True
  then have "near (Suc k) x y" using near_mono [OF assms(1)] by simp
  then show ?thesis using True by (simp add: fl_def)
next
  case False
  then have x: "0 < x" using near_nonneg [OF assms(1)] by simp
  have "(1 / 2 ^ p :: rat) \<le> 1 / 2 ^ 24" using assms(2) by (intro divide_left_mono power_increasing) simp_all
  then have "x * (1 - 1 / 2 ^ 24) \<le> x * (1 - 1 / 2 ^ p)" "x * (1 + 1 / 2 ^ p) \<le> x * (1 + 1 / 2 ^ 24)"
    using x by (auto intro!: mult_left_mono)
  then have fl: "x * (1 - 1 / 2 ^ 24) \<le> fl p x" "fl p x \<le> x * (1 + 1 / 2 ^ 24)" using fl_bounds [OF x, of p] by linarith+
  have "y * (1 - 1 / 2 ^ 24) ^ k * (1 - 1 / 2 ^ 24) \<le> x * (1 - 1 / 2 ^ 24)"
    "x * (1 + 1 / 2 ^ 24) \<le> y * (1 + 1 / 2 ^ 24) ^ k * (1 + 1 / 2 ^ 24)"
    using assms(1) unfolding near_def by (auto intro!: mult_right_mono)
  then have "y * (1 - 1 / 2 ^ 24) ^ Suc k \<le> fl p x" "fl p x \<le> y * (1 + 1 / 2 ^ 24) ^ Suc k"
    using fl unfolding power_Suc2 mult.assoc [symmetric] by linarith+
  then show ?thesis using assms(1) unfolding near_def by blast
qed

end
