(* ===== verification/Interest.thy ===== *)
theory Interest
  imports Currency FloatArith
begin

text \<open>
  \<^verbatim>\<open>src/CryptoNoteCore/Currency.cpp\<close>: the interest of deposits, the amounts of inputs with interest and
  transaction fees. \<open>float\<close> and \<open>double\<close> arithmetic is that of \<open>FloatArith\<close>. A failed \<open>assert\<close> or a
  division by zero is \<open>None\<close>.
\<close>

section \<open>Interest\<close>

definition calculateInterest :: "uint64 \<Rightarrow> uint32 \<Rightarrow> uint64" where
  "calculateInterest amnt trm =
     (let amount4Humans = amnt div 1000000;
          baseInterest = fl32 (fl64 (29 / 1000));
          baseInterest = (if 10000 \<le> amount4Humans \<and> amount4Humans < 20000 then fl32 (fl64 (39 / 1000)) else baseInterest);
          baseInterest = (if 20000 \<le> amount4Humans then fl32 (fl64 (49 / 1000)) else baseInterest);
          months = fl32 (of_nat (unat (trm div 21900)));
          months = (if 12 < months then 12 else months);
          ear = fl32 (fl64 (baseInterest + fl64 (fl32 (months - 1) * fl64 (1 / 1000))));
          eir = fl32 (fl32 (ear / 12) * months);
          interest = fl32 (fl32 (of_nat (unat amnt)) * eir)
      in of_int \<lfloor>interest\<rfloor>)"

definition calculateInterestMaths :: "Currency \<Rightarrow> uint64 \<Rightarrow> uint32 \<Rightarrow> uint32 \<Rightarrow> uint64 option" where
  "calculateInterestMaths c amnt trm height =
     (if trm mod 21900 = 0 then Some (calculateInterest amnt trm)
      else
        let a = ucast trm * m_depositMaxTotalRate c - m_depositMinTotalRateFactor c;
            (bLo, bHi) = mul128 amnt a
        in if \<not> m_depositMaxTerm c < - 1 div 100 then None
           else if 100 * m_depositMaxTerm c = 0 then None
           else
             let (_, cHi, cLo) = div128_32 bHi bLo (100 * m_depositMaxTerm c) in
             if cHi \<noteq> 0 then None
             else if height \<le> 1 then
               (let (interestLo, interestHi) = mul128 cLo 100 in if interestHi \<noteq> 0 then None else Some interestLo)
             else Some cLo)"

text \<open>The sums stop at the first assertion that fails.\<close>

fun add_calls :: "('a \<Rightarrow> uint64 option) \<Rightarrow> 'a list \<Rightarrow> uint64 \<Rightarrow> uint64 option" where
  "add_calls f [] s = Some s"
| "add_calls f (x # xs) s = (case f x of None \<Rightarrow> None | Some y \<Rightarrow> add_calls f xs (s + y))"

definition input_interest :: "Currency \<Rightarrow> uint32 \<Rightarrow> TransactionInput \<Rightarrow> uint64 option" where
  "input_interest c height input = (case input of
     MultisignatureInput a _ _ trm \<Rightarrow> if trm \<noteq> 0 then calculateInterestMaths c a trm height else Some 0
   | _ \<Rightarrow> Some 0)"

definition calculateTotalTransactionInterest :: "Currency \<Rightarrow> 'z TransactionPrefix_scheme \<Rightarrow> uint32 \<Rightarrow> uint64 option" where
  "calculateTotalTransactionInterest c tx height = add_calls (input_interest c height) (inputs tx) 0"

section \<open>Amounts and fees\<close>

definition getTransactionInputAmount :: "Currency \<Rightarrow> TransactionInput \<Rightarrow> uint32 \<Rightarrow> uint64 option" where
  "getTransactionInputAmount c input height = (case input of
     KeyInput a _ _ \<Rightarrow> Some a
   | MultisignatureInput a _ _ trm \<Rightarrow>
       if trm = 0 then Some a else map_option (\<lambda>i. a + i) (calculateInterestMaths c a trm height)
   | BaseInput _ \<Rightarrow> Some 0)"

definition getTransactionAllInputsAmount :: "Currency \<Rightarrow> 'z TransactionPrefix_scheme \<Rightarrow> uint32 \<Rightarrow> uint64 option" where
  "getTransactionAllInputsAmount c tx height = add_calls (\<lambda>input. getTransactionInputAmount c input height) (inputs tx) 0"

definition getTransactionFee :: "Currency \<Rightarrow> 'z TransactionPrefix_scheme \<Rightarrow> uint32 \<Rightarrow> uint64 call" where
  "getTransactionFee c tx height =
     (case add_calls (\<lambda>input. getTransactionInputAmount c input height) (inputs tx) 0 of
        None \<Rightarrow> AssertFailed
      | Some amount_in \<Rightarrow>
          let amount_out = fold (\<lambda>out s. s + amount out) (outputs tx) 0 in
          if amount_in < amount_out then
            (if inputs tx \<noteq> [] \<and> outputs tx \<noteq> [] \<and> amount_in + MINIMUM_FEE < amount_out then Return MINIMUM_FEE
             else ReturnFalse)
          else Return (amount_in - amount_out))"

definition getTransactionFee_value :: "Currency \<Rightarrow> 'z TransactionPrefix_scheme \<Rightarrow> uint32 \<Rightarrow> uint64 option" where
  "getTransactionFee_value c tx height = (case getTransactionFee c tx height of
     AssertFailed \<Rightarrow> None | ReturnFalse \<Rightarrow> Some 0 | Return r \<Rightarrow> Some r)"

section \<open>The interest rate\<close>

text \<open>The rate that the formula means: a base rate by the size of the deposit, a tenth of a percent
  more for each month after the first, for the part of the year that the deposit lasts.\<close>

definition base_rate :: "uint64 \<Rightarrow> rat" where
  "base_rate amnt = (if amnt div 1000000 < 10000 then 29 / 1000 else if amnt div 1000000 < 20000 then 39 / 1000 else 49 / 1000)"

definition deposit_rate :: "rat \<Rightarrow> nat \<Rightarrow> rat" where
  "deposit_rate base months = (base + of_nat (months - 1) / 1000) / 12 * of_nat months"

lemma interest_near:
  fixes a b m :: rat
  assumes "0 \<le> a" "0 \<le> b" "1 \<le> m"
  shows "near 9 (fl32 (fl32 a * fl32 (fl32 (fl32 (fl64 (fl32 (fl64 b) + fl64 (fl32 (m - 1) * fl64 (1 / 1000)))) / 12) * m)))
    (a * ((b + (m - 1) / 1000) / 12 * m))"
proof -
  note fl = near_fl [of _ _ _ 24, simplified] near_fl [of _ _ _ 53, simplified]
  have "near 2 (fl32 (fl64 b)) b" using fl(1) [OF fl(2) [OF near_refl [OF assms(2)]]] by (simp add: numeral_2_eq_2)
  then have base: "near 3 (fl32 (fl64 b)) b" by (rule near_mono) simp
  have "near (Suc 0 + Suc 0) (fl32 (m - 1) * fl64 (1 / 1000)) ((m - 1) * (1 / 1000))"
    using assms(3) by (intro near_mult fl near_refl) simp_all
  then have "near 3 (fl64 (fl32 (m - 1) * fl64 (1 / 1000))) ((m - 1) / 1000)"
    using fl(2) by (fastforce simp: numeral_3_eq_3)
  from near_add [OF base this] have ear: "near 5 (fl32 (fl64 (fl32 (fl64 b) + fl64 (fl32 (m - 1) * fl64 (1 / 1000))))) (b + (m - 1) / 1000)"
    using fl by (fastforce simp: eval_nat_numeral)
  have "near (Suc (5 + 1)) (fl32 (fl32 (fl32 (fl64 (fl32 (fl64 b) + fl64 (fl32 (m - 1) * fl64 (1 / 1000)))) / 12) * m))
      ((b + (m - 1) / 1000) / 12 * m)"
    using near_mult [OF fl(1) [OF near_divide [OF ear, of 12]] near_refl [of m]] assms(3) fl(1) by (simp add: eval_nat_numeral)
  from near_mult [OF fl(1) [OF near_refl [OF assms(1)]] this] show ?thesis using fl(1) by (simp add: eval_nat_numeral)
qed

lemma months_eq:
  "(if 12 < fl32 (of_nat (unat (trm div 21900))) then 12 else fl32 (of_nat (unat (trm div 21900)))) =
    of_nat (min 12 (unat (trm div 21900)))" for trm :: uint32
proof -
  have "unat trm < 367421030400" by (rule less_trans [OF unat_bound32]) simp
  then have small: "unat (trm div 21900) < 2 ^ 24" by (simp add: unat_div_eq div_less_iff_less_mult)
  have "(if 12 < fl32 (of_nat k) then 12 else fl32 (of_nat k)) = of_nat (min 12 k)" if "k < 2 ^ 24" for k
    using that by (auto simp: fl_of_nat min_def)
  from this [OF small] show ?thesis .
qed

lemma base_eq:
  "(let q = amnt div 1000000; b = fl32 (fl64 (29 / 1000));
        b = (if 10000 \<le> q \<and> q < 20000 then fl32 (fl64 (39 / 1000)) else b)
    in if 20000 \<le> q then fl32 (fl64 (49 / 1000)) else b) = fl32 (fl64 (base_rate amnt))"
  by (auto simp: base_rate_def Let_def word_le_nat_alt word_less_nat_alt)

lemma calculateInterest_near:
  assumes "m = min 12 (unat (trm div 21900))" "1 \<le> m"
  obtains x where "calculateInterest amnt trm = of_int \<lfloor>x\<rfloor>" "near 9 x (of_nat (unat amnt) * deposit_rate (base_rate amnt) m)"
proof -
  have m: "(1 :: rat) \<le> of_nat m" "(of_nat (m - 1) :: rat) = of_nat m - 1" using assms(2) by (simp_all add: of_nat_diff)
  have b: "0 \<le> base_rate amnt" by (simp add: base_rate_def)
  let ?x = "fl32 (fl32 (of_nat (unat amnt)) * fl32 (fl32 (fl32 (fl64 (fl32 (fl64 (base_rate amnt)) +
      fl64 (fl32 (of_nat m - 1) * fl64 (1 / 1000)))) / 12) * of_nat m))"
  have "calculateInterest amnt trm = of_int \<lfloor>?x\<rfloor>"
    unfolding calculateInterest_def base_eq [symmetric] assms(1) months_eq [symmetric] by (simp only: Let_def)
  moreover have "near 9 ?x (of_nat (unat amnt) * deposit_rate (base_rate amnt) m)"
    unfolding deposit_rate_def m(2) by (rule interest_near [OF of_nat_0_le_iff b m(1)])
  ultimately show ?thesis by (rule that)
qed

lemma near_9: "near 9 x y \<Longrightarrow> y * (1 - 1 / 2 ^ 20) \<le> x \<and> x \<le> y * (1 + 1 / 2 ^ 20)"
proof -
  assume n: "near 9 x y"
  then have "0 \<le> y" unfolding near_def by blast
  have "(1 - 1 / 2 ^ 20 :: rat) \<le> (1 - 1 / 2 ^ 24) ^ 9" "(1 + 1 / 2 ^ 24 :: rat) ^ 9 \<le> 1 + 1 / 2 ^ 20"
    by (simp_all add: power_divide)
  from this [THEN mult_left_mono, OF \<open>0 \<le> y\<close>] n show ?thesis unfolding near_def by linarith
qed

lemma deposit_rate_bounds: "1 \<le> m \<Longrightarrow> m \<le> 12 \<Longrightarrow> 0 \<le> deposit_rate (base_rate a) m \<and> deposit_rate (base_rate a) m \<le> 6 / 100"
proof -
  assume "1 \<le> m" "m \<le> 12"
  have "of_nat (m - 1) \<le> (11 :: rat)" "of_nat m \<le> (12 :: rat)" using \<open>m \<le> 12\<close> by (simp_all add: of_nat_diff)
  then have "(base_rate a + of_nat (m - 1) / 1000) / 12 \<le> 5 / 1000" by (simp add: base_rate_def)
  moreover have "0 \<le> (base_rate a + of_nat (m - 1) / 1000) / 12" by (simp add: base_rate_def)
  ultimately have "(base_rate a + of_nat (m - 1) / 1000) / 12 * of_nat m \<le> 5 / 1000 * 12"
    using \<open>of_nat m \<le> 12\<close> by (intro mult_mono) auto
  with \<open>0 \<le> (base_rate a + of_nat (m - 1) / 1000) / 12\<close> show ?thesis unfolding deposit_rate_def by simp
qed

section \<open>Sums over inputs\<close>

lemma add_calls_eq:
  "add_calls f xs s = (if list_all (\<lambda>x. f x \<noteq> None) xs then Some (s + (\<Sum>x\<leftarrow>xs. the (f x))) else None)"
  by (induction xs arbitrary: s) (auto simp: add.assoc split: option.split)

lemma input_amount_interest:
  "getTransactionInputAmount c i h = map_option (\<lambda>r. input_amount i + r) (input_interest c h i)"
  by (cases i) (auto simp: getTransactionInputAmount_def input_interest_def input_amount_def)

section \<open>Properties\<close>

text \<open>C36: The interest of a deposit is accurate in spite of single precision arithmetic: for every amount
  and term, it differs from the exact product of the amount with the rate, for at most 12 whole
  months, by at most one part in a million, before the fraction is dropped; and the rate is never above
  six percent.\<close>

theorem interest_accurate:
  assumes "m = min 12 (unat (trm div 21900))" "1 \<le> m" "y = of_nat (unat amnt) * deposit_rate (base_rate amnt) m"
  shows "y * (1 - 1 / 2 ^ 20) - 1 < of_nat (unat (calculateInterest amnt trm)) \<and>
    of_nat (unat (calculateInterest amnt trm)) \<le> y * (1 + 1 / 2 ^ 20) \<and> y \<le> of_nat (unat amnt) * (6 / 100)"
proof -
  obtain x where x: "calculateInterest amnt trm = of_int \<lfloor>x\<rfloor>" "near 9 x y"
    using calculateInterest_near [OF assms(1,2)] assms(3) by metis
  have rate: "0 \<le> deposit_rate (base_rate amnt) m" "deposit_rate (base_rate amnt) m \<le> 6 / 100"
    using deposit_rate_bounds assms(1,2) by auto
  have y: "y \<le> of_nat (unat amnt) * (6 / 100)" unfolding assms(3) by (rule mult_left_mono [OF rate(2) of_nat_0_le_iff])
  have "(of_nat (unat amnt) :: rat) < of_nat (2 ^ 64)" unfolding of_nat_less_iff using unat_bound64 [of amnt] by simp
  then have "y < 2 ^ 62" using y by simp
  moreover have "0 \<le> y" using x(2) unfolding near_def by blast
  then have "y * (1 + 1 / 2 ^ 20) \<le> y * 2" by (intro mult_left_mono) simp_all
  ultimately have "x < 2 ^ 63" using near_9 [OF x(2)] by simp
  then have "\<lfloor>x\<rfloor> < 2 ^ 63" by (simp add: floor_less_iff)
  moreover have "0 \<le> \<lfloor>x\<rfloor>" using near_nonneg [OF x(2)] by simp
  ultimately have u: "unat (of_int \<lfloor>x\<rfloor> :: uint64) = nat \<lfloor>x\<rfloor>" by (simp add: unat_eq_nat_uint uint_word_of_int_eq take_bit_int_eq_self)
  then have "(of_nat (unat (calculateInterest amnt trm)) :: rat) = of_int \<lfloor>x\<rfloor>" using \<open>0 \<le> \<lfloor>x\<rfloor>\<close> by (simp add: x(1))
  moreover have "x - 1 < of_int \<lfloor>x\<rfloor>" "of_int \<lfloor>x\<rfloor> \<le> x" using floor_correct [of x] by linarith+
  ultimately show ?thesis using near_9 [OF x(2)] y by linarith
qed

theorem interest_accurate_witness:
  "1200000000 * (1 - 1 / 2 ^ 20) - 1 < (of_nat (unat (calculateInterest 20000000000 262800)) :: rat) \<and>
   (of_nat (unat (calculateInterest 20000000000 262800)) :: rat) \<le> 1200000000 * (1 + 1 / 2 ^ 20)"
proof -
  have "base_rate 20000000000 = 49 / 1000" by (simp add: base_rate_def)
  then show ?thesis
    using interest_accurate [of 12 262800 "1200000000" 20000000000] by (simp add: deposit_rate_def)
qed

text \<open>C18: The fee rules, in exact numbers: when the amounts of the inputs with the interest that they earn
  and the amounts of the outputs add up without overflow, the amount of all inputs is the plain
  amounts plus the total interest; the fee is what the inputs have more than the outputs; outputs that
  exceed the inputs by at most the minimum fee are refused, and outputs that exceed them by more are
  accepted with the minimum fee.\<close>

theorem transaction_fee_exact:
  assumes "calculateTotalTransactionInterest c tx h = Some r"
    and "i = (\<Sum>x\<leftarrow>inputs tx. unat (input_amount x) + unat (the (input_interest c h x)))"
    and "out = (\<Sum>x\<leftarrow>outputs tx. unat (amount x))" "i + 100 < 2 ^ 64" "out < 2 ^ 64"
  shows "map_option unat (getTransactionAllInputsAmount c tx h) = Some i \<and>
    i = (\<Sum>x\<leftarrow>inputs tx. unat (input_amount x)) + unat r \<and>
    getTransactionFee c tx h =
      (if out \<le> i then Return (of_nat (i - out))
       else if inputs tx \<noteq> [] \<and> i + 100 < out then Return 100 else ReturnFalse)"
proof -
  let ?is = "inputs tx"
  have some: "list_all (\<lambda>x. input_interest c h x \<noteq> None) ?is" and r: "r = (\<Sum>x\<leftarrow>?is. the (input_interest c h x))"
    using assms(1) by (auto simp: calculateTotalTransactionInterest_def add_calls_eq split: if_splits)
  have each: "getTransactionInputAmount c x h = Some (input_amount x + the (input_interest c h x))" if "x \<in> set ?is" for x
    using some that by (auto simp: input_amount_interest list_all_iff)
  have split: "(\<Sum>x\<leftarrow>?is. unat (input_amount x) + unat (the (input_interest c h x))) =
      (\<Sum>x\<leftarrow>?is. unat (input_amount x)) + (\<Sum>x\<leftarrow>?is. unat (the (input_interest c h x)))" by (rule sum_list_addf)
  then have le: "(\<Sum>x\<leftarrow>?is. unat (the (input_interest c h x))) < 2 ^ 64" "(\<Sum>x\<leftarrow>?is. unat (input_amount x)) < 2 ^ 64"
    using assms(2,4) by linarith+
  have "unat r = (\<Sum>x\<leftarrow>?is. unat (the (input_interest c h x)))" unfolding r using le(1) by (intro unat_sum_list_exact) simp
  then have i: "i = (\<Sum>x\<leftarrow>?is. unat (input_amount x)) + unat r" using assms(2) split by simp
  let ?sum = "(\<Sum>x\<leftarrow>?is. input_amount x) + r"
  have "unat (\<Sum>x\<leftarrow>?is. input_amount x) = (\<Sum>x\<leftarrow>?is. unat (input_amount x))" using le(2) by (intro unat_sum_list_exact) simp
  then have sum: "unat ?sum = i" using i assms(4) by (subst unat_plus_exact) simp_all
  have "(\<Sum>x\<leftarrow>?is. the (getTransactionInputAmount c x h)) = (\<Sum>x\<leftarrow>?is. input_amount x + the (input_interest c h x))"
    by (intro arg_cong [where f = sum_list] map_cong refl) (simp add: each)
  also have "\<dots> = ?sum" unfolding r by (rule sum_list_addf)
  finally have calls: "add_calls (\<lambda>x. getTransactionInputAmount c x h) ?is 0 = Some ?sum"
    using each by (simp add: add_calls_eq list_all_iff)
  define o' where "o' = fold (\<lambda>x s. s + amount x) (outputs tx) (0 :: uint64)"
  have o': "unat o' = out" unfolding o'_def fold_plus_eq using assms(3,5) by (simp add: unat_sum_list_exact)
  have "outputs tx \<noteq> []" if "0 < out" using that assms(3) by auto
  moreover have "unat (?sum + MINIMUM_FEE) = i + 100" using sum assms(4) by (subst unat_plus_exact) (simp_all add: config)
  moreover have "?sum - o' = of_nat (i - out)" if "out \<le> i"
    using that sum o' by (metis of_nat_diff of_nat_unat ucast_id)
  ultimately have "getTransactionFee c tx h = (if out \<le> i then Return (of_nat (i - out))
       else if inputs tx \<noteq> [] \<and> i + 100 < out then Return 100 else ReturnFalse)"
    using sum o' by (auto simp: getTransactionFee_def calls Let_def o'_def [symmetric] word_less_nat_alt config)
  then show ?thesis using i sum calls by (simp add: getTransactionAllInputsAmount_def)
qed

theorem transaction_fee_exact_witness:
  "\<forall>c. getTransactionFee c \<lparr>version = 1, unlockTime = 0, inputs = [KeyInput 500 [0] 7],
     outputs = [\<lparr>amount = 601, target = KeyOutput 1\<rparr>], extra = []\<rparr> 9 = Return 100"
proof
  fix c
  let ?tx = "\<lparr>version = 1, unlockTime = 0, inputs = [KeyInput 500 [0] 7],
     outputs = [\<lparr>amount = 601, target = KeyOutput 1\<rparr>], extra = []\<rparr>"
  have "calculateTotalTransactionInterest c ?tx 9 = Some 0"
    by (simp add: calculateTotalTransactionInterest_def input_interest_def)
  from transaction_fee_exact [OF this refl refl] show "getTransactionFee c ?tx 9 = Return 100"
    by (simp add: input_amount_def input_interest_def)
qed

end
