(* ===== verification/TransactionExtra.thy ===== *)
theory TransactionExtra
  imports CryptoNoteTools StringTools Varint
begin

text \<open>
  \<^verbatim>\<open>src/CryptoNoteCore/TransactionExtra.cpp\<close> and \<^verbatim>\<open>TransactionExtra.h\<close>, with the merge mining tag's
  \<open>serialize\<close> of \<^verbatim>\<open>CryptoNoteSerialization.cpp\<close>: the tagged fields of a transaction's extra data.
  \<open>parseTransactionExtra\<close> returns its bool and the fields it has pushed, also when it fails. The
  functions that append to \<open>tx_extra\<close> return the new vector, \<open>None\<close> when they return false. The key
  derivation, \<open>cn_fast_hash\<close> and \<open>chacha8\<close> are parameters of the message functions.
\<close>

section \<open>Fields\<close>

datatype TransactionExtraField =
    TransactionExtraPadding nat  \<comment> \<open>size\<close>
  | TransactionExtraPublicKey PublicKey
  | TransactionExtraNonce bytes
  | TransactionExtraMergeMiningTag uint64 Hash  \<comment> \<open>depth, merkleRoot\<close>
  | tx_extra_message bytes
  | TransactionExtraTTL uint64

definition TX_EXTRA_PADDING_MAX_COUNT :: nat where
  "TX_EXTRA_PADDING_MAX_COUNT = 255"

definition TX_EXTRA_NONCE_MAX_COUNT :: nat where
  "TX_EXTRA_NONCE_MAX_COUNT = 255"

definition out_mmTag :: "uint64 \<Rightarrow> Hash \<Rightarrow> writer" where
  "out_mmTag depth merkleRoot = (case wcat (out_uint64 depth) (out_pod merkleRoot) of
     Inl e \<Rightarrow> Inl e | Inr field \<Rightarrow> out_string field)"

definition in_mmTag :: "TransactionExtraField reader" where
  "in_mmTag = rbind in_string (\<lambda>field rest.
     case rbind in_uint64 (\<lambda>depth. rbind in_pod (\<lambda>root. rreturn (depth, root))) field of
       Inl e \<Rightarrow> Inl e
     | Inr ((depth, root), _) \<Rightarrow> Inr (TransactionExtraMergeMiningTag depth root, rest))"

section \<open>Parsing\<close>

fun parse_padding :: "nat \<Rightarrow> bytes \<Rightarrow> (nat \<times> bytes) option" where
  "parse_padding n [] = Some (n, [])"
| "parse_padding n (b # bs) =
     (if n \<le> TX_EXTRA_PADDING_MAX_COUNT
      then if b \<noteq> 0 then None else parse_padding (n + 1) bs
      else Some (n, b # bs))"

text \<open>One turn of the loop after the tag byte \<open>c\<close>: the fields pushed and the rest of the stream, or
  \<open>None\<close> for a false return or an exception. An unknown tag pushes nothing.\<close>

definition parse_field :: "uint8 \<Rightarrow> bytes \<Rightarrow> (TransactionExtraField list \<times> bytes) option" where
  "parse_field c bs =
     (if c = 0x00 then
        (case parse_padding 1 bs of None \<Rightarrow> None
         | Some (n, rest) \<Rightarrow>
             if n > TX_EXTRA_PADDING_MAX_COUNT then None else Some ([TransactionExtraPadding n], rest))
      else if c = 0x01 then
        (case in_pod bs of Inl e \<Rightarrow> None
         | Inr (key, rest) \<Rightarrow> Some ([TransactionExtraPublicKey key], rest))
      else if c = 0x02 then
        (case read_bytes 1 bs of Inl e \<Rightarrow> None
         | Inr (n, rest) \<Rightarrow>
             if 0 < hd n then
               (case read_bytes (unat (hd n)) rest of Inl e \<Rightarrow> None
                | Inr (dat, rest') \<Rightarrow> Some ([TransactionExtraNonce dat], rest'))
             else Some ([TransactionExtraNonce []], rest))
      else if c = 0x03 then
        (case in_mmTag bs of Inl e \<Rightarrow> None | Inr (tag, rest) \<Rightarrow> Some ([tag], rest))
      else if c = 0x04 then
        (case in_string bs of Inl e \<Rightarrow> None
         | Inr (data, rest) \<Rightarrow> Some ([tx_extra_message data], rest))
      else if c = 0x05 then
        (case rbind in_uint8 (\<lambda>n. in_uint64) bs of Inl e \<Rightarrow> None
         | Inr (ttl, rest) \<Rightarrow> Some ([TransactionExtraTTL ttl], rest))
      else Some ([], bs))"

lemma parse_padding_shorter: "parse_padding n bs = Some (m, r) \<Longrightarrow> length r \<le> length bs"
  by (induction n bs rule: parse_padding.induct) (auto split: if_splits)

lemma read_bytes_shorter: "read_bytes n bs = Inr (x, r) \<Longrightarrow> length r \<le> length bs"
  by (auto simp: read_bytes_iff)

lemma in_mmTag_shorter: "in_mmTag bs = Inr (x, r) \<Longrightarrow> length r \<le> length bs"
proof -
  assume "in_mmTag bs = Inr (x, r)"
  then obtain field where "in_string bs = Inr (field, r)"
    unfolding in_mmTag_def rbind_def by (auto split: sum.splits prod.splits)
  then show ?thesis by (rule str.dec_shorter)
qed

lemma parse_field_shorter: "parse_field c bs = Some (fs, r) \<Longrightarrow> length r \<le> length bs"
  unfolding parse_field_def
  by (auto simp: rbind_Inr_iff split: if_splits option.splits sum.splits
      dest!: parse_padding_shorter read_bytes_shorter in_mmTag_shorter
        pod256.dec_shorter str.dec_shorter u8.dec_shorter u64.dec_shorter)

function parse_loop :: "bytes \<Rightarrow> TransactionExtraField list \<Rightarrow> bool \<times> TransactionExtraField list" where
  "parse_loop [] flds = (True, flds)"
| "parse_loop (c # bs) flds = (case parse_field c bs of
     None \<Rightarrow> (False, flds)
   | Some (fs, rest) \<Rightarrow> parse_loop rest (flds @ fs))"
  by pat_completeness auto
termination
  by (relation "measure (\<lambda>(bs, flds). length bs)") (auto dest: parse_field_shorter)

definition parseTransactionExtra :: "bytes \<Rightarrow> bool \<times> TransactionExtraField list" where
  "parseTransactionExtra tx_extra = (if tx_extra = [] then (True, []) else parse_loop tx_extra [])"

section \<open>Writing\<close>

definition addTransactionPublicKeyToExtra :: "bytes \<Rightarrow> PublicKey \<Rightarrow> bytes" where
  "addTransactionPublicKeyToExtra tx_extra tx_pub_key = tx_extra @ [0x01] @ pod_bytes 32 tx_pub_key"

definition addExtraNonceToTransactionExtra :: "bytes \<Rightarrow> bytes \<Rightarrow> bytes option" where
  "addExtraNonceToTransactionExtra tx_extra extra_nonce =
     (if length extra_nonce > TX_EXTRA_NONCE_MAX_COUNT then None
      else Some (tx_extra @ [0x02, of_nat (length extra_nonce)] @ extra_nonce))"

definition appendMergeMiningTagToExtra :: "bytes \<Rightarrow> uint64 \<Rightarrow> Hash \<Rightarrow> bytes option" where
  "appendMergeMiningTagToExtra tx_extra depth merkleRoot = (case out_mmTag depth merkleRoot of
     Inl e \<Rightarrow> None | Inr blob \<Rightarrow> Some (tx_extra @ [0x03] @ blob))"

definition append_message_to_extra :: "bytes \<Rightarrow> bytes \<Rightarrow> bytes option" where
  "append_message_to_extra tx_extra data = (case toBinaryArray out_string data of
     None \<Rightarrow> None | Some blob \<Rightarrow> Some (tx_extra @ [0x04] @ blob))"

definition appendTTLToExtra :: "bytes \<Rightarrow> uint64 \<Rightarrow> bytes" where
  "appendTTLToExtra tx_extra ttl =
     (let ttlData = get_varint_data ttl;
          extraFieldSize = get_varint_data (of_nat (length ttlData))
      in tx_extra @ [0x05] @ extraFieldSize @ ttlData)"

fun write_field :: "bytes \<Rightarrow> TransactionExtraField \<Rightarrow> bytes option" where
  "write_field tx_extra (TransactionExtraPadding n) =
     (if n > TX_EXTRA_PADDING_MAX_COUNT then None else Some (tx_extra @ replicate n 0))"
| "write_field tx_extra (TransactionExtraPublicKey key) = Some (addTransactionPublicKeyToExtra tx_extra key)"
| "write_field tx_extra (TransactionExtraNonce dat) = addExtraNonceToTransactionExtra tx_extra dat"
| "write_field tx_extra (TransactionExtraMergeMiningTag depth root) = appendMergeMiningTagToExtra tx_extra depth root"
| "write_field tx_extra (tx_extra_message data) = append_message_to_extra tx_extra data"
| "write_field tx_extra (TransactionExtraTTL ttl) = Some (appendTTLToExtra tx_extra ttl)"

fun writeTransactionExtra :: "bytes \<Rightarrow> TransactionExtraField list \<Rightarrow> bytes option" where
  "writeTransactionExtra tx_extra [] = Some tx_extra"
| "writeTransactionExtra tx_extra (f # fs) = (case write_field tx_extra f of
     None \<Rightarrow> None | Some tx_extra' \<Rightarrow> writeTransactionExtra tx_extra' fs)"

section \<open>Lookups and payment identifiers\<close>

definition getTransactionPublicKeyFromExtra :: "bytes \<Rightarrow> PublicKey" where
  "getTransactionPublicKeyFromExtra tx_extra =
     (case List.find (\<lambda>f. case f of TransactionExtraPublicKey _ \<Rightarrow> True | _ \<Rightarrow> False)
        (snd (parseTransactionExtra tx_extra)) of
        Some (TransactionExtraPublicKey key) \<Rightarrow> key | _ \<Rightarrow> 0)"

definition getMergeMiningTagFromExtra :: "bytes \<Rightarrow> (uint64 \<times> Hash) option" where
  "getMergeMiningTagFromExtra tx_extra =
     (case List.find (\<lambda>f. case f of TransactionExtraMergeMiningTag _ _ \<Rightarrow> True | _ \<Rightarrow> False)
        (snd (parseTransactionExtra tx_extra)) of
        Some (TransactionExtraMergeMiningTag depth root) \<Rightarrow> Some (depth, root) | _ \<Rightarrow> None)"

definition setPaymentIdToTransactionExtraNonce :: "Hash \<Rightarrow> bytes" where
  "setPaymentIdToTransactionExtraNonce payment_id = [0x00] @ pod_bytes 32 payment_id"

definition getPaymentIdFromTransactionExtraNonce :: "bytes \<Rightarrow> Hash option" where
  "getPaymentIdFromTransactionExtraNonce extra_nonce =
     (if 32 + 1 \<noteq> length extra_nonce then None
      else if 0x00 \<noteq> extra_nonce ! 0 then None
      else Some (pod_of_bytes (drop 1 extra_nonce)))"

definition parsePaymentId :: "string \<Rightarrow> Hash option" where
  "parsePaymentId paymentIdString = podFromHex paymentIdString"

definition createTxExtraWithPaymentId :: "string \<Rightarrow> bytes \<Rightarrow> bytes option" where
  "createTxExtraWithPaymentId paymentIdString tx_extra = (case parsePaymentId paymentIdString of
     None \<Rightarrow> None
   | Some paymentIdBin \<Rightarrow>
       addExtraNonceToTransactionExtra tx_extra (setPaymentIdToTransactionExtraNonce paymentIdBin))"

definition getPaymentIdFromTxExtra :: "bytes \<Rightarrow> Hash option" where
  "getPaymentIdFromTxExtra tx_extra =
     (let (ok, flds) = parseTransactionExtra tx_extra in
      if \<not> ok then None
      else case List.find (\<lambda>f. case f of TransactionExtraNonce _ \<Rightarrow> True | _ \<Rightarrow> False) flds of
        Some (TransactionExtraNonce dat) \<Rightarrow> getPaymentIdFromTransactionExtraNonce dat | _ \<Rightarrow> None)"

section \<open>Messages\<close>

type_synonym key_derivation = "PublicKey \<Rightarrow> SecretKey \<Rightarrow> KeyDerivation option"

definition TX_EXTRA_MESSAGE_CHECKSUM_SIZE :: nat where
  "TX_EXTRA_MESSAGE_CHECKSUM_SIZE = 4"

definition message_key :: "(bytes \<Rightarrow> Hash) \<Rightarrow> KeyDerivation \<Rightarrow> Hash" where
  "message_key cn_fast_hash derivation = cn_fast_hash (pod_bytes 32 derivation @ [0x80, 0])"

definition message_encrypt ::
  "key_derivation \<Rightarrow> (bytes \<Rightarrow> Hash) \<Rightarrow> (Hash \<Rightarrow> uint64 \<Rightarrow> bytes \<Rightarrow> bytes) \<Rightarrow>
   uint64 \<Rightarrow> bytes \<Rightarrow> AccountPublicAddress option \<Rightarrow> KeyPair \<Rightarrow> bytes option" where
  "message_encrypt generate_key_derivation cn_fast_hash chacha8 index message recipient txkey =
     (let buf = message @ replicate TX_EXTRA_MESSAGE_CHECKSUM_SIZE 0 in
      case recipient of
        None \<Rightarrow> Some buf
      | Some addr \<Rightarrow>
          (case generate_key_derivation (spendPublicKey addr) (secretKey txkey) of
             None \<Rightarrow> None
           | Some derivation \<Rightarrow> Some (chacha8 (message_key cn_fast_hash derivation) index buf)))"

definition message_decrypt ::
  "key_derivation \<Rightarrow> (bytes \<Rightarrow> Hash) \<Rightarrow> (Hash \<Rightarrow> uint64 \<Rightarrow> bytes \<Rightarrow> bytes) \<Rightarrow>
   uint64 \<Rightarrow> PublicKey \<Rightarrow> SecretKey option \<Rightarrow> bytes \<Rightarrow> bytes option" where
  "message_decrypt generate_key_derivation cn_fast_hash chacha8 index txkey recipient data =
     (if length data < TX_EXTRA_MESSAGE_CHECKSUM_SIZE then None
      else
        case (case recipient of
                None \<Rightarrow> Some data
              | Some sec \<Rightarrow>
                  (case generate_key_derivation txkey sec of
                     None \<Rightarrow> None
                   | Some derivation \<Rightarrow> Some (chacha8 (message_key cn_fast_hash derivation) index data))) of
          None \<Rightarrow> None
        | Some buf \<Rightarrow>
            let mlen = length data - TX_EXTRA_MESSAGE_CHECKSUM_SIZE in
            if list_ex (\<lambda>i. buf ! (mlen + i) \<noteq> 0) [0..<TX_EXTRA_MESSAGE_CHECKSUM_SIZE] then None
            else Some (take mlen buf))"

fun decrypt_fields :: "(uint64 \<Rightarrow> bytes \<Rightarrow> bytes option) \<Rightarrow> uint64 \<Rightarrow> TransactionExtraField list \<Rightarrow> bytes list" where
  "decrypt_fields dec i [] = []"
| "decrypt_fields dec i (f # fs) = (case f of
     tx_extra_message data \<Rightarrow>
       (case dec i data of None \<Rightarrow> [] | Some res \<Rightarrow> [res]) @ decrypt_fields dec (i + 1) fs
   | _ \<Rightarrow> decrypt_fields dec i fs)"

definition get_messages_from_extra ::
  "key_derivation \<Rightarrow> (bytes \<Rightarrow> Hash) \<Rightarrow> (Hash \<Rightarrow> uint64 \<Rightarrow> bytes \<Rightarrow> bytes) \<Rightarrow>
   bytes \<Rightarrow> PublicKey \<Rightarrow> SecretKey option \<Rightarrow> bytes list" where
  "get_messages_from_extra generate_key_derivation cn_fast_hash chacha8 tx_extra txkey recipient =
     (let (ok, flds) = parseTransactionExtra tx_extra in
      if \<not> ok then []
      else decrypt_fields (\<lambda>i. message_decrypt generate_key_derivation cn_fast_hash chacha8 i txkey recipient) 0 flds)"

section \<open>Round trips\<close>

text \<open>The field lists that survive a write and a parse: padding only at the end, with a size the
  writer and the parser both accept, and data within the size limits.\<close>

fun wf_extra_fields :: "TransactionExtraField list \<Rightarrow> bool" where
  "wf_extra_fields [] = True"
| "wf_extra_fields (TransactionExtraPadding n # fs) = (fs = [] \<and> 0 < n \<and> n \<le> TX_EXTRA_PADDING_MAX_COUNT)"
| "wf_extra_fields (TransactionExtraNonce dat # fs) = (length dat \<le> TX_EXTRA_NONCE_MAX_COUNT \<and> wf_extra_fields fs)"
| "wf_extra_fields (tx_extra_message dat # fs) = (length dat \<le> max_container_size \<and> wf_extra_fields fs)"
| "wf_extra_fields (f # fs) = wf_extra_fields fs"

lemma parse_padding_zeros:
  "n + k \<le> TX_EXTRA_PADDING_MAX_COUNT + 1 \<Longrightarrow> parse_padding n (replicate k 0) = Some (n + k, [])"
  by (induction k arbitrary: n) auto

lemma in_mmTag_out_mmTag:
  "\<exists>b. out_mmTag depth root = Inr b \<and> in_mmTag (b @ rest) = Inr (TransactionExtraMergeMiningTag depth root, rest)"
proof -
  define field where "field = writeVarint depth @ pod_bytes 32 root"
  have out: "wcat (out_uint64 depth) (out_pod root) = Inr field"
    by (simp add: out_uint64_def out_pod_def out_binary_def field_def)
  have len: "length field \<le> max_container_size"
    using length_writeVarint [of depth] by (simp add: field_def max_container_size_def)
  have "in_uint64 (writeVarint depth @ pod_bytes 32 root) = Inr (depth, pod_bytes 32 root)"
    by (simp add: in_uint64_iff)
  moreover have "in_pod (pod_bytes 32 root @ []) = Inr (root, [])"
    using pod256.dec_enc [of root "pod_bytes 32 root" "[]"] by (simp add: out_pod_def out_binary_def)
  ultimately have inner: "rbind in_uint64 (\<lambda>depth. rbind in_pod (\<lambda>root. rreturn (depth, root))) field =
      Inr ((depth, root), [])"
    by (simp add: rbind_def rreturn_def field_def)
  obtain b where b: "out_string field = Inr b" using str.enc_wf [OF len] by blast
  have "in_string (b @ rest) = Inr (field, rest)" by (rule str.dec_enc [OF len b])
  then show ?thesis using b inner by (simp add: out_mmTag_def out in_mmTag_def rbind_def)
qed

lemma write_field_parse_field:
  assumes "wf_extra_fields (f # fs)" and "fs = [] \<longrightarrow> rest = []"
  shows "\<exists>c b. (\<forall>ex. write_field ex f = Some (ex @ c # b)) \<and> parse_field c (b @ rest) = Some ([f], rest)"
proof (cases f)
  case (TransactionExtraPadding n)
  then obtain k where "n = Suc k" "k \<le> 254" "rest = []"
    using assms by (cases n) (auto simp: TX_EXTRA_PADDING_MAX_COUNT_def)
  then show ?thesis
    using TransactionExtraPadding parse_padding_zeros [of 1 k]
    by (intro exI [of _ 0] exI [of _ "replicate k 0"])
      (simp add: parse_field_def TX_EXTRA_PADDING_MAX_COUNT_def)
next
  case (TransactionExtraPublicKey key)
  have "in_pod (pod_bytes 32 key @ rest) = Inr (key, rest)"
    using pod256.dec_enc [of key "pod_bytes 32 key" rest] by (simp add: out_pod_def out_binary_def)
  then show ?thesis using TransactionExtraPublicKey
    by (intro exI [of _ 1] exI [of _ "pod_bytes 32 key"])
      (simp add: parse_field_def addTransactionPublicKeyToExtra_def)
next
  case (TransactionExtraNonce dat)
  then have len: "length dat \<le> 255" using assms by (simp add: TX_EXTRA_NONCE_MAX_COUNT_def)
  then have n: "unat (of_nat (length dat) :: uint8) = length dat" by (simp add: unat_of_nat_small)
  then have z: "0 < (of_nat (length dat) :: uint8) \<longleftrightarrow> dat \<noteq> []" by (simp add: word_less_nat_alt)
  show ?thesis using TransactionExtraNonce len n z
    by (intro exI [of _ 2] exI [of _ "of_nat (length dat) # dat"])
      (simp add: parse_field_def addExtraNonceToTransactionExtra_def TX_EXTRA_NONCE_MAX_COUNT_def read_bytes_def)
next
  case (TransactionExtraMergeMiningTag depth root)
  then show ?thesis using in_mmTag_out_mmTag [of depth root rest]
    by (auto simp: parse_field_def appendMergeMiningTagToExtra_def intro!: exI [of _ 3])
next
  case (tx_extra_message dat)
  then have len: "length dat \<le> max_container_size" using assms by simp
  then obtain b where "out_string dat = Inr b" "in_string (b @ rest) = Inr (dat, rest)"
    using str.enc_wf str.dec_enc by blast
  then show ?thesis using tx_extra_message
    by (auto simp: parse_field_def append_message_to_extra_def toBinaryArray_def intro!: exI [of _ 4])
next
  case (TransactionExtraTTL ttl)
  let ?d = "get_varint_data ttl"
  let ?n = "get_varint_data (of_nat (length ?d))"
  have "length ?d \<le> 10" using length_writeVarint by (simp add: get_varint_data_def write_varint_eq)
  then have small: "unat (of_nat (length ?d) :: uint64) < 256" by (simp add: unat_of_nat_small)
  have "in_uint8 (?n @ ?d @ rest) = Inr (ucast (of_nat (length ?d) :: uint64), ?d @ rest)"
    unfolding in_uint8_def get_varint_data_def write_varint_eq
    by (rule readVarint_writeVarint) (use small in \<open>simp_all add: get_varint_data_def write_varint_eq\<close>)
  moreover have "in_uint64 (?d @ rest) = Inr (ttl, rest)"
    by (simp add: in_uint64_iff get_varint_data_def write_varint_eq)
  ultimately show ?thesis using TransactionExtraTTL
    by (intro exI [of _ 5] exI [of _ "?n @ ?d"])
      (simp add: parse_field_def appendTTLToExtra_def rbind_def Let_def)
qed

lemma write_parse_loop:
  "wf_extra_fields fs \<Longrightarrow> \<exists>b. (\<forall>ex. writeTransactionExtra ex fs = Some (ex @ b)) \<and>
     (\<forall>flds. parse_loop b flds = (True, flds @ fs)) \<and> (fs = [] \<longrightarrow> b = [])"
proof (induction fs)
  case (Cons f fs)
  then have "wf_extra_fields fs" by (cases f) auto
  from Cons.IH [OF this] obtain b where b: "\<And>ex. writeTransactionExtra ex fs = Some (ex @ b)"
    "\<And>flds. parse_loop b flds = (True, flds @ fs)" "fs = [] \<longrightarrow> b = []" by blast
  from write_field_parse_field [OF Cons.prems b(3)] obtain c d
    where "\<And>ex. write_field ex f = Some (ex @ c # d)" "parse_field c (d @ b) = Some ([f], b)" by blast
  with b show ?case by (intro exI [of _ "(c # d) @ b"]) auto
qed simp

text \<open>C26: Well-formed extra fields survive: writing them after any existing extra data succeeds and
  appends bytes that depend on the fields only, and these bytes parse as exactly those fields.\<close>

theorem extra_roundtrip:
  assumes "wf_extra_fields fs"
  shows "\<exists>b. writeTransactionExtra tx_extra fs = Some (tx_extra @ b) \<and> parseTransactionExtra b = (True, fs)"
proof -
  obtain b where b: "\<And>ex. writeTransactionExtra ex fs = Some (ex @ b)"
    "\<And>flds. parse_loop b flds = (True, flds @ fs)"
    using write_parse_loop [OF assms] by blast
  then have "parseTransactionExtra b = (True, fs)"
    using b(2) [of "[]"] by (cases b) (auto simp: parseTransactionExtra_def)
  then show ?thesis using b(1) by blast
qed

theorem extra_roundtrip_witness:
  "\<exists>b. writeTransactionExtra [0xaa] [TransactionExtraPublicKey 7, TransactionExtraNonce [1, 2],
       TransactionExtraMergeMiningTag 3 9, TransactionExtraTTL 1527078920, TransactionExtraPadding 5] =
       Some ([0xaa] @ b) \<and>
     parseTransactionExtra b = (True, [TransactionExtraPublicKey 7, TransactionExtraNonce [1, 2],
       TransactionExtraMergeMiningTag 3 9, TransactionExtraTTL 1527078920, TransactionExtraPadding 5])"
  by (rule extra_roundtrip) (simp add: TX_EXTRA_NONCE_MAX_COUNT_def TX_EXTRA_PADDING_MAX_COUNT_def)

text \<open>A payment identifier put into empty extra data from its hexadecimal text is found there
  again, for every identifier.\<close>

lemma payment_id_roundtrip:
  "\<exists>ex. createTxExtraWithPaymentId (podToHex h) [] = Some ex \<and> getPaymentIdFromTxExtra ex = Some h"
proof -
  let ?n = "setPaymentIdToTransactionExtraNonce h"
  have parse: "parsePaymentId (podToHex h) = Some h"
    by (simp add: parsePaymentId_def podFromHex_def podToHex_def fromHex_buffer_def fromHex_loop_toHex
        pod_of_bytes_full)
  have "wf_extra_fields [TransactionExtraNonce ?n]"
    by (simp add: setPaymentIdToTransactionExtraNonce_def TX_EXTRA_NONCE_MAX_COUNT_def)
  from write_parse_loop [OF this] obtain b where
    w: "writeTransactionExtra [] [TransactionExtraNonce ?n] = Some ([] @ b)"
    and b: "\<And>flds. parse_loop b flds = (True, flds @ [TransactionExtraNonce ?n])" by blast
  from w have add: "addExtraNonceToTransactionExtra [] ?n = Some b" by (simp split: option.splits)
  have "parseTransactionExtra b = (True, [TransactionExtraNonce ?n])"
    using b [of "[]"] by (cases b) (auto simp: parseTransactionExtra_def)
  then have "getPaymentIdFromTxExtra b = Some h"
    by (simp add: getPaymentIdFromTxExtra_def getPaymentIdFromTransactionExtraNonce_def
        setPaymentIdToTransactionExtraNonce_def pod_of_bytes_full)
  with add show ?thesis by (auto simp: createTxExtraWithPaymentId_def parse)
qed

text \<open>A message encrypted for a recipient is decrypted by that recipient: given that the two key
  derivations agree, as the Diffie-Hellman exchange makes them, and that the stream cipher keeps the
  length and undoes itself, the decryption of the encrypted message is the message.\<close>

lemma message_roundtrip:
  assumes agree: "generate_key_derivation (spendPublicKey addr) (secretKey txkey) = Some derivation"
      "generate_key_derivation (publicKey txkey) sec = Some derivation"
    and cipher_length: "\<forall>k n m. length (chacha8 k n m) = length m"
    and cipher_involutive: "\<forall>k n m. chacha8 k n (chacha8 k n m) = m"
  shows "\<exists>data. message_encrypt generate_key_derivation cn_fast_hash chacha8 i message (Some addr) txkey = Some data \<and>
    message_decrypt generate_key_derivation cn_fast_hash chacha8 i (publicKey txkey) (Some sec) data = Some message"
proof -
  let ?buf = "message @ replicate TX_EXTRA_MESSAGE_CHECKSUM_SIZE 0"
  let ?data = "chacha8 (message_key cn_fast_hash derivation) i ?buf"
  have zeros: "\<not> list_ex (\<lambda>j. ?buf ! (length message + j) \<noteq> 0) [0..<TX_EXTRA_MESSAGE_CHECKSUM_SIZE]"
    by (simp add: list_ex_iff nth_append)
  have "message_decrypt generate_key_derivation cn_fast_hash chacha8 i (publicKey txkey) (Some sec) ?data = Some message"
    using zeros by (simp add: message_decrypt_def agree cipher_length cipher_involutive Let_def)
  then show ?thesis by (simp add: message_encrypt_def agree Let_def)
qed

end
