(* ===== verification/BlockchainIndices.thy ===== *)
theory BlockchainIndices
  imports TransactionExtra BlockHashing "HOL-Library.Multiset"
begin

text \<open>
  \<^verbatim>\<open>src/CryptoNoteCore/BlockchainIndices.cpp\<close>: the lookup tables kept beside the chain and the pool.
  A \<open>std::unordered_multimap\<close> leaves the order of its elements open, so it is a multiset of pairs
  and \<open>find\<close> returns a multiset of hashes. A \<open>std::multimap\<close> is the list of its pairs in the order of
  iteration: by key, and in the order of insertion for equal keys. The \<open>std::unordered_map\<close> of
  \<open>GeneratedTransactionsIndex\<close> is an association list with one entry per key.
  \<open>boost::get\<close> on an input that is not a \<open>BaseInput\<close> throws; such a call returns \<open>None\<close>.
\<close>

section \<open>Payment identifiers\<close>

type_synonym PaymentIdIndex = "(Hash \<times> Hash) multiset"

text \<open>\<open>BlockchainExplorerDataBuilder::getPaymentId\<close> ignores whether the extra data parses to its end.\<close>

definition getPaymentId :: "'z Transaction_scheme \<Rightarrow> Hash option" where
  "getPaymentId transaction =
     (case List.find (\<lambda>f. case f of TransactionExtraNonce _ \<Rightarrow> True | _ \<Rightarrow> False)
        (snd (parseTransactionExtra (extra transaction))) of
        Some (TransactionExtraNonce n) \<Rightarrow> getPaymentIdFromTransactionExtraNonce n
      | _ \<Rightarrow> None)"

definition mm_emplace :: "'k \<Rightarrow> Hash \<Rightarrow> ('k \<times> Hash) multiset \<Rightarrow> ('k \<times> Hash) multiset" where
  "mm_emplace k h m = add_mset (k, h) m"

definition mm_erase :: "'k \<Rightarrow> Hash \<Rightarrow> ('k \<times> Hash) multiset \<Rightarrow> bool \<times> ('k \<times> Hash) multiset" where
  "mm_erase k h m = (if (k, h) \<in># m then (True, m - {#(k, h)#}) else (False, m))"

definition mm_find :: "'k \<Rightarrow> ('k \<times> Hash) multiset \<Rightarrow> bool \<times> Hash multiset" where
  "mm_find k m = (let r = {# p \<in># m. fst p = k #} in (r \<noteq> {#}, image_mset snd r))"

definition PaymentIdIndex_add :: "(bytes \<Rightarrow> Hash) \<Rightarrow> Transaction \<Rightarrow> PaymentIdIndex \<Rightarrow> bool \<times> PaymentIdIndex" where
  "PaymentIdIndex_add cn_fast_hash transaction m =
     (case getPaymentId transaction of
        None \<Rightarrow> (False, m)
      | Some paymentId \<Rightarrow> (True, mm_emplace paymentId (snd (getObjectHash cn_fast_hash out_Transaction transaction)) m))"

definition PaymentIdIndex_remove :: "(bytes \<Rightarrow> Hash) \<Rightarrow> Transaction \<Rightarrow> PaymentIdIndex \<Rightarrow> bool \<times> PaymentIdIndex" where
  "PaymentIdIndex_remove cn_fast_hash transaction m =
     (case getPaymentId transaction of
        None \<Rightarrow> (False, m)
      | Some paymentId \<Rightarrow> mm_erase paymentId (snd (getObjectHash cn_fast_hash out_Transaction transaction)) m)"

definition PaymentIdIndex_find :: "Hash \<Rightarrow> PaymentIdIndex \<Rightarrow> bool \<times> Hash multiset" where
  "PaymentIdIndex_find paymentId m = mm_find paymentId m"

definition PaymentIdIndex_clear :: "PaymentIdIndex \<Rightarrow> PaymentIdIndex" where
  "PaymentIdIndex_clear m = {#}"

section \<open>Timestamps\<close>

type_synonym TimestampIndex = "(uint64 \<times> Hash) list"

definition TimestampBlocksIndex_add :: "uint64 \<Rightarrow> Hash \<Rightarrow> TimestampIndex \<Rightarrow> bool \<times> TimestampIndex" where
  "TimestampBlocksIndex_add stamp hash m =
     (True, takeWhile (\<lambda>p. fst p \<le> stamp) m @ (stamp, hash) # dropWhile (\<lambda>p. fst p \<le> stamp) m)"

definition TimestampBlocksIndex_remove :: "uint64 \<Rightarrow> Hash \<Rightarrow> TimestampIndex \<Rightarrow> bool \<times> TimestampIndex" where
  "TimestampBlocksIndex_remove stamp hash m =
     (if (stamp, hash) \<in> set m then (True, remove1 (stamp, hash) m) else (False, m))"

text \<open>The result, the hashes and \<open>hashesNumberWithinTimestamps\<close>, which is not assigned when the
  interval is empty.\<close>

definition TimestampBlocksIndex_find ::
  "uint64 \<Rightarrow> uint64 \<Rightarrow> uint32 \<Rightarrow> TimestampIndex \<Rightarrow> bool \<times> Hash list \<times> uint32 option" where
  "TimestampBlocksIndex_find timestampBegin timestampEnd hashesNumberLimit m =
     (if timestampEnd < timestampBegin then (False, [], None)
      else
        let r = takeWhile (\<lambda>p. fst p \<le> timestampEnd) (dropWhile (\<lambda>p. fst p < timestampBegin) m);
            hashes = map snd (take (unat hashesNumberLimit) r)
        in (hashes \<noteq> [], hashes, Some (of_nat (length r))))"

definition TimestampBlocksIndex_clear :: "TimestampIndex \<Rightarrow> TimestampIndex" where
  "TimestampBlocksIndex_clear m = []"

definition TimestampTransactionsIndex_add :: "uint64 \<Rightarrow> Hash \<Rightarrow> TimestampIndex \<Rightarrow> bool \<times> TimestampIndex" where
  "TimestampTransactionsIndex_add stamp hash m =
     (True, takeWhile (\<lambda>p. fst p \<le> stamp) m @ (stamp, hash) # dropWhile (\<lambda>p. fst p \<le> stamp) m)"

definition TimestampTransactionsIndex_remove :: "uint64 \<Rightarrow> Hash \<Rightarrow> TimestampIndex \<Rightarrow> bool \<times> TimestampIndex" where
  "TimestampTransactionsIndex_remove stamp hash m =
     (if (stamp, hash) \<in> set m then (True, remove1 (stamp, hash) m) else (False, m))"

text \<open>The interval ends at 0 for the first block, whose timestamp is not 0: the first entry is taken.
  The counter of the results has 32 bits and the limit 64; an index has fewer than 2 to the 32
  entries.\<close>

definition TimestampTransactionsIndex_find ::
  "uint64 \<Rightarrow> uint64 \<Rightarrow> uint64 \<Rightarrow> TimestampIndex \<Rightarrow> bool \<times> Hash list \<times> uint64 option" where
  "TimestampTransactionsIndex_find timestampBegin timestampEnd hashesNumberLimit m =
     (if timestampEnd < timestampBegin then (False, [], None)
      else
        let below = takeWhile (\<lambda>p. fst p < timestampBegin) m;
            r = takeWhile (\<lambda>p. fst p \<le> timestampEnd) (dropWhile (\<lambda>p. fst p < timestampBegin) m);
            r = (if timestampEnd = 0 \<and> r = [] \<and> below = [] \<and> m \<noteq> [] then take 1 m else r);
            hashes = map snd (take (unat hashesNumberLimit) r)
        in (hashes \<noteq> [], hashes, Some (ucast (of_nat (length r) :: uint32))))"

definition TimestampTransactionsIndex_clear :: "TimestampIndex \<Rightarrow> TimestampIndex" where
  "TimestampTransactionsIndex_clear m = []"

section \<open>Numbers of transactions\<close>

record GeneratedTransactionsIndex =
  gti_index :: "(uint32 \<times> uint64) list"
  lastGeneratedTxNumber :: uint64

definition GeneratedTransactionsIndex_new :: GeneratedTransactionsIndex where
  "GeneratedTransactionsIndex_new = \<lparr>gti_index = [], lastGeneratedTxNumber = 0\<rparr>"

definition base_block_index :: "'z Block_scheme \<Rightarrow> uint32 option" where
  "base_block_index block = (case inputs (baseTransaction block) of BaseInput n # _ \<Rightarrow> Some n | _ \<Rightarrow> None)"

definition GeneratedTransactionsIndex_add ::
  "Block \<Rightarrow> GeneratedTransactionsIndex \<Rightarrow> (bool \<times> GeneratedTransactionsIndex) option" where
  "GeneratedTransactionsIndex_add block g = (case base_block_index block of
     None \<Rightarrow> None
   | Some blockHeight \<Rightarrow> Some (
       if length (gti_index g) \<noteq> unat blockHeight then (False, g)
       else if blockHeight \<in> fst ` set (gti_index g) then (False, g)
       else
         let n = lastGeneratedTxNumber g + of_nat (length (transactionHashes block)) + 1
         in (True, \<lparr>gti_index = (blockHeight, n) # gti_index g, lastGeneratedTxNumber = n\<rparr>)))"

text \<open>A failed assertion is \<open>None\<close> as well. The comparison with \<open>index.size() - 1\<close> wraps for an empty
  index, and a 32-bit height is then never equal.\<close>

definition GeneratedTransactionsIndex_remove ::
  "Block \<Rightarrow> GeneratedTransactionsIndex \<Rightarrow> (bool \<times> GeneratedTransactionsIndex) option" where
  "GeneratedTransactionsIndex_remove block g = (case base_block_index block of
     None \<Rightarrow> None
   | Some blockHeight \<Rightarrow>
       if (ucast blockHeight :: uint64) \<noteq> of_nat (length (gti_index g)) - 1 then Some (False, g)
       else if blockHeight \<notin> fst ` set (gti_index g) then None
       else
         let rest = filter (\<lambda>p. fst p \<noteq> blockHeight) (gti_index g) in
         if blockHeight \<noteq> 0
         then (case map_of rest (blockHeight - 1) of
                 None \<Rightarrow> None
               | Some n \<Rightarrow> Some (True, \<lparr>gti_index = rest, lastGeneratedTxNumber = n\<rparr>))
         else Some (True, \<lparr>gti_index = rest, lastGeneratedTxNumber = 0\<rparr>))"

definition GeneratedTransactionsIndex_find :: "uint32 \<Rightarrow> GeneratedTransactionsIndex \<Rightarrow> uint64 option" where
  "GeneratedTransactionsIndex_find height g = map_of (gti_index g) height"

definition GeneratedTransactionsIndex_clear :: "GeneratedTransactionsIndex \<Rightarrow> GeneratedTransactionsIndex" where
  "GeneratedTransactionsIndex_clear g = g\<lparr>gti_index := []\<rparr>"

section \<open>Orphan blocks\<close>

type_synonym OrphanBlocksIndex = "(uint32 \<times> Hash) multiset"

definition OrphanBlocksIndex_add :: "(bytes \<Rightarrow> Hash) \<Rightarrow> Block \<Rightarrow> OrphanBlocksIndex \<Rightarrow> (bool \<times> OrphanBlocksIndex) option" where
  "OrphanBlocksIndex_add cn_fast_hash block m = (case base_block_index block of
     None \<Rightarrow> None
   | Some blockHeight \<Rightarrow> Some (True, mm_emplace blockHeight (get_block_hash_value cn_fast_hash block) m))"

definition OrphanBlocksIndex_remove :: "(bytes \<Rightarrow> Hash) \<Rightarrow> Block \<Rightarrow> OrphanBlocksIndex \<Rightarrow> (bool \<times> OrphanBlocksIndex) option" where
  "OrphanBlocksIndex_remove cn_fast_hash block m = (case base_block_index block of
     None \<Rightarrow> None
   | Some blockHeight \<Rightarrow> Some (mm_erase blockHeight (get_block_hash_value cn_fast_hash block) m))"

definition OrphanBlocksIndex_find :: "uint32 \<Rightarrow> OrphanBlocksIndex \<Rightarrow> bool \<times> Hash multiset" where
  "OrphanBlocksIndex_find height m = mm_find height m"

definition OrphanBlocksIndex_clear :: "OrphanBlocksIndex \<Rightarrow> OrphanBlocksIndex" where
  "OrphanBlocksIndex_clear m = {#}"

section \<open>The contract of an index\<close>

text \<open>All indices hold pairs; adding one and removing one are the operations that the chain and the
  pool call when a block or a transaction comes and goes.\<close>

locale hash_index =
  fixes put :: "'k \<Rightarrow> Hash \<Rightarrow> 'i \<Rightarrow> 'i" and del :: "'k \<Rightarrow> Hash \<Rightarrow> 'i \<Rightarrow> bool \<times> 'i"
    and contents :: "'i \<Rightarrow> ('k \<times> Hash) multiset"
  assumes put_contents: "contents (put k h i) = add_mset (k, h) (contents i)"
    and del_found: "(k, h) \<in># contents i \<Longrightarrow> \<exists>j. del k h i = (True, j) \<and> contents j = contents i - {#(k, h)#}"
    and del_absent: "(k, h) \<notin># contents i \<Longrightarrow> del k h i = (False, i)"
begin

lemma del_contents: "contents (snd (del k h i)) = contents i - {#(k, h)#}"
  using del_found [of k h i] del_absent [of k h i] by (cases "(k, h) \<in># contents i") (auto simp: diff_single_trivial)

lemma del_put: "fst (del k h (put k h i)) \<and> contents (snd (del k h (put k h i))) = contents i"
  using del_found [of k h "put k h i"] by (auto simp: put_contents)

lemma fold_put: "contents (fold (\<lambda>(k, h). put k h) xs i) = contents i + mset xs"
  by (induction xs arbitrary: i) (auto simp: put_contents)

lemma fold_del: "contents (fold (\<lambda>(k, h) i. snd (del k h i)) ys i) = contents i - mset ys"
  by (induction ys arbitrary: i) (auto simp: del_contents)

end

interpretation mm: hash_index mm_emplace mm_erase "\<lambda>m. m"
  by unfold_locales (auto simp: mm_emplace_def mm_erase_def)

lemma mset_split_put:
  "mset (takeWhile P m @ x # dropWhile P m) = add_mset x (mset m)"
  by (metis mset_append takeWhile_dropWhile_id union_mset_add_mset_right mset.simps(2))

interpretation tbi: hash_index "\<lambda>k h m. snd (TimestampBlocksIndex_add k h m)" TimestampBlocksIndex_remove mset
  by unfold_locales
    (auto simp: TimestampBlocksIndex_add_def TimestampBlocksIndex_remove_def simp del: mset_append simp: mset_split_put)

interpretation tti: hash_index "\<lambda>k h m. snd (TimestampTransactionsIndex_add k h m)" TimestampTransactionsIndex_remove mset
  by unfold_locales
    (auto simp: TimestampTransactionsIndex_add_def TimestampTransactionsIndex_remove_def simp del: mset_append simp: mset_split_put)

section \<open>Payment identifiers of the transactions in an index\<close>

abbreviation tx_id :: "(bytes \<Rightarrow> Hash) \<Rightarrow> Transaction \<Rightarrow> Hash" where
  "tx_id cn_fast_hash t \<equiv> snd (getObjectHash cn_fast_hash out_Transaction t)"

definition payment_entries :: "(bytes \<Rightarrow> Hash) \<Rightarrow> Transaction list \<Rightarrow> (Hash \<times> Hash) list" where
  "payment_entries cn_fast_hash txs = List.map_filter (\<lambda>t. map_option (\<lambda>p. (p, tx_id cn_fast_hash t)) (getPaymentId t)) txs"

lemma payment_fold_add:
  "fold (\<lambda>t m. snd (PaymentIdIndex_add cn t m)) txs m = fold (\<lambda>(k, h). mm_emplace k h) (payment_entries cn txs) m"
  by (induction txs arbitrary: m) (auto simp: payment_entries_def map_filter_simps PaymentIdIndex_add_def split: option.split)

lemma payment_fold_remove:
  "fold (\<lambda>t m. snd (PaymentIdIndex_remove cn t m)) txs m = fold (\<lambda>(k, h) m. snd (mm_erase k h m)) (payment_entries cn txs) m"
  by (induction txs arbitrary: m) (auto simp: payment_entries_def map_filter_simps PaymentIdIndex_remove_def split: option.split)

lemma payment_entries_mset:
  "mset (payment_entries cn txs) = image_mset (\<lambda>t. (the (getPaymentId t), tx_id cn t)) {# t \<in># mset txs. getPaymentId t \<noteq> None #}"
  by (induction txs) (auto simp: payment_entries_def map_filter_simps)

lemma payment_entries_diff:
  assumes "mset ys \<subseteq># mset xs"
  shows "mset (payment_entries cn xs) - mset (payment_entries cn ys) =
    image_mset (\<lambda>t. (the (getPaymentId t), tx_id cn t)) {# t \<in># mset xs - mset ys. getPaymentId t \<noteq> None #}"
  unfolding payment_entries_mset filter_diff_mset
  using multiset_filter_mono [OF assms] by (intro image_mset_Diff [symmetric])

section \<open>Sorted timestamps\<close>

lemma put_sorted: "sorted (map fst m) \<Longrightarrow> sorted (map fst (takeWhile (\<lambda>p. fst p \<le> k) m @ (k, h) # dropWhile (\<lambda>p. fst p \<le> k) m))"
  for k :: uint64
  by (induction m) (auto dest!: set_takeWhileD set_dropWhileD)

lemma dropWhile_above: "sorted (map fst m) \<Longrightarrow> p \<in> set (dropWhile (\<lambda>p. fst p \<le> k) m) \<Longrightarrow> k < fst p"
  for k :: uint64
  by (induction m) (auto split: if_splits)

lemma put_sort_key:
  "takeWhile (\<lambda>p. fst p \<le> k) (sort_key fst xs) @ (k, h) # dropWhile (\<lambda>p. fst p \<le> k) (sort_key fst xs) = sort_key fst (xs @ [(k, h)])"
  for k :: uint64
proof (rule properties_for_sort_key [symmetric])
  let ?m = "sort_key fst xs"
  show "mset (takeWhile (\<lambda>p. fst p \<le> k) ?m @ (k, h) # dropWhile (\<lambda>p. fst p \<le> k) ?m) = mset (xs @ [(k, h)])"
    by (simp only: mset_split_put) simp
  show "sorted (map fst (takeWhile (\<lambda>p. fst p \<le> k) ?m @ (k, h) # dropWhile (\<lambda>p. fst p \<le> k) ?m))"
    by (rule put_sorted) simp
  show "filter (\<lambda>p. fst q = fst p) (takeWhile (\<lambda>p. fst p \<le> k) ?m @ (k, h) # dropWhile (\<lambda>p. fst p \<le> k) ?m) =
      filter (\<lambda>p. fst q = fst p) (xs @ [(k, h)])" for q
  proof -
    have "k < fst p" if "p \<in> set (dropWhile (\<lambda>p. fst p \<le> k) ?m)" for p
      using that by (intro dropWhile_above) simp_all
    then have "filter (\<lambda>p. fst q = fst p) (dropWhile (\<lambda>p. fst p \<le> k) ?m) = []" if "fst q = k"
      using that by (force simp: filter_empty_conv)
    moreover have "filter (\<lambda>p. fst q = fst p) (takeWhile (\<lambda>p. fst p \<le> k) ?m) @
        filter (\<lambda>p. fst q = fst p) (dropWhile (\<lambda>p. fst p \<le> k) ?m) = filter (\<lambda>p. fst q = fst p) xs"
      unfolding filter_append [symmetric] takeWhile_dropWhile_id
      using sort_key_stable [of fst "fst q" xs] by (simp add: eq_commute)
    ultimately show ?thesis by auto
  qed
qed

lemma range_filter:
  "sorted (map fst m) \<Longrightarrow> takeWhile (\<lambda>p. fst p \<le> e) (dropWhile (\<lambda>p. fst p < b) m) = filter (\<lambda>p. b \<le> fst p \<and> fst p \<le> e) m"
  for b e :: uint64
proof (induction m)
  case (Cons a m)
  have "filter (\<lambda>p. b \<le> fst p \<and> fst p \<le> e) m = takeWhile (\<lambda>p. fst p \<le> e) m" if "b \<le> fst a"
    using Cons.prems that
  proof (induction m)
    case (Cons c m)
    then have "\<forall>p \<in> set m. fst c \<le> fst p" "b \<le> fst c" by auto
    then have "filter (\<lambda>p. b \<le> fst p \<and> fst p \<le> e) m = []" if "\<not> fst c \<le> e"
      using that by (auto simp: filter_empty_conv)
    then show ?case using Cons by auto
  qed simp
  moreover have "filter (\<lambda>p. b \<le> fst p \<and> fst p \<le> e) m = []" if "\<not> fst a \<le> e"
    using Cons.prems that by (auto simp: filter_empty_conv)
  ultimately show ?case using Cons by auto
qed simp

lemma blocks_fold_add: "fold (\<lambda>(k, h) m. snd (TimestampBlocksIndex_add k h m)) xs [] = sort_key fst xs"
proof (induction xs rule: rev_induct)
  case (snoc x xs)
  then show ?case using put_sort_key [of "fst x" xs "snd x"] by (simp add: TimestampBlocksIndex_add_def case_prod_beta)
qed simp

lemma txs_fold_add: "fold (\<lambda>(k, h) m. snd (TimestampTransactionsIndex_add k h m)) xs [] = sort_key fst xs"
  using blocks_fold_add [of xs] by (simp add: TimestampTransactionsIndex_add_def TimestampBlocksIndex_add_def)

lemma range_sorted:
  "takeWhile (\<lambda>p. fst p \<le> e) (dropWhile (\<lambda>p. fst p < b) (sort_key fst xs)) =
    sort_key fst (filter (\<lambda>p. b \<le> fst p \<and> fst p \<le> e) xs)" for b e :: uint64
  by (simp add: range_filter filter_sort)

section \<open>The numbers of transactions as prefix sums\<close>

definition generated_of :: "nat list \<Rightarrow> GeneratedTransactionsIndex" where
  "generated_of ns = \<lparr>gti_index = rev (map (\<lambda>i. (of_nat i, of_nat (sum_list (take (i + 1) ns)))) [0..<length ns]),
     lastGeneratedTxNumber = of_nat (sum_list ns)\<rparr>"

lemma of_nat_uint32_eq: "i < 2 ^ 32 \<Longrightarrow> j < 2 ^ 32 \<Longrightarrow> (of_nat i :: uint32) = of_nat j \<longleftrightarrow> i = j"
  by (auto dest!: arg_cong [where f = unat] simp: unat_of_nat_small)

lemma generated_heights: "fst ` set (gti_index (generated_of ns)) = of_nat ` {..<length ns}"
  by (auto simp: generated_of_def image_image lessThan_atLeast0)

lemma generated_fresh:
  assumes "length ns < 2 ^ 32"
  shows "of_nat (length ns) \<notin> fst ` set (gti_index (generated_of ns))"
proof
  assume "of_nat (length ns) \<in> fst ` set (gti_index (generated_of ns))"
  then obtain i where "i < length ns" "(of_nat (length ns) :: uint32) = of_nat i" by (auto simp: generated_heights)
  with of_nat_uint32_eq [of "length ns" i] assms show False by simp
qed

lemma generated_entries:
  "gti_index (generated_of (ns @ [n])) = (of_nat (length ns), of_nat (sum_list (ns @ [n]))) # gti_index (generated_of ns)"
  by (simp add: generated_of_def)

lemma generated_lookup:
  assumes "length ns \<le> 2 ^ 32"
  shows "map_of (gti_index (generated_of ns)) n = (if unat n < length ns then Some (of_nat (sum_list (take (unat n + 1) ns))) else None)"
  using assms
proof (induction ns rule: rev_induct)
  case (snoc k ns)
  have "(of_nat (length ns) :: uint32) = n \<longleftrightarrow> unat n = length ns"
    using snoc.prems of_nat_uint32_eq [of "length ns" "unat n"] by auto
  then show ?case using snoc by (auto simp: generated_entries less_Suc_eq)
qed (simp add: generated_of_def)

lemma generated_add:
  assumes "base_block_index block = Some n" "length ns < 2 ^ 32"
  shows "GeneratedTransactionsIndex_add block (generated_of ns) = Some (if unat n = length ns
    then (True, generated_of (ns @ [length (transactionHashes block) + 1])) else (False, generated_of ns))"
proof (cases "unat n = length ns")
  case True
  have "n = of_nat (unat n)" by simp
  with True have n: "n = of_nat (length ns)" by simp
  have "n \<notin> fst ` set (gti_index (generated_of ns))"
    unfolding n using assms(2) by (rule generated_fresh)
  moreover have "length (gti_index (generated_of ns)) = length ns" by (simp add: generated_of_def)
  ultimately show ?thesis using assms(1) True
    by (simp add: GeneratedTransactionsIndex_add_def Let_def)
      (simp add: generated_of_def n)
next
  case False
  then show ?thesis using assms(1) by (simp add: GeneratedTransactionsIndex_add_def generated_of_def)
qed

lemma generated_remove:
  assumes "base_block_index block = Some n" "length ns \<le> 2 ^ 32"
  shows "GeneratedTransactionsIndex_remove block (generated_of ns) = Some (if unat n + 1 = length ns
    then (True, generated_of (butlast ns)) else (False, generated_of ns))"
proof (cases "unat n + 1 = length ns")
  case True
  then obtain ms k where ns: "ns = ms @ [k]" by (cases ns rule: rev_exhaust) auto
  then have len: "unat n = length ms" using True by simp
  have "n = of_nat (unat n)" by simp
  with len have n: "n = of_nat (length ms)" by simp
  have new: "n \<notin> fst ` set (gti_index (generated_of ms))"
    unfolding n using assms(2) ns by (intro generated_fresh) simp
  then have rest: "filter (\<lambda>p. fst p \<noteq> n) (gti_index (generated_of ns)) = gti_index (generated_of ms)"
    by (auto simp: ns generated_entries n image_iff intro!: filter_True)
  have "unat (ucast n :: uint64) = unat (of_nat (length ms) :: uint64)"
    using len assms(2) ns by (simp add: unat_ucast_up unat_of_nat_small)
  then have cond: "(ucast n :: uint64) = of_nat (length (gti_index (generated_of ns))) - 1"
    by (simp add: generated_of_def ns word_unat_eq_iff)
  have "map_of (gti_index (generated_of ms)) (n - 1) = Some (of_nat (sum_list ms))" if "n \<noteq> 0"
  proof -
    have "unat (n - 1) = length ms - 1" using that len by (simp add: unat_minus_one)
    moreover have "length ms \<noteq> 0" using that n by auto
    ultimately show ?thesis using assms(2) ns by (subst generated_lookup) auto
  qed
  moreover have "ms = []" if "n = 0" using that len by simp
  moreover have "n \<in> fst ` set (gti_index (generated_of ns))" by (simp add: ns generated_entries n)
  ultimately show ?thesis using assms(1) True cond
    by (simp add: GeneratedTransactionsIndex_remove_def Let_def rest) (auto simp: generated_of_def ns)
next
  case False
  have "unat (of_nat (length ns) - 1 :: uint64) = (if ns = [] then 2 ^ 64 - 1 else length ns - 1)"
    using assms(2) by (auto simp: unat_sub_mod unat_of_nat_small Suc_le_eq)
  moreover have "unat (ucast n :: uint64) = unat n" by (simp add: unat_ucast_up)
  moreover have "unat n \<noteq> 18446744073709551615" using unat_bound32 [of n] by linarith
  then have "unat n \<noteq> (if ns = [] then 2 ^ 64 - 1 else length ns - 1)" using False by (cases ns) auto
  ultimately have "(ucast n :: uint64) \<noteq> of_nat (length ns) - 1" by metis
  then show ?thesis using assms(1) False by (simp add: GeneratedTransactionsIndex_remove_def generated_of_def)
qed

section \<open>Properties\<close>

lemma filter_mset_nonempty: "{# x \<in># M. P x #} \<noteq> {#} \<longleftrightarrow> (\<exists>x \<in># M. P x)"
  unfolding set_mset_eq_empty_iff [symmetric] by auto

definition sample_tx :: Transaction where
  "sample_tx = \<lparr>version = 1, unlockTime = 0, inputs = [BaseInput 0], outputs = [],
     extra = [2, 33, 0, 7] @ replicate 31 0, signatures = []\<rparr>"

text \<open>C38: The payment index is exact: after any transactions were added to an empty index and any of
  them removed again, in any order, a lookup gives the hashes of exactly those remaining
  transactions that carry the payment identifier, each as often as it is there.\<close>

theorem payment_index_exact:
  assumes "mset ys \<subseteq># mset xs"
    and "m = fold (\<lambda>t m. snd (PaymentIdIndex_remove cn_fast_hash t m)) ys
      (fold (\<lambda>t m. snd (PaymentIdIndex_add cn_fast_hash t m)) xs {#})"
  shows "snd (PaymentIdIndex_find p m) = image_mset (\<lambda>t. snd (getObjectHash cn_fast_hash out_Transaction t))
      {# t \<in># mset xs - mset ys. getPaymentId t = Some p #} \<and>
    fst (PaymentIdIndex_find p m) = (\<exists>t \<in># mset xs - mset ys. getPaymentId t = Some p)"
proof -
  let ?r = "mset xs - mset ys" and ?f = "\<lambda>t. (the (getPaymentId t), tx_id cn_fast_hash t)"
  have "m = image_mset ?f {# t \<in># ?r. getPaymentId t \<noteq> None #}"
    unfolding assms(2) payment_fold_add payment_fold_remove mm.fold_del mm.fold_put payment_entries_diff [OF assms(1), symmetric]
    by simp
  then have "{# q \<in># m. fst q = p #} = image_mset ?f {# t \<in># ?r. getPaymentId t \<noteq> None \<and> the (getPaymentId t) = p #}"
    by (simp add: filter_mset_image_mset filter_filter_mset conj_commute)
  also have "{# t \<in># ?r. getPaymentId t \<noteq> None \<and> the (getPaymentId t) = p #} = {# t \<in># ?r. getPaymentId t = Some p #}"
    by (rule filter_mset_cong) auto
  finally have "{# q \<in># m. fst q = p #} = image_mset ?f {# t \<in># ?r. getPaymentId t = Some p #}" .
  moreover have "{# t \<in># ?r. getPaymentId t = Some p #} \<noteq> {#} \<longleftrightarrow> (\<exists>t \<in># ?r. getPaymentId t = Some p)"
    by (rule filter_mset_nonempty)
  ultimately show ?thesis
    by (simp add: PaymentIdIndex_find_def mm_find_def Let_def multiset.map_comp comp_def del: filter_diff_mset)
qed

theorem payment_index_exact_witness:
  "PaymentIdIndex_find 7 (snd (PaymentIdIndex_remove (\<lambda>_. 5) sample_tx
     (snd (PaymentIdIndex_add (\<lambda>_. 5) sample_tx (snd (PaymentIdIndex_add (\<lambda>_. 5) sample_tx {#})))))) = (True, {#5#})"
proof -
  have p: "getPaymentId sample_tx = Some 7" by code_simp
  have h: "getObjectHash (\<lambda>_. 5) out_Transaction sample_tx = (True, 5)" by code_simp
  show ?thesis using payment_index_exact [OF _ refl, of "[sample_tx]" "[sample_tx, sample_tx]" 7 "\<lambda>_. 5"]
    by (simp add: p h prod_eq_iff)
qed

text \<open>Queries by time are exact: the blocks found in an interval are those that were added with a
  timestamp in it, in the order of their timestamps and of their insertion, up to the limit, and
  the reported number is that of all of them.\<close>

lemma timestamp_query_exact:
  assumes "b \<le> e" and "r = sort_key fst (filter (\<lambda>p. b \<le> fst p \<and> fst p \<le> e) xs)"
  shows "TimestampBlocksIndex_find b e limit (fold (\<lambda>(k, h) m. snd (TimestampBlocksIndex_add k h m)) xs []) =
    (0 < limit \<and> r \<noteq> [], map snd (take (unat limit) r), Some (of_nat (length r)))"
  using assms unat_gt_0 [of limit]
  by (auto simp: TimestampBlocksIndex_find_def blocks_fold_add range_sorted Let_def word_neq_0_conv simp del: sort_key_simps)

text \<open>C39: The index of transaction numbers refines the list of the numbers of transactions of the
  blocks: it accepts exactly the next block and removes exactly the last one, no assertion fails, and
  a lookup gives the number of transactions up to that block, modulo 2 to the 64. Clearing forgets
  the entries but keeps the running number, on top of which later blocks are counted.\<close>

theorem generated_index_refines:
  assumes "length ns < 2 ^ 32" "base_block_index block = Some n"
  shows "GeneratedTransactionsIndex_new = generated_of [] \<and>
    GeneratedTransactionsIndex_add block (generated_of ns) = Some (if unat n = length ns
      then (True, generated_of (ns @ [length (transactionHashes block) + 1])) else (False, generated_of ns)) \<and>
    GeneratedTransactionsIndex_remove block (generated_of ns) = Some (if unat n + 1 = length ns
      then (True, generated_of (butlast ns)) else (False, generated_of ns)) \<and>
    GeneratedTransactionsIndex_find k (generated_of ns) =
      (if unat k < length ns then Some (of_nat (sum_list (take (unat k + 1) ns))) else None) \<and>
    GeneratedTransactionsIndex_clear (generated_of ns) = \<lparr>gti_index = [], lastGeneratedTxNumber = of_nat (sum_list ns)\<rparr>"
  using generated_add [OF assms(2,1)] generated_remove [OF assms(2)] generated_lookup [of ns k] assms(1)
  by (simp add: GeneratedTransactionsIndex_new_def generated_of_def GeneratedTransactionsIndex_find_def
      GeneratedTransactionsIndex_clear_def)

theorem generated_index_refines_witness:
  "GeneratedTransactionsIndex_add (sample_block 0\<lparr>baseTransaction := sample_tx\<rparr>) (generated_of []) = Some (True, generated_of [2]) \<and>
   GeneratedTransactionsIndex_remove (sample_block 0\<lparr>baseTransaction := sample_tx\<rparr>) (generated_of [2]) = Some (True, generated_of []) \<and>
   GeneratedTransactionsIndex_find 0 (generated_of [2]) = Some 2"
proof -
  let ?b = "sample_block 0\<lparr>baseTransaction := sample_tx\<rparr>"
  have b: "base_block_index ?b = Some 0" "length (transactionHashes ?b) = 1"
    by (simp_all add: sample_block_def sample_tx_def base_block_index_def)
  have "GeneratedTransactionsIndex_add ?b (generated_of []) = Some (True, generated_of ([] @ [1 + 1]))"
    using generated_index_refines [OF _ b(1), of "[]" 0, THEN conjunct2] unfolding b(2) by simp
  moreover have "GeneratedTransactionsIndex_remove ?b (generated_of [2]) = Some (True, generated_of [])"
    "GeneratedTransactionsIndex_find 0 (generated_of [2]) = Some 2"
    using generated_index_refines [OF _ b(1), of "[2]" 0, THEN conjunct2] by simp_all
  ultimately show ?thesis by (simp add: numeral_2_eq_2)
qed

end
