(* ===== verification/TransactionPool.thy ===== *)
theory TransactionPool
  imports Interest BlockchainIndices FormatUtils
begin

text \<open>
  \<^verbatim>\<open>src/CryptoNoteCore/TransactionPool.cpp\<close> and \<^verbatim>\<open>TransactionPool.h\<close>: the transactions that wait for a
  block. The \<open>boost::multi_index_container\<close> of the transactions is a parameter, the record
  \<open>tx_container\<close>, with the documented behaviour in the locale \<open>tx_multi_index\<close>; the validator that
  the pool asks about inputs (an interface in the source) and the clock are parameters too. The
  standard maps and sets are maps and sets. A failed \<open>assert\<close> is \<open>None\<close>; messages to logs, the
  console and observers are left out, and locking is not modelled: the operations are atomic.
\<close>

section \<open>Types\<close>

record BlockInfo =
  bi_height :: uint32
  bi_id :: Hash

definition BlockInfo_new :: BlockInfo where
  "BlockInfo_new = \<lparr>bi_height = 0, bi_id = NULL_HASH\<rparr>"

record TransactionCheckInfo =
  maxUsedBlock :: BlockInfo
  lastFailedBlock :: BlockInfo

record TransactionDetails = TransactionCheckInfo +
  td_id :: Hash
  td_tx :: Transaction
  td_blobSize :: uint64
  td_fee :: uint64
  td_keptByBlock :: bool
  td_receiveTime :: uint64

definition TransactionPriorityComparator :: "TransactionDetails \<Rightarrow> TransactionDetails \<Rightarrow> bool" where
  "TransactionPriorityComparator lhs rhs =
     (let (lhs_lo, lhs_hi) = mul128 (td_fee lhs) (td_blobSize rhs);
          (rhs_lo, rhs_hi) = mul128 (td_fee rhs) (td_blobSize lhs)
      in lhs_hi > rhs_hi \<or>
         lhs_hi = rhs_hi \<and> lhs_lo > rhs_lo \<or>
         lhs_hi = rhs_hi \<and> lhs_lo = rhs_lo \<and> td_blobSize lhs < td_blobSize rhs \<or>
         lhs_hi = rhs_hi \<and> lhs_lo = rhs_lo \<and> td_blobSize lhs = td_blobSize rhs \<and>
           sint (td_receiveTime lhs) < sint (td_receiveTime rhs))"

record tx_verification_context =
  m_should_be_relayed :: bool
  m_verification_failed :: bool
  m_verification_impossible :: bool
  m_added_to_pool :: bool
  m_tx_fee_too_small :: bool

subsection \<open>Parameters\<close>

text \<open>\<open>tc_items\<close> is the order of iteration over the hashed index, \<open>tc_by_fee\<close> that over the ordered one.\<close>

record 'c tx_container =
  tc_insert :: "'c \<Rightarrow> TransactionDetails \<Rightarrow> 'c \<times> bool"
  tc_find :: "'c \<Rightarrow> Hash \<Rightarrow> TransactionDetails option"
  tc_erase :: "'c \<Rightarrow> Hash \<Rightarrow> 'c"
  tc_clear :: "'c \<Rightarrow> 'c"
  tc_items :: "'c \<Rightarrow> TransactionDetails list"
  tc_by_fee :: "'c \<Rightarrow> TransactionDetails list"

record ITransactionValidator =
  checkTransactionInputs :: "Transaction \<Rightarrow> bool \<times> BlockInfo"
  checkTransactionInputs_again :: "Transaction \<Rightarrow> BlockInfo \<Rightarrow> BlockInfo \<Rightarrow> bool"
  haveSpentKeyImages :: "Transaction \<Rightarrow> bool"
  checkTransactionSize :: "uint64 \<Rightarrow> bool"

section \<open>The block template\<close>

record BlockTemplate =
  m_keyImages :: "KeyImage set"
  m_usedOutputs :: "(uint64 \<times> uint64) set"
  m_txHashes :: "Hash list"

definition BlockTemplate_new :: BlockTemplate where
  "BlockTemplate_new = \<lparr>m_keyImages = {}, m_usedOutputs = {}, m_txHashes = []\<rparr>"

definition canAdd :: "BlockTemplate \<Rightarrow> Transaction \<Rightarrow> bool" where
  "canAdd t tx = list_all (\<lambda>input. case input of
     KeyInput _ _ keyImage \<Rightarrow> keyImage \<notin> m_keyImages t
   | MultisignatureInput a _ outputIndex _ \<Rightarrow> (a, ucast outputIndex) \<notin> m_usedOutputs t
   | BaseInput _ \<Rightarrow> True) (inputs tx)"

fun template_inputs :: "TransactionInput list \<Rightarrow> BlockTemplate \<Rightarrow> BlockTemplate option" where
  "template_inputs [] t = Some t"
| "template_inputs (input # ins) t = (case input of
     KeyInput _ _ keyImage \<Rightarrow>
       if keyImage \<in> m_keyImages t then None
       else template_inputs ins (t\<lparr>m_keyImages := insert keyImage (m_keyImages t)\<rparr>)
   | MultisignatureInput a _ outputIndex _ \<Rightarrow>
       if (a, ucast outputIndex) \<in> m_usedOutputs t then None
       else template_inputs ins (t\<lparr>m_usedOutputs := insert (a, ucast outputIndex) (m_usedOutputs t)\<rparr>)
   | BaseInput _ \<Rightarrow> template_inputs ins t)"

definition addTransaction :: "Hash \<Rightarrow> Transaction \<Rightarrow> BlockTemplate \<Rightarrow> (bool \<times> BlockTemplate) option" where
  "addTransaction txid tx t =
     (if \<not> canAdd t tx then Some (False, t)
      else map_option (\<lambda>t. (True, t\<lparr>m_txHashes := m_txHashes t @ [txid]\<rparr>)) (template_inputs (inputs tx) t))"

section \<open>The pool\<close>

record 'c tx_memory_pool =
  m_transactions :: 'c
  m_spent_key_images :: "KeyImage \<Rightarrow> Hash set option"
  m_spentOutputs :: "(uint64 \<times> uint64) set"
  m_recentlyDeletedTransactions :: "Hash \<Rightarrow> uint64 option"
  m_paymentIdIndex :: PaymentIdIndex
  m_timestampIndex :: TimestampIndex
  m_ttlIndex :: "Hash \<Rightarrow> uint64 option"
  m_lastWorkedTime :: uint64

subsection \<open>Spent inputs\<close>

definition haveSpentInputs :: "'c tx_memory_pool \<Rightarrow> Transaction \<Rightarrow> bool" where
  "haveSpentInputs p tx = list_ex (\<lambda>input. case input of
     KeyInput _ _ keyImage \<Rightarrow> m_spent_key_images p keyImage \<noteq> None
   | MultisignatureInput a _ outputIndex _ \<Rightarrow> (a, ucast outputIndex) \<in> m_spentOutputs p
   | BaseInput _ \<Rightarrow> False) (inputs tx)"

text \<open>The loop returns on the first inconsistency and keeps what it has changed by then.\<close>

fun addTransactionInputs :: "Hash \<Rightarrow> TransactionInput list \<Rightarrow> bool \<Rightarrow> 'c tx_memory_pool \<Rightarrow> (bool \<times> 'c tx_memory_pool) option" where
  "addTransactionInputs h [] keptByBlock p = Some (True, p)"
| "addTransactionInputs h (input # ins) keptByBlock p = (case input of
     KeyInput _ _ keyImage \<Rightarrow>
       let kei_image_set = (case m_spent_key_images p keyImage of None \<Rightarrow> {} | Some s \<Rightarrow> s);
           q = p\<lparr>m_spent_key_images := (m_spent_key_images p)(keyImage \<mapsto> insert h kei_image_set)\<rparr>
       in if \<not> (keptByBlock \<or> kei_image_set = {}) then Some (False, p)
          else if h \<in> kei_image_set then Some (False, p)
          else addTransactionInputs h ins keptByBlock q
   | MultisignatureInput a _ outputIndex _ \<Rightarrow>
       if keptByBlock then addTransactionInputs h ins keptByBlock p
       else if (a, ucast outputIndex) \<in> m_spentOutputs p then None
       else addTransactionInputs h ins keptByBlock
         (p\<lparr>m_spentOutputs := insert (a, ucast outputIndex) (m_spentOutputs p)\<rparr>)
   | BaseInput _ \<Rightarrow> addTransactionInputs h ins keptByBlock p)"

fun removeTransactionInputs :: "Hash \<Rightarrow> TransactionInput list \<Rightarrow> bool \<Rightarrow> 'c tx_memory_pool \<Rightarrow> (bool \<times> 'c tx_memory_pool) option" where
  "removeTransactionInputs h [] keptByBlock p = Some (True, p)"
| "removeTransactionInputs h (input # ins) keptByBlock p = (case input of
     KeyInput _ _ keyImage \<Rightarrow>
       (case m_spent_key_images p keyImage of
          None \<Rightarrow> Some (False, p)
        | Some key_image_set \<Rightarrow>
            if key_image_set = {} then Some (False, p)
            else if h \<notin> key_image_set then Some (False, p)
            else removeTransactionInputs h ins keptByBlock
              (p\<lparr>m_spent_key_images := (m_spent_key_images p)
                 (keyImage := if key_image_set - {h} = {} then None else Some (key_image_set - {h}))\<rparr>))
   | MultisignatureInput a _ outputIndex _ \<Rightarrow>
       if keptByBlock then removeTransactionInputs h ins keptByBlock p
       else if (a, ucast outputIndex) \<notin> m_spentOutputs p then None
       else removeTransactionInputs h ins keptByBlock (p\<lparr>m_spentOutputs := m_spentOutputs p - {(a, ucast outputIndex)}\<rparr>)
   | BaseInput _ \<Rightarrow> removeTransactionInputs h ins keptByBlock p)"

subsection \<open>Adding and removing\<close>

definition find_ttl :: "bytes \<Rightarrow> uint64" where
  "find_ttl ex = (case List.find (\<lambda>f. case f of TransactionExtraTTL _ \<Rightarrow> True | _ \<Rightarrow> False) (snd (parseTransactionExtra ex)) of
     Some (TransactionExtraTTL ttl) \<Rightarrow> ttl | _ \<Rightarrow> 0)"

text \<open>A transaction whose vectors have been moved into the container.\<close>

definition moved_from :: "Transaction \<Rightarrow> Transaction" where
  "moved_from tx = tx\<lparr>inputs := [], outputs := [], extra := [], signatures := []\<rparr>"

text \<open>The part of \<open>add_tx\<close> under the lock: the record \<open>txd\<close> is moved into the container before its
  transaction is handed to the payment index.\<close>

definition insert_tx ::
  "(bytes \<Rightarrow> Hash) \<Rightarrow> 'c tx_container \<Rightarrow> TransactionDetails \<Rightarrow> uint64 \<Rightarrow> bool \<Rightarrow> bool \<Rightarrow>
   tx_verification_context \<Rightarrow> 'c tx_memory_pool \<Rightarrow> (bool \<times> tx_verification_context \<times> 'c tx_memory_pool) option" where
  "insert_tx cn_fast_hash T txd ttl inputsValid isFusion tvc p =
     (let (txs, inserted) = tc_insert T (m_transactions p) txd in
      if \<not> inserted then Some (False, tvc, p)
      else
        let p = p\<lparr>m_transactions := txs,
              m_paymentIdIndex := snd (PaymentIdIndex_add cn_fast_hash (moved_from (td_tx txd)) (m_paymentIdIndex p)),
              m_timestampIndex := snd (TimestampTransactionsIndex_add (td_receiveTime txd) (td_id txd) (m_timestampIndex p)),
              m_ttlIndex := (if ttl \<noteq> 0 \<and> m_ttlIndex p (td_id txd) = None then (m_ttlIndex p)(td_id txd \<mapsto> ttl) else m_ttlIndex p)\<rparr>;
            tvc = tvc\<lparr>m_added_to_pool := True,
              m_should_be_relayed := inputsValid \<and> (0 < td_fee txd \<or> isFusion \<or> ttl \<noteq> 0), m_verification_failed := True\<rparr>
        in case addTransactionInputs (td_id txd) (inputs (td_tx txd)) (td_keptByBlock txd) p of
             None \<Rightarrow> None
           | Some (False, p) \<Rightarrow> Some (False, tvc, p)
           | Some (True, p) \<Rightarrow> Some (True, tvc\<lparr>m_verification_failed := False\<rparr>, p))"

text \<open>\<open>clock\<close> is \<open>time(nullptr)\<close>, \<open>now\<close> the time of the pool's time provider.\<close>

definition add_tx ::
  "(bytes \<Rightarrow> Hash) \<Rightarrow> 'c tx_container \<Rightarrow> ITransactionValidator \<Rightarrow> Currency \<Rightarrow> uint64 \<Rightarrow> uint64 \<Rightarrow>
   Transaction \<Rightarrow> Hash \<Rightarrow> uint64 \<Rightarrow> tx_verification_context \<Rightarrow> bool \<Rightarrow> uint32 \<Rightarrow> 'c tx_memory_pool \<Rightarrow>
   (bool \<times> tx_verification_context \<times> 'c tx_memory_pool) option" where
  "add_tx cn_fast_hash T V c clock now tx h blobSize tvc keptByBlock height p =
     (let reject = Some (False, tvc\<lparr>m_verification_failed := True\<rparr>, p) in
      if \<not> check_inputs_types_supported tx then reject
      else case getTransactionAllInputsAmount c tx height of
        None \<Rightarrow> None
      | Some inputs_amount \<Rightarrow>
          let outputs_amount = get_outs_money_amount tx in
          if inputs_amount < outputs_amount then reject
          else
            let ttl = find_ttl (extra tx); fee = inputs_amount - outputs_amount in
            case (if fee = 0 then isFusionTransaction_size c tx blobSize else Some False) of
              None \<Rightarrow> None
            | Some isFusion \<Rightarrow>
                if ttl \<noteq> 0 \<and> \<not> keptByBlock \<and>
                  (ttl \<le> clock \<or> m_mempoolTxLiveTime c + m_blockFutureTimeLimit c < ttl - clock \<or> fee \<noteq> 0) then reject
                else if \<not> keptByBlock \<and> haveSpentInputs p tx then reject
                else
                  let (inputsValid, maxUsed) = checkTransactionInputs V tx in
                  if \<not> inputsValid \<and> \<not> keptByBlock then reject
                  else
                    let maxUsed = (if inputsValid then maxUsed else BlockInfo_new);
                        tvc = (if inputsValid then tvc else tvc\<lparr>m_verification_impossible := True\<rparr>)
                    in if \<not> keptByBlock \<and> \<not> checkTransactionSize V blobSize
                       then Some (False, tvc\<lparr>m_verification_failed := True\<rparr>, p)
                       else if \<not> keptByBlock \<and> m_recentlyDeletedTransactions p h \<noteq> None
                       then Some (True, tvc\<lparr>m_verification_failed := False, m_should_be_relayed := False, m_added_to_pool := False\<rparr>, p)
                       else insert_tx cn_fast_hash T
                         \<lparr>maxUsedBlock = maxUsed, lastFailedBlock = BlockInfo_new, td_id = h, td_tx = tx, td_blobSize = blobSize,
                          td_fee = fee, td_keptByBlock = keptByBlock, td_receiveTime = now\<rparr> ttl inputsValid isFusion tvc p)"

text \<open>The second \<open>add_tx\<close> hashes the transaction itself.\<close>

definition add_tx_hashed ::
  "(bytes \<Rightarrow> Hash) \<Rightarrow> 'c tx_container \<Rightarrow> ITransactionValidator \<Rightarrow> Currency \<Rightarrow> uint64 \<Rightarrow> uint64 \<Rightarrow>
   Transaction \<Rightarrow> tx_verification_context \<Rightarrow> bool \<Rightarrow> uint32 \<Rightarrow> 'c tx_memory_pool \<Rightarrow>
   (bool \<times> tx_verification_context \<times> 'c tx_memory_pool) option" where
  "add_tx_hashed cn_fast_hash T V c clock now tx tvc keptByBlock height p =
     (case getObjectHashSize cn_fast_hash out_Transaction tx of
        (_, h, blobSize) \<Rightarrow> add_tx cn_fast_hash T V c clock now tx h blobSize tvc keptByBlock height p)"

text \<open>\<open>removeTransaction\<close> ignores whether the inputs were found.\<close>

definition removeTransaction ::
  "(bytes \<Rightarrow> Hash) \<Rightarrow> 'c tx_container \<Rightarrow> TransactionDetails \<Rightarrow> 'c tx_memory_pool \<Rightarrow> 'c tx_memory_pool option" where
  "removeTransaction cn_fast_hash T txd p =
     (case removeTransactionInputs (td_id txd) (inputs (td_tx txd)) (td_keptByBlock txd) p of
        None \<Rightarrow> None
      | Some (_, p) \<Rightarrow> Some (p\<lparr>
          m_paymentIdIndex := snd (PaymentIdIndex_remove cn_fast_hash (td_tx txd) (m_paymentIdIndex p)),
          m_timestampIndex := snd (TimestampTransactionsIndex_remove (td_receiveTime txd) (td_id txd) (m_timestampIndex p)),
          m_ttlIndex := (m_ttlIndex p)(td_id txd := None),
          m_transactions := tc_erase T (m_transactions p) (td_id txd)\<rparr>))"

definition take_tx ::
  "(bytes \<Rightarrow> Hash) \<Rightarrow> 'c tx_container \<Rightarrow> Hash \<Rightarrow> 'c tx_memory_pool \<Rightarrow>
   ((Transaction \<times> uint64 \<times> uint64) option \<times> 'c tx_memory_pool) option" where
  "take_tx cn_fast_hash T h p = (case tc_find T (m_transactions p) h of
     None \<Rightarrow> Some (None, p)
   | Some txd \<Rightarrow> map_option (\<lambda>p. (Some (td_tx txd, td_blobSize txd, td_fee txd), p)) (removeTransaction cn_fast_hash T txd p))"

definition is_expired :: "Currency \<Rightarrow> uint64 \<Rightarrow> 'c tx_memory_pool \<Rightarrow> TransactionDetails \<Rightarrow> bool" where
  "is_expired c now p txd \<longleftrightarrow>
     (if td_keptByBlock txd then m_mempoolTxFromAltBlockLiveTime c else m_mempoolTxLiveTime c) < now - td_receiveTime txd \<or>
     (case m_ttlIndex p (td_id txd) of None \<Rightarrow> False | Some ttl \<Rightarrow> ttl \<le> now)"

fun expire_loop ::
  "(bytes \<Rightarrow> Hash) \<Rightarrow> 'c tx_container \<Rightarrow> Currency \<Rightarrow> uint64 \<Rightarrow> TransactionDetails list \<Rightarrow> 'c tx_memory_pool \<Rightarrow>
   'c tx_memory_pool option" where
  "expire_loop cn_fast_hash T c now [] p = Some p"
| "expire_loop cn_fast_hash T c now (txd # txds) p =
     (if is_expired c now p txd then
        let p = p\<lparr>m_recentlyDeletedTransactions := (case m_recentlyDeletedTransactions p (td_id txd) of
              None \<Rightarrow> (m_recentlyDeletedTransactions p)(td_id txd \<mapsto> now) | Some _ \<Rightarrow> m_recentlyDeletedTransactions p)\<rparr>
        in case removeTransaction cn_fast_hash T txd p of None \<Rightarrow> None | Some p \<Rightarrow> expire_loop cn_fast_hash T c now txds p
      else expire_loop cn_fast_hash T c now txds p)"

definition removeExpiredTransactions ::
  "(bytes \<Rightarrow> Hash) \<Rightarrow> 'c tx_container \<Rightarrow> Currency \<Rightarrow> uint64 \<Rightarrow> 'c tx_memory_pool \<Rightarrow> 'c tx_memory_pool option" where
  "removeExpiredTransactions cn_fast_hash T c now p =
     (let p = p\<lparr>m_recentlyDeletedTransactions := (\<lambda>h. case m_recentlyDeletedTransactions p h of
            None \<Rightarrow> None
          | Some t \<Rightarrow> if m_numberOfPeriodsToForgetTxDeletedFromPool c * m_mempoolTxLiveTime c < now - t then None else Some t)\<rparr>
      in expire_loop cn_fast_hash T c now (tc_items T (m_transactions p)) p)"

subsection \<open>Queries\<close>

definition is_transaction_ready_to_go :: "ITransactionValidator \<Rightarrow> Transaction \<Rightarrow> 'z TransactionCheckInfo_scheme \<Rightarrow> bool" where
  "is_transaction_ready_to_go V tx txd \<longleftrightarrow>
     checkTransactionInputs_again V tx (maxUsedBlock txd) (lastFailedBlock txd) \<and> \<not> haveSpentKeyImages V tx"

definition get_transactions_count :: "'c tx_container \<Rightarrow> 'c tx_memory_pool \<Rightarrow> uint64" where
  "get_transactions_count T p = of_nat (length (tc_items T (m_transactions p)))"

definition get_transactions :: "'c tx_container \<Rightarrow> 'c tx_memory_pool \<Rightarrow> Transaction list" where
  "get_transactions T p = map td_tx (tc_items T (m_transactions p))"

text \<open>The results are copied from unordered sets: they are the sets of the new and of the deleted ids.\<close>

definition get_difference ::
  "'c tx_container \<Rightarrow> ITransactionValidator \<Rightarrow> 'c tx_memory_pool \<Rightarrow> Hash list \<Rightarrow> Hash set \<times> Hash set" where
  "get_difference T V p known_tx_ids =
     (let ready_tx_ids = td_id ` set (filter (\<lambda>t. is_transaction_ready_to_go V (td_tx t) t) (tc_items T (m_transactions p)));
          known_set = set known_tx_ids
      in (ready_tx_ids - known_set, known_set - ready_tx_ids))"

definition have_tx :: "'c tx_container \<Rightarrow> 'c tx_memory_pool \<Rightarrow> Hash \<Rightarrow> bool" where
  "have_tx T p h \<longleftrightarrow> tc_find T (m_transactions p) h \<noteq> None"

fun getTransactions :: "'c tx_container \<Rightarrow> 'c tx_memory_pool \<Rightarrow> Hash list \<Rightarrow> Transaction list \<times> Hash list" where
  "getTransactions T p [] = ([], [])"
| "getTransactions T p (h # hs) =
     (let (txs, missed) = getTransactions T p hs in
      case tc_find T (m_transactions p) h of None \<Rightarrow> (txs, h # missed) | Some txd \<Rightarrow> (td_tx txd # txs, missed))"

fun fill_loop ::
  "ITransactionValidator \<Rightarrow> 'c tx_memory_pool \<Rightarrow> uint64 \<Rightarrow> uint64 \<Rightarrow> TransactionDetails list \<Rightarrow>
   BlockTemplate \<times> uint64 \<times> uint64 \<Rightarrow> (BlockTemplate \<times> uint64 \<times> uint64) option" where
  "fill_loop V p median_size max_total_size [] s = Some s"
| "fill_loop V p median_size max_total_size (txd # txds) (blockTemplate, total_size, fee) =
     (if m_ttlIndex p (td_id txd) \<noteq> None then fill_loop V p median_size max_total_size txds (blockTemplate, total_size, fee)
      else if (if td_fee txd = 0 then median_size else max_total_size) < total_size + td_blobSize txd
      then fill_loop V p median_size max_total_size txds (blockTemplate, total_size, fee)
      else if \<not> is_transaction_ready_to_go V (td_tx txd) txd
      then fill_loop V p median_size max_total_size txds (blockTemplate, total_size, fee)
      else case addTransaction (td_id txd) (td_tx txd) blockTemplate of
        None \<Rightarrow> None
      | Some (False, t) \<Rightarrow> fill_loop V p median_size max_total_size txds (t, total_size, fee)
      | Some (True, t) \<Rightarrow> fill_loop V p median_size max_total_size txds (t, total_size + td_blobSize txd, fee + td_fee txd))"

text \<open>The hashes of the block, the total size and the fees.\<close>

definition fill_block_template ::
  "'c tx_container \<Rightarrow> ITransactionValidator \<Rightarrow> Currency \<Rightarrow> uint64 \<Rightarrow> uint64 \<Rightarrow> 'c tx_memory_pool \<Rightarrow>
   (Hash list \<times> uint64 \<times> uint64) option" where
  "fill_block_template T V c median_size maxCumulativeSize p =
     (let max_total_size = 125 * median_size div 100 - m_minerTxBlobReservedSize c;
          max_total_size = min max_total_size maxCumulativeSize
      in map_option (\<lambda>(t, total_size, fee). (m_txHashes t, total_size, fee))
           (fill_loop V p median_size max_total_size (rev (tc_by_fee T (m_transactions p))) (BlockTemplate_new, 0, 0)))"

definition buildIndices :: "(bytes \<Rightarrow> Hash) \<Rightarrow> 'c tx_container \<Rightarrow> 'c tx_memory_pool \<Rightarrow> 'c tx_memory_pool" where
  "buildIndices cn_fast_hash T p = fold (\<lambda>txd p.
     p\<lparr>m_paymentIdIndex := snd (PaymentIdIndex_add cn_fast_hash (td_tx txd) (m_paymentIdIndex p)),
       m_timestampIndex := snd (TimestampTransactionsIndex_add (td_receiveTime txd) (td_id txd) (m_timestampIndex p)),
       m_ttlIndex := (let ttl = find_ttl (extra (td_tx txd)) in
         if ttl \<noteq> 0 \<and> m_ttlIndex p (td_id txd) = None then (m_ttlIndex p)(td_id txd \<mapsto> ttl) else m_ttlIndex p)\<rparr>)
     (tc_items T (m_transactions p)) p"

definition getTransactionIdsByPaymentId :: "'c tx_memory_pool \<Rightarrow> Hash \<Rightarrow> bool \<times> Hash multiset" where
  "getTransactionIdsByPaymentId p paymentId = PaymentIdIndex_find paymentId (m_paymentIdIndex p)"

definition getTransactionIdsByTimestamp ::
  "'c tx_memory_pool \<Rightarrow> uint64 \<Rightarrow> uint64 \<Rightarrow> uint32 \<Rightarrow> bool \<times> Hash list \<times> uint64 option" where
  "getTransactionIdsByTimestamp p timestampBegin timestampEnd transactionsNumberLimit =
     TimestampTransactionsIndex_find timestampBegin timestampEnd (ucast transactionsNumberLimit) (m_timestampIndex p)"

subsection \<open>Start and idle time\<close>

text \<open>What \<open>loadFromBinaryFile\<close> finds: no file; a file that does not load, after which the deleted transactions
  are what was read of them; or the stored transactions, spent inputs and deleted transactions.\<close>

datatype 'c pool_file = NoFile | LoadFailed "Hash \<Rightarrow> uint64 option" | Loaded 'c "KeyImage \<Rightarrow> Hash set option" "(uint64 \<times> uint64) set" "Hash \<Rightarrow> uint64 option"

definition pool_init ::
  "(bytes \<Rightarrow> Hash) \<Rightarrow> 'c tx_container \<Rightarrow> Currency \<Rightarrow> uint64 \<Rightarrow> 'c pool_file \<Rightarrow> 'c tx_memory_pool \<Rightarrow> 'c tx_memory_pool option" where
  "pool_init cn_fast_hash T c now file p = (case file of
     NoFile \<Rightarrow> Some p
   | LoadFailed deleted \<Rightarrow> removeExpiredTransactions cn_fast_hash T c now
       (p\<lparr>m_transactions := tc_clear T (m_transactions p), m_spent_key_images := (\<lambda>_. None), m_spentOutputs := {},
          m_recentlyDeletedTransactions := deleted,
          m_paymentIdIndex := PaymentIdIndex_clear (m_paymentIdIndex p),
          m_timestampIndex := TimestampTransactionsIndex_clear (m_timestampIndex p), m_ttlIndex := (\<lambda>_. None)\<rparr>)
   | Loaded txs images outs deleted \<Rightarrow> removeExpiredTransactions cn_fast_hash T c now (buildIndices cn_fast_hash T
       (p\<lparr>m_transactions := txs, m_spent_key_images := images, m_spentOutputs := outs,
          m_recentlyDeletedTransactions := deleted\<rparr>)))"

text \<open>\<open>created\<close> is whether the data directory exists or could be made.\<close>

definition pool_deinit :: "bool \<Rightarrow> 'c tx_memory_pool \<Rightarrow> bool \<times> 'c tx_memory_pool" where
  "pool_deinit created p =
     (if \<not> created then (False, p)
      else (True, p\<lparr>m_paymentIdIndex := PaymentIdIndex_clear (m_paymentIdIndex p),
        m_timestampIndex := TimestampTransactionsIndex_clear (m_timestampIndex p), m_ttlIndex := (\<lambda>_. None)\<rparr>))"

text \<open>\<open>OnceInTimeInterval::call\<close> with an interval of 60 seconds; the clock does not move during the call.\<close>

definition on_idle :: "(bytes \<Rightarrow> Hash) \<Rightarrow> 'c tx_container \<Rightarrow> Currency \<Rightarrow> uint64 \<Rightarrow> 'c tx_memory_pool \<Rightarrow> 'c tx_memory_pool option" where
  "on_idle cn_fast_hash T c now p =
     (if 60 < sint (now - m_lastWorkedTime p)
      then map_option (\<lambda>p. p\<lparr>m_lastWorkedTime := now\<rparr>) (removeExpiredTransactions cn_fast_hash T c now p)
      else Some p)"

section \<open>The inputs that transactions spend\<close>

fun key_images :: "TransactionInput list \<Rightarrow> KeyImage list" where
  "key_images [] = []"
| "key_images (KeyInput _ _ k # ins) = k # key_images ins"
| "key_images (_ # ins) = key_images ins"

fun deposit_outputs :: "TransactionInput list \<Rightarrow> (uint64 \<times> uint64) list" where
  "deposit_outputs [] = []"
| "deposit_outputs (MultisignatureInput a _ n _ # ins) = (a, ucast n) # deposit_outputs ins"
| "deposit_outputs (_ # ins) = deposit_outputs ins"

text \<open>No input appears twice in a transaction, as the checks before the pool require.\<close>

definition inputs_differ :: "'z TransactionPrefix_scheme \<Rightarrow> bool" where
  "inputs_differ tx \<longleftrightarrow> distinct (key_images (inputs tx)) \<and> distinct (deposit_outputs (inputs tx))"

lemma haveSpentInputs_iff:
  "haveSpentInputs p tx \<longleftrightarrow>
     (\<exists>k \<in> set (key_images (inputs tx)). m_spent_key_images p k \<noteq> None) \<or>
     set (deposit_outputs (inputs tx)) \<inter> m_spentOutputs p \<noteq> {}"
proof -
  have "list_ex (\<lambda>input. case input of
      KeyInput _ _ keyImage \<Rightarrow> m_spent_key_images p keyImage \<noteq> None
    | MultisignatureInput a _ outputIndex _ \<Rightarrow> (a, ucast outputIndex) \<in> m_spentOutputs p
    | BaseInput _ \<Rightarrow> False) ins \<longleftrightarrow>
      (\<exists>k \<in> set (key_images ins). m_spent_key_images p k \<noteq> None) \<or> set (deposit_outputs ins) \<inter> m_spentOutputs p \<noteq> {}" for ins
  proof (induction ins)
    case (Cons i ins)
    then show ?case by (cases i) auto
  qed simp
  then show ?thesis unfolding haveSpentInputs_def .
qed

lemma canAdd_iff:
  "canAdd t tx \<longleftrightarrow> set (key_images (inputs tx)) \<inter> m_keyImages t = {} \<and> set (deposit_outputs (inputs tx)) \<inter> m_usedOutputs t = {}"
proof -
  have "list_all (\<lambda>input. case input of
      KeyInput _ _ keyImage \<Rightarrow> keyImage \<notin> m_keyImages t
    | MultisignatureInput a _ outputIndex _ \<Rightarrow> (a, ucast outputIndex) \<notin> m_usedOutputs t
    | BaseInput _ \<Rightarrow> True) ins \<longleftrightarrow>
      set (key_images ins) \<inter> m_keyImages t = {} \<and> set (deposit_outputs ins) \<inter> m_usedOutputs t = {}" for ins
  proof (induction ins)
    case (Cons i ins)
    then show ?case by (cases i) auto
  qed simp
  then show ?thesis unfolding canAdd_def .
qed

text \<open>The loops over inputs, in one step.\<close>

definition spend :: "Hash \<Rightarrow> KeyImage set \<Rightarrow> (KeyImage \<Rightarrow> Hash set option) \<Rightarrow> KeyImage \<Rightarrow> Hash set option" where
  "spend h ks m k = (if k \<in> ks then Some (insert h (case m k of None \<Rightarrow> {} | Some s \<Rightarrow> s)) else m k)"

definition unspend :: "Hash \<Rightarrow> KeyImage set \<Rightarrow> (KeyImage \<Rightarrow> Hash set option) \<Rightarrow> KeyImage \<Rightarrow> Hash set option" where
  "unspend h ks m k = (if k \<in> ks then (case m k of None \<Rightarrow> None | Some s \<Rightarrow> if s - {h} = {} then None else Some (s - {h})) else m k)"

lemma spend_insert: "k \<notin> ks \<Longrightarrow> spend h ks (m(k \<mapsto> insert h (case m k of None \<Rightarrow> {} | Some s \<Rightarrow> s))) = spend h (insert k ks) m"
  by (auto simp: spend_def fun_eq_iff)

lemma unspend_insert:
  "k \<notin> ks \<Longrightarrow> m k = Some s \<Longrightarrow> unspend h ks (m(k := if s - {h} = {} then None else Some (s - {h}))) = unspend h (insert k ks) m"
  by (auto simp: unspend_def fun_eq_iff)

lemma spend_empty [simp]: "spend h {} m = m" and unspend_empty [simp]: "unspend h {} m = m"
  by (auto simp: spend_def unspend_def fun_eq_iff)

lemma addTransactionInputs_eq:
  assumes "distinct (key_images ins)" "distinct (deposit_outputs ins)"
    and "\<And>k. k \<in> set (key_images ins) \<Longrightarrow> case m_spent_key_images p k of None \<Rightarrow> True | Some s \<Rightarrow> kept \<and> h \<notin> s"
    and "kept \<or> set (deposit_outputs ins) \<inter> m_spentOutputs p = {}"
  shows "addTransactionInputs h ins kept p = Some (True, p\<lparr>
    m_spent_key_images := spend h (set (key_images ins)) (m_spent_key_images p),
    m_spentOutputs := m_spentOutputs p \<union> (if kept then {} else set (deposit_outputs ins))\<rparr>)"
  using assms
proof (induction ins arbitrary: p)
  case (Cons i ins)
  show ?case
  proof (cases i)
    case (KeyInput a b k)
    let ?s = "case m_spent_key_images p k of None \<Rightarrow> {} | Some s \<Rightarrow> s"
    let ?q = "p\<lparr>m_spent_key_images := (m_spent_key_images p)(k \<mapsto> insert h ?s)\<rparr>"
    have k: "kept \<or> ?s = {}" "h \<notin> ?s" "k \<notin> set (key_images ins)"
      using Cons.prems(1) Cons.prems(3) [of k] KeyInput by (auto split: option.splits)
    have "addTransactionInputs h ins kept ?q = Some (True, ?q\<lparr>
        m_spent_key_images := spend h (set (key_images ins)) (m_spent_key_images ?q),
        m_spentOutputs := m_spentOutputs ?q \<union> (if kept then {} else set (deposit_outputs ins))\<rparr>)"
      using Cons.prems KeyInput k(3) by (intro Cons.IH) auto
    then show ?thesis using KeyInput k by (simp add: Let_def spend_insert)
  next
    case (MultisignatureInput a b n t)
    let ?q = "p\<lparr>m_spentOutputs := insert (a, ucast n) (m_spentOutputs p)\<rparr>"
    have "addTransactionInputs h ins kept ?q = Some (True, ?q\<lparr>
        m_spent_key_images := spend h (set (key_images ins)) (m_spent_key_images ?q),
        m_spentOutputs := m_spentOutputs ?q \<union> (if kept then {} else set (deposit_outputs ins))\<rparr>)" if "\<not> kept"
      using Cons.prems MultisignatureInput that by (intro Cons.IH) auto
    then show ?thesis using MultisignatureInput Cons by (cases kept) auto
  qed (use Cons in auto)
qed simp

lemma removeTransactionInputs_eq:
  assumes "distinct (key_images ins)" "distinct (deposit_outputs ins)"
    and "\<And>k. k \<in> set (key_images ins) \<Longrightarrow> \<exists>s. m_spent_key_images p k = Some s \<and> h \<in> s"
    and "kept \<or> set (deposit_outputs ins) \<subseteq> m_spentOutputs p"
  shows "removeTransactionInputs h ins kept p = Some (True, p\<lparr>
    m_spent_key_images := unspend h (set (key_images ins)) (m_spent_key_images p),
    m_spentOutputs := m_spentOutputs p - (if kept then {} else set (deposit_outputs ins))\<rparr>)"
  using assms
proof (induction ins arbitrary: p)
  case (Cons i ins)
  show ?case
  proof (cases i)
    case (KeyInput a b k)
    then obtain s where s: "m_spent_key_images p k = Some s" "h \<in> s" using Cons.prems(3) by auto
    have k: "k \<notin> set (key_images ins)" using Cons.prems(1) KeyInput by simp
    let ?q = "p\<lparr>m_spent_key_images := (m_spent_key_images p)(k := if s - {h} = {} then None else Some (s - {h}))\<rparr>"
    have "removeTransactionInputs h ins kept ?q = Some (True, ?q\<lparr>
        m_spent_key_images := unspend h (set (key_images ins)) (m_spent_key_images ?q),
        m_spentOutputs := m_spentOutputs ?q - (if kept then {} else set (deposit_outputs ins))\<rparr>)"
      using Cons.prems KeyInput k by (intro Cons.IH) auto
    then show ?thesis using KeyInput k s unspend_insert [of k _ "m_spent_key_images p", OF k s(1)] by auto
  next
    case (MultisignatureInput a b n t)
    let ?q = "p\<lparr>m_spentOutputs := m_spentOutputs p - {(a, ucast n)}\<rparr>"
    have "removeTransactionInputs h ins kept ?q = Some (True, ?q\<lparr>
        m_spent_key_images := unspend h (set (key_images ins)) (m_spent_key_images ?q),
        m_spentOutputs := m_spentOutputs ?q - (if kept then {} else set (deposit_outputs ins))\<rparr>)" if "\<not> kept"
      using Cons.prems MultisignatureInput that by (intro Cons.IH) auto
    moreover have "m_spentOutputs p - {(a, ucast n)} - set (deposit_outputs ins) =
        m_spentOutputs p - insert (a, ucast n) (set (deposit_outputs ins))" by auto
    ultimately show ?thesis using MultisignatureInput Cons by (cases kept) auto
  qed (use Cons in auto)
qed simp

section \<open>The container's contract\<close>

locale tx_multi_index =
  fixes T :: "'c tx_container"
  assumes insert_new: "tc_find T c (td_id x) = None \<Longrightarrow>
      \<exists>c'. tc_insert T c x = (c', True) \<and> tc_find T c' = (tc_find T c)(td_id x \<mapsto> x)"
    and insert_old: "tc_find T c (td_id x) \<noteq> None \<Longrightarrow> tc_insert T c x = (c, False)"
    and find_erase: "tc_find T (tc_erase T c h) = (tc_find T c)(h := None)"
    and find_clear: "tc_find T (tc_clear T c) = Map.empty"
    and find_id: "tc_find T c h = Some x \<Longrightarrow> td_id x = h"
    and items_set: "set (tc_items T c) = ran (tc_find T c)"
    and items_distinct: "distinct (map td_id (tc_items T c))"
    and by_fee_items: "mset (tc_by_fee T c) = mset (tc_items T c)"
    and by_fee_sorted: "list_all (\<lambda>t. 0 < td_blobSize t) (tc_items T c) \<Longrightarrow>
      sorted_wrt (\<lambda>x y. \<not> TransactionPriorityComparator y x) (tc_by_fee T c)"

section \<open>The invariant of the pool\<close>

text \<open>Which transactions of a pool spend a key image, and which deposits are spent.\<close>

definition spenders :: "(Hash \<Rightarrow> TransactionDetails option) \<Rightarrow> KeyImage \<Rightarrow> Hash set" where
  "spenders M k = {h. \<exists>t. M h = Some t \<and> k \<in> set (key_images (inputs (td_tx t)))}"

definition spent_of :: "(Hash \<Rightarrow> TransactionDetails option) \<Rightarrow> KeyImage \<Rightarrow> Hash set option" where
  "spent_of M k = (if spenders M k = {} then None else Some (spenders M k))"

text \<open>What a transaction claims for itself: nothing, if it came with a block.\<close>

definition own_images :: "TransactionDetails option \<Rightarrow> KeyImage set" where
  "own_images t = (case t of None \<Rightarrow> {} | Some t \<Rightarrow> if td_keptByBlock t then {} else set (key_images (inputs (td_tx t))))"

definition own_outputs :: "TransactionDetails option \<Rightarrow> (uint64 \<times> uint64) set" where
  "own_outputs t = (case t of None \<Rightarrow> {} | Some t \<Rightarrow> if td_keptByBlock t then {} else set (deposit_outputs (inputs (td_tx t))))"

definition spent_outputs_of :: "(Hash \<Rightarrow> TransactionDetails option) \<Rightarrow> (uint64 \<times> uint64) set" where
  "spent_outputs_of M = (\<Union>h. own_outputs (M h))"

definition no_conflict :: "(Hash \<Rightarrow> TransactionDetails option) \<Rightarrow> bool" where
  "no_conflict M \<longleftrightarrow> (\<forall>h g. h \<noteq> g \<longrightarrow> own_images (M h) \<inter> own_images (M g) = {} \<and> own_outputs (M h) \<inter> own_outputs (M g) = {})"

definition pool_inv :: "'c tx_container \<Rightarrow> 'c tx_memory_pool \<Rightarrow> bool" where
  "pool_inv T p \<longleftrightarrow> (let M = tc_find T (m_transactions p) in
     (\<forall>h t. M h = Some t \<longrightarrow> inputs_differ (td_tx t)) \<and> no_conflict M \<and>
     m_spent_key_images p = spent_of M \<and> m_spentOutputs p = spent_outputs_of M \<and>
     (\<forall>h. m_ttlIndex p h \<noteq> None \<longrightarrow> M h \<noteq> None))"

lemma spenders_upd:
  "M h = None \<Longrightarrow> spenders (M(h \<mapsto> t)) k = (if k \<in> set (key_images (inputs (td_tx t))) then insert h (spenders M k) else spenders M k)"
  by (auto simp: spenders_def)

lemma spenders_del:
  "M h = Some t \<Longrightarrow> spenders (M(h := None)) k = (if k \<in> set (key_images (inputs (td_tx t))) then spenders M k - {h} else spenders M k)"
  by (auto simp: spenders_def)

lemma spent_of_upd: "M h = None \<Longrightarrow> spent_of (M(h \<mapsto> t)) = spend h (set (key_images (inputs (td_tx t)))) (spent_of M)"
  by (auto simp: spent_of_def spend_def spenders_upd fun_eq_iff)

lemma spent_of_del: "M h = Some t \<Longrightarrow> spent_of (M(h := None)) = unspend h (set (key_images (inputs (td_tx t)))) (spent_of M)"
  by (auto simp: spent_of_def unspend_def spenders_del fun_eq_iff)

lemma own_simps [simp]: "own_images None = {}" "own_outputs None = {}"
  by (simp_all add: own_images_def own_outputs_def)

lemma spent_outputs_upd: "M h = None \<Longrightarrow> spent_outputs_of (M(h \<mapsto> t)) = spent_outputs_of M \<union> own_outputs (Some t)"
proof (rule set_eqI)
  fix d
  assume none: "M h = None"
  have "d \<in> spent_outputs_of (M(h \<mapsto> t)) \<longleftrightarrow> d \<in> own_outputs (Some t) \<or> (\<exists>g. g \<noteq> h \<and> d \<in> own_outputs (M g))"
    unfolding spent_outputs_of_def UN_iff by (metis UNIV_I fun_upd_apply)
  moreover have "(\<exists>g. g \<noteq> h \<and> d \<in> own_outputs (M g)) \<longleftrightarrow> d \<in> spent_outputs_of M"
    unfolding spent_outputs_of_def UN_iff using none by (metis UNIV_I empty_iff own_simps(2))
  ultimately show "d \<in> spent_outputs_of (M(h \<mapsto> t)) \<longleftrightarrow> d \<in> spent_outputs_of M \<union> own_outputs (Some t)" by blast
qed

lemma spent_outputs_del:
  assumes "no_conflict M"
  shows "spent_outputs_of (M(h := None)) = spent_outputs_of M - own_outputs (M h)"
proof (rule set_eqI)
  fix d
  have "d \<in> spent_outputs_of (M(h := None)) \<longleftrightarrow> (\<exists>g. g \<noteq> h \<and> d \<in> own_outputs (M g))"
    by (auto simp: spent_outputs_of_def split: if_splits)
  moreover have "d \<notin> own_outputs (M h)" if "g \<noteq> h" "d \<in> own_outputs (M g)" for g
    using assms that unfolding no_conflict_def by blast
  ultimately show "d \<in> spent_outputs_of (M(h := None)) \<longleftrightarrow> d \<in> spent_outputs_of M - own_outputs (M h)"
    by (auto simp: spent_outputs_of_def)
qed

lemma own_images_spenders: "k \<in> own_images (M h) \<Longrightarrow> h \<in> spenders M k"
  by (auto simp: own_images_def spenders_def split: option.splits if_splits)

lemma no_conflict_upd:
  assumes "no_conflict M" "own_images (Some t) \<inter> (\<Union>g. own_images (M g)) = {}" "own_outputs (Some t) \<inter> spent_outputs_of M = {}"
  shows "no_conflict (M(h \<mapsto> t))"
  unfolding no_conflict_def
proof (intro allI impI)
  fix a b :: Hash
  assume "a \<noteq> b"
  then consider "a = h" "b \<noteq> h" | "b = h" "a \<noteq> h" | "a \<noteq> h" "b \<noteq> h" by blast
  then show "own_images ((M(h \<mapsto> t)) a) \<inter> own_images ((M(h \<mapsto> t)) b) = {} \<and>
      own_outputs ((M(h \<mapsto> t)) a) \<inter> own_outputs ((M(h \<mapsto> t)) b) = {}"
  proof cases
    case 3
    then show ?thesis using assms(1) \<open>a \<noteq> b\<close> by (simp add: no_conflict_def)
  qed (use assms(2,3) in \<open>simp_all add: spent_outputs_of_def, blast+\<close>)
qed

lemma no_conflict_del: "no_conflict M \<Longrightarrow> no_conflict (M(h := None))"
  by (simp add: no_conflict_def)

section \<open>The decision of \<open>add_tx\<close>\<close>

text \<open>A transaction that was moved from carries no payment identifier.\<close>

lemma PaymentIdIndex_add_moved [simp]: "PaymentIdIndex_add cn_fast_hash (moved_from tx) m = (False, m)"
proof -
  have "snd (parseTransactionExtra []) = []" by code_simp
  then show ?thesis by (simp add: PaymentIdIndex_add_def getPaymentId_def moved_from_def)
qed

text \<open>What a transaction that did not come with a block has to satisfy.\<close>

definition admissible ::
  "ITransactionValidator \<Rightarrow> Currency \<Rightarrow> uint64 \<Rightarrow> 'c tx_memory_pool \<Rightarrow> Transaction \<Rightarrow> Hash \<Rightarrow> uint64 \<Rightarrow> uint64 \<Rightarrow> bool" where
  "admissible V c clock p tx h blobSize fee \<longleftrightarrow>
     (let ttl = find_ttl (extra tx) in
      ttl = 0 \<or> clock < ttl \<and> ttl - clock \<le> m_mempoolTxLiveTime c + m_blockFutureTimeLimit c \<and> fee = 0) \<and>
     \<not> haveSpentInputs p tx \<and> fst (checkTransactionInputs V tx) \<and> checkTransactionSize V blobSize \<and>
     m_recentlyDeletedTransactions p h = None"

lemma add_tx_refuse:
  assumes "getTransactionAllInputsAmount c tx height = Some a"
    and "a = get_outs_money_amount tx \<longrightarrow> isFusionTransaction_size c tx blobSize \<noteq> None"
    and "\<not> (check_inputs_types_supported tx \<and> get_outs_money_amount tx \<le> a \<and>
      (keptByBlock \<or> admissible V c clock p tx h blobSize (a - get_outs_money_amount tx)))"
  shows "\<exists>r tvc'. add_tx cn_fast_hash T V c clock now tx h blobSize tvc keptByBlock height p = Some (r, tvc', p) \<and>
    (m_added_to_pool tvc' \<longrightarrow> m_added_to_pool tvc)"
proof -
  obtain isF where isF: "(if a - get_outs_money_amount tx = 0 then isFusionTransaction_size c tx blobSize else Some False) = Some isF"
    using assms(2) by (cases "a = get_outs_money_amount tx") auto
  consider "\<not> check_inputs_types_supported tx" | "a < get_outs_money_amount tx"
    | "check_inputs_types_supported tx" "\<not> a < get_outs_money_amount tx" "\<not> keptByBlock"
      "\<not> admissible V c clock p tx h blobSize (a - get_outs_money_amount tx)"
    using assms(3) not_le by blast
  then show ?thesis
  proof cases
    case 3
    obtain ok mu where V: "checkTransactionInputs V tx = (ok, mu)" by force
    let ?ttl = "find_ttl (extra tx)"
    define bad where "bad \<longleftrightarrow> ?ttl \<noteq> 0 \<and> \<not> keptByBlock \<and> (?ttl \<le> clock \<or>
      m_mempoolTxLiveTime c + m_blockFutureTimeLimit c < ?ttl - clock \<or> a - get_outs_money_amount tx \<noteq> 0)"
    have nb: "(?ttl = 0 \<or> clock < ?ttl \<and> ?ttl - clock \<le> m_mempoolTxLiveTime c + m_blockFutureTimeLimit c \<and>
        a - get_outs_money_amount tx = 0) \<longleftrightarrow> \<not> bad"
      using 3(3) by (auto simp: bad_def not_le not_less)
    have "bad \<or> \<not> bad \<and> haveSpentInputs p tx \<or> \<not> bad \<and> \<not> haveSpentInputs p tx \<and> \<not> ok \<or>
        \<not> bad \<and> \<not> haveSpentInputs p tx \<and> ok \<and> \<not> checkTransactionSize V blobSize \<or>
        \<not> bad \<and> \<not> haveSpentInputs p tx \<and> ok \<and> checkTransactionSize V blobSize \<and> m_recentlyDeletedTransactions p h \<noteq> None"
      using 3(4) unfolding admissible_def Let_def V fst_conv nb by argo
    then show ?thesis using 3(1-3)
      unfolding add_tx_def Let_def assms(1) option.case V prod.case isF bad_def [symmetric]
      by (elim disjE; simp) blast+
  qed (simp_all add: add_tx_def assms(1) Let_def, blast+)
qed

lemma add_tx_insert:
  assumes amount: "getTransactionAllInputsAmount c tx height = Some a"
    and fee: "fee = a - get_outs_money_amount tx"
    and fusion: "a = get_outs_money_amount tx \<longrightarrow> isFusionTransaction_size c tx blobSize \<noteq> None"
    and supported: "check_inputs_types_supported tx" "get_outs_money_amount tx \<le> a"
    and checks: "keptByBlock \<or> admissible V c clock p tx h blobSize fee"
  shows "\<exists>t valid fusion tvc'. add_tx cn_fast_hash T V c clock now tx h blobSize tvc keptByBlock height p =
      insert_tx cn_fast_hash T t (find_ttl (extra tx)) valid fusion tvc' p \<and>
    td_id t = h \<and> td_tx t = tx \<and> td_blobSize t = blobSize \<and> td_fee t = fee \<and> td_keptByBlock t = keptByBlock \<and> td_receiveTime t = now"
proof -
  define ttl where ttl: "ttl = find_ttl (extra tx)"
  obtain isF where isF: "(if fee = 0 then isFusionTransaction_size c tx blobSize else Some False) = Some isF"
    using fusion by (cases "fee = 0") (auto simp: fee)
  obtain ok mu where V: "checkTransactionInputs V tx = (ok, mu)" by force
  define t where "t = \<lparr>maxUsedBlock = (if ok then mu else BlockInfo_new), lastFailedBlock = BlockInfo_new, td_id = h, td_tx = tx,
    td_blobSize = blobSize, td_fee = fee, td_keptByBlock = keptByBlock, td_receiveTime = now\<rparr>"
  have nott: "\<not> (ttl \<noteq> 0 \<and> \<not> keptByBlock \<and> (ttl \<le> clock \<or> m_mempoolTxLiveTime c + m_blockFutureTimeLimit c < ttl - clock \<or> fee \<noteq> 0))"
    using checks by (auto simp: admissible_def Let_def ttl not_less not_le)
  have enough: "\<not> a < get_outs_money_amount tx" using supported(2) by simp
  have "add_tx cn_fast_hash T V c clock now tx h blobSize tvc keptByBlock height p =
      insert_tx cn_fast_hash T t ttl ok isF (if ok then tvc else tvc\<lparr>m_verification_impossible := True\<rparr>) p"
  proof (cases keptByBlock)
    case True
    then show ?thesis
      unfolding add_tx_def Let_def amount option.case V prod.case ttl [symmetric] fee [symmetric] isF t_def
      using supported(1) enough by simp
  next
    case False
    then show ?thesis
      unfolding add_tx_def Let_def amount option.case V prod.case ttl [symmetric] fee [symmetric] isF t_def
      using supported(1) enough nott checks V by (auto simp: admissible_def)
  qed
  then show ?thesis unfolding ttl by (intro exI conjI) (auto simp: t_def)
qed

section \<open>The operations keep the invariant\<close>

context tx_multi_index
begin

lemma insert_tx_inv:
  assumes inv: "pool_inv T p" and new: "tc_find T (m_transactions p) (td_id txd) = None"
    and differ: "inputs_differ (td_tx txd)" and unspent: "td_keptByBlock txd \<or> \<not> haveSpentInputs p (td_tx txd)"
  shows "\<exists>p' tvc'. insert_tx cn_fast_hash T txd ttl valid fusion tvc p = Some (True, tvc', p') \<and> pool_inv T p' \<and> m_added_to_pool tvc' \<and>
    tc_find T (m_transactions p') = (tc_find T (m_transactions p))(td_id txd \<mapsto> txd) \<and>
    m_paymentIdIndex p' = m_paymentIdIndex p \<and> (ttl = 0 \<longrightarrow> m_ttlIndex p' = m_ttlIndex p)"
proof -
  let ?M = "tc_find T (m_transactions p)" and ?h = "td_id txd" and ?ins = "inputs (td_tx txd)" and ?kept = "td_keptByBlock txd"
  obtain c where c: "tc_insert T (m_transactions p) txd = (c, True)" "tc_find T c = ?M(?h \<mapsto> txd)" using insert_new new by blast
  define q where "q = p\<lparr>m_transactions := c,
      m_paymentIdIndex := snd (PaymentIdIndex_add cn_fast_hash (moved_from (td_tx txd)) (m_paymentIdIndex p)),
      m_timestampIndex := snd (TimestampTransactionsIndex_add (td_receiveTime txd) ?h (m_timestampIndex p)),
      m_ttlIndex := (if ttl \<noteq> 0 \<and> m_ttlIndex p ?h = None then (m_ttlIndex p)(?h \<mapsto> ttl) else m_ttlIndex p)\<rparr>"
  have spent: "m_spent_key_images p = spent_of ?M" "m_spentOutputs p = spent_outputs_of ?M" "no_conflict ?M"
    using inv by (simp_all add: pool_inv_def Let_def)
  have fresh: "?h \<notin> spenders ?M k" for k using new by (simp add: spenders_def)
  have free: "spent_of ?M k = None" if "k \<in> set (key_images ?ins)" "\<not> ?kept" for k
    using unspent that by (auto simp: haveSpentInputs_iff spent)
  have outs: "?kept \<or> set (deposit_outputs ?ins) \<inter> m_spentOutputs q = {}"
    using unspent by (auto simp: haveSpentInputs_iff q_def)
  have "case m_spent_key_images q k of None \<Rightarrow> True | Some s \<Rightarrow> ?kept \<and> ?h \<notin> s" if "k \<in> set (key_images ?ins)" for k
    using free [OF that] fresh by (auto simp: q_def spent spent_of_def split: option.splits if_splits)
  then have add: "addTransactionInputs ?h ?ins ?kept q = Some (True, q\<lparr>
      m_spent_key_images := spend ?h (set (key_images ?ins)) (m_spent_key_images q),
      m_spentOutputs := m_spentOutputs q \<union> (if ?kept then {} else set (deposit_outputs ?ins))\<rparr>)" (is "_ = Some (True, ?r)")
    using differ outs by (intro addTransactionInputs_eq) (auto simp: inputs_differ_def)
  have "own_images (Some txd) \<inter> (\<Union>g. own_images (?M g)) = {}"
    using free own_images_spenders by (fastforce simp: own_images_def [of "Some txd"] spent_of_def split: if_splits)
  moreover have "own_outputs (Some txd) \<inter> spent_outputs_of ?M = {}"
    using outs by (auto simp: own_outputs_def q_def spent)
  ultimately have "no_conflict (?M(?h \<mapsto> txd))" using no_conflict_upd spent(3) by blast
  then have "pool_inv T ?r"
    using inv c(2) differ spent_of_upd [of ?M ?h txd, OF new] spent_outputs_upd [of ?M ?h txd, OF new]
    by (auto simp: pool_inv_def Let_def q_def own_outputs_def split: if_splits)
  moreover have "insert_tx cn_fast_hash T txd ttl valid fusion tvc p = Some (True,
      tvc\<lparr>m_added_to_pool := True, m_should_be_relayed := valid \<and> (0 < td_fee txd \<or> fusion \<or> ttl \<noteq> 0), m_verification_failed := False\<rparr>, ?r)"
    using c(1) add unfolding insert_tx_def q_def by (simp add: Let_def)
  ultimately show ?thesis using c(2) by (auto simp: q_def)
qed

lemma removeTransaction_inv:
  assumes inv: "pool_inv T p" and found: "tc_find T (m_transactions p) h = Some txd"
  shows "\<exists>p'. removeTransaction cn_fast_hash T txd p = Some p' \<and> pool_inv T p' \<and>
    tc_find T (m_transactions p') = (tc_find T (m_transactions p))(h := None) \<and> m_ttlIndex p' = (m_ttlIndex p)(h := None) \<and>
    m_recentlyDeletedTransactions p' = m_recentlyDeletedTransactions p"
proof -
  let ?M = "tc_find T (m_transactions p)" and ?ins = "inputs (td_tx txd)" and ?kept = "td_keptByBlock txd"
  have h: "td_id txd = h" using find_id found by blast
  have spent: "m_spent_key_images p = spent_of ?M" "m_spentOutputs p = spent_outputs_of ?M" "no_conflict ?M"
    and differ: "inputs_differ (td_tx txd)" using inv found by (auto simp: pool_inv_def Let_def)
  have own: "own_outputs (?M h) = (if ?kept then {} else set (deposit_outputs ?ins))" using found by (simp add: own_outputs_def)
  have "\<exists>s. m_spent_key_images p k = Some s \<and> h \<in> s" if "k \<in> set (key_images ?ins)" for k
  proof -
    have "h \<in> spenders ?M k" using that found by (auto simp: spenders_def)
    then show ?thesis by (auto simp: spent spent_of_def)
  qed
  moreover have "own_outputs (?M h) \<subseteq> m_spentOutputs p" unfolding spent spent_outputs_of_def by blast
  then have "?kept \<or> set (deposit_outputs ?ins) \<subseteq> m_spentOutputs p" using own by (auto split: if_splits)
  ultimately have rm: "removeTransactionInputs h ?ins ?kept p = Some (True, p\<lparr>
      m_spent_key_images := unspend h (set (key_images ?ins)) (m_spent_key_images p),
      m_spentOutputs := m_spentOutputs p - (if ?kept then {} else set (deposit_outputs ?ins))\<rparr>)"
    using differ by (intro removeTransactionInputs_eq) (auto simp: inputs_differ_def)
  define r where "r = p\<lparr>m_spent_key_images := unspend h (set (key_images ?ins)) (m_spent_key_images p),
      m_spentOutputs := m_spentOutputs p - (if ?kept then {} else set (deposit_outputs ?ins)),
      m_paymentIdIndex := snd (PaymentIdIndex_remove cn_fast_hash (td_tx txd) (m_paymentIdIndex p)),
      m_timestampIndex := snd (TimestampTransactionsIndex_remove (td_receiveTime txd) h (m_timestampIndex p)),
      m_ttlIndex := (m_ttlIndex p)(h := None), m_transactions := tc_erase T (m_transactions p) h\<rparr>"
  have "removeTransaction cn_fast_hash T txd p = Some r" using rm by (simp add: removeTransaction_def h r_def)
  moreover have "pool_inv T r"
    using inv spent_of_del [of ?M h txd, OF found] spent_outputs_del [OF spent(3), of h] no_conflict_del [OF spent(3), of h] own
    by (auto simp: pool_inv_def Let_def r_def find_erase split: if_splits)
  ultimately show ?thesis by (auto simp: r_def find_erase)
qed

lemma pool_inv_deleted [simp]: "pool_inv T (p\<lparr>m_recentlyDeletedTransactions := d\<rparr>) \<longleftrightarrow> pool_inv T p"
  by (simp add: pool_inv_def)

lemma pool_inv_worked [simp]: "pool_inv T (p\<lparr>m_lastWorkedTime := d\<rparr>) \<longleftrightarrow> pool_inv T p"
  by (simp add: pool_inv_def)

lemma expire_loop_inv:
  assumes "pool_inv T p" "\<And>t. t \<in> set txds \<Longrightarrow> tc_find T (m_transactions p) (td_id t) = Some t" "distinct (map td_id txds)"
  shows "\<exists>p'. expire_loop cn_fast_hash T c now txds p = Some p' \<and> pool_inv T p' \<and>
    (\<forall>h t. tc_find T (m_transactions p') h = Some t \<longleftrightarrow>
       tc_find T (m_transactions p) h = Some t \<and> \<not> (t \<in> set txds \<and> is_expired c now p t)) \<and>
    (\<forall>h. m_recentlyDeletedTransactions p' h = (if m_recentlyDeletedTransactions p h = None \<and>
       (\<exists>t \<in> set txds. td_id t = h \<and> is_expired c now p t) then Some now else m_recentlyDeletedTransactions p h))"
  using assms
proof (induction txds arbitrary: p)
  case Nil
  then show ?case by (simp split: option.splits)
next
  case (Cons t ts)
  let ?M = "tc_find T (m_transactions p)" and ?h = "td_id t"
  have t: "?M ?h = Some t" "?h \<notin> td_id ` set ts" "\<And>x. x \<in> set ts \<Longrightarrow> ?M (td_id x) = Some x" using Cons.prems by auto
  have other: "td_id x \<noteq> ?h" if "x \<in> set ts" for x using t(2) that by (metis imageI)
  show ?case
  proof (cases "is_expired c now p t")
    case False
    have "\<exists>p'. expire_loop cn_fast_hash T c now ts p = Some p' \<and> pool_inv T p' \<and>
      (\<forall>h x. tc_find T (m_transactions p') h = Some x \<longleftrightarrow> ?M h = Some x \<and> \<not> (x \<in> set ts \<and> is_expired c now p x)) \<and>
      (\<forall>h. m_recentlyDeletedTransactions p' h = (if m_recentlyDeletedTransactions p h = None \<and>
         (\<exists>x \<in> set ts. td_id x = h \<and> is_expired c now p x) then Some now else m_recentlyDeletedTransactions p h))"
      using Cons.prems by (intro Cons.IH) auto
    moreover have "(\<exists>x \<in> set (t # ts). td_id x = h \<and> is_expired c now p x) = (\<exists>x \<in> set ts. td_id x = h \<and> is_expired c now p x)" for h
      using False by simp
    moreover have "(x \<in> set (t # ts) \<and> is_expired c now p x) = (x \<in> set ts \<and> is_expired c now p x)" for x using False by auto
    ultimately show ?thesis unfolding expire_loop.simps using False by (simp only: if_False)
  next
    case True
    define d where "d = (case m_recentlyDeletedTransactions p ?h of
      None \<Rightarrow> (m_recentlyDeletedTransactions p)(?h \<mapsto> now) | Some _ \<Rightarrow> m_recentlyDeletedTransactions p)"
    have "pool_inv T (p\<lparr>m_recentlyDeletedTransactions := d\<rparr>)" using Cons.prems(1) by simp
    moreover have "tc_find T (m_transactions (p\<lparr>m_recentlyDeletedTransactions := d\<rparr>)) ?h = Some t" using t(1) by simp
    ultimately obtain q where q: "removeTransaction cn_fast_hash T t (p\<lparr>m_recentlyDeletedTransactions := d\<rparr>) = Some q" "pool_inv T q"
        "tc_find T (m_transactions q) = ?M(?h := None)" "m_ttlIndex q = (m_ttlIndex p)(?h := None)"
        "m_recentlyDeletedTransactions q = d"
      using removeTransaction_inv by fastforce
    have exp: "is_expired c now q x = is_expired c now p x" if "x \<in> set ts" for x
      using other [OF that] by (simp add: is_expired_def q(4))
    have keep: "tc_find T (m_transactions q) (td_id x) = Some x" if "x \<in> set ts" for x
      using other [OF that] t(3) [OF that] by (simp add: q(3))
    have dist: "distinct (map td_id ts)" using Cons.prems(3) by simp
    obtain r where r: "expire_loop cn_fast_hash T c now ts q = Some r" "pool_inv T r"
      "\<And>h x. tc_find T (m_transactions r) h = Some x \<longleftrightarrow> tc_find T (m_transactions q) h = Some x \<and> \<not> (x \<in> set ts \<and> is_expired c now q x)"
      "\<And>h. m_recentlyDeletedTransactions r h = (if m_recentlyDeletedTransactions q h = None \<and>
         (\<exists>x \<in> set ts. td_id x = h \<and> is_expired c now q x) then Some now else m_recentlyDeletedTransactions q h)"
      using Cons.IH [OF q(2) keep dist] by blast
    have "expire_loop cn_fast_hash T c now (t # ts) p = Some r" using True q(1) r(1) by (simp add: Let_def d_def)
    moreover have "tc_find T (m_transactions r) h = Some x \<longleftrightarrow> ?M h = Some x \<and> \<not> (x \<in> set (t # ts) \<and> is_expired c now p x)" for h x
    proof (cases "h = ?h")
      case False
      have "x \<noteq> t" if "?M h = Some x" using find_id [OF that] False by auto
      then show ?thesis using False exp by (auto simp: r(3) q(3))
    qed (use t(1) True in \<open>auto simp: r(3) q(3)\<close>)
    moreover have "m_recentlyDeletedTransactions r h = (if m_recentlyDeletedTransactions p h = None \<and>
         (\<exists>x \<in> set (t # ts). td_id x = h \<and> is_expired c now p x) then Some now else m_recentlyDeletedTransactions p h)" for h
      using exp True by (auto simp: r(4) q(5) d_def split: option.splits)
    ultimately show ?thesis using r(2) by blast
  qed
qed

lemma items_find: "t \<in> set (tc_items T c) \<longleftrightarrow> tc_find T c (td_id t) = Some t"
  using find_id by (auto simp: items_set ran_def)

lemma is_expired_deleted [simp]: "is_expired c now (p\<lparr>m_recentlyDeletedTransactions := d\<rparr>) t = is_expired c now p t"
  by (simp add: is_expired_def)

lemma removeExpired_inv:
  assumes "pool_inv T p"
  shows "\<exists>p'. removeExpiredTransactions cn_fast_hash T c now p = Some p' \<and> pool_inv T p' \<and>
    (\<forall>h t. tc_find T (m_transactions p') h = Some t \<longleftrightarrow> tc_find T (m_transactions p) h = Some t \<and> \<not> is_expired c now p t) \<and>
    (\<forall>h t. tc_find T (m_transactions p) h = Some t \<and> is_expired c now p t \<longrightarrow> m_recentlyDeletedTransactions p' h \<noteq> None)"
proof -
  define d where "d = (\<lambda>h. case m_recentlyDeletedTransactions p h of None \<Rightarrow> None
    | Some t \<Rightarrow> if m_numberOfPeriodsToForgetTxDeletedFromPool c * m_mempoolTxLiveTime c < now - t then None else Some t)"
  let ?p = "p\<lparr>m_recentlyDeletedTransactions := d\<rparr>" and ?items = "tc_items T (m_transactions p)"
  have item: "t \<in> set ?items \<and> td_id t = h" if "tc_find T (m_transactions p) h = Some t" for h t
    using that find_id [OF that] by (simp add: items_find)
  have "pool_inv T ?p" "\<And>t. t \<in> set ?items \<Longrightarrow> tc_find T (m_transactions ?p) (td_id t) = Some t"
    using assms by (simp_all add: items_find)
  then obtain q where q': "expire_loop cn_fast_hash T c now ?items ?p = Some q" "pool_inv T q"
      "\<And>h t. tc_find T (m_transactions q) h = Some t \<longleftrightarrow>
        tc_find T (m_transactions ?p) h = Some t \<and> \<not> (t \<in> set ?items \<and> is_expired c now ?p t)"
      "\<And>h. m_recentlyDeletedTransactions q h = (if m_recentlyDeletedTransactions ?p h = None \<and>
        (\<exists>t \<in> set ?items. td_id t = h \<and> is_expired c now ?p t) then Some now else m_recentlyDeletedTransactions ?p h)"
    using expire_loop_inv [OF _ _ items_distinct, of ?p "m_transactions p" cn_fast_hash c now] by blast
  have p: "m_transactions ?p = m_transactions p" "m_recentlyDeletedTransactions ?p = d" by simp_all
  note q = q' [unfolded p is_expired_deleted]
  have "removeExpiredTransactions cn_fast_hash T c now p = Some q"
    using q(1) by (simp add: removeExpiredTransactions_def d_def)
  moreover have "tc_find T (m_transactions q) h = Some t \<longleftrightarrow> tc_find T (m_transactions p) h = Some t \<and> \<not> is_expired c now p t" for h t
    using item by (auto simp: q(3))
  moreover have "m_recentlyDeletedTransactions q h \<noteq> None"
    if "tc_find T (m_transactions p) h = Some t" "is_expired c now p t" for h t
    using item [OF that(1)] that(2) unfolding q(4) by auto
  ultimately show ?thesis using q(2) by blast
qed

lemma take_tx_inv:
  assumes "pool_inv T p"
  shows "\<exists>p'. take_tx cn_fast_hash T h p =
      Some (map_option (\<lambda>t. (td_tx t, td_blobSize t, td_fee t)) (tc_find T (m_transactions p) h), p') \<and> pool_inv T p' \<and>
    tc_find T (m_transactions p') = (tc_find T (m_transactions p))(h := None)"
proof (cases "tc_find T (m_transactions p) h")
  case None
  then have "(tc_find T (m_transactions p))(h := None) = tc_find T (m_transactions p)" by auto
  then show ?thesis using None assms by (simp add: take_tx_def)
next
  case (Some t)
  then obtain q where "removeTransaction cn_fast_hash T t p = Some q" "pool_inv T q"
      "tc_find T (m_transactions q) = (tc_find T (m_transactions p))(h := None)"
    using removeTransaction_inv [OF assms Some] by blast
  then show ?thesis using Some by (simp add: take_tx_def)
qed

lemma add_tx_accept:
  assumes inv: "pool_inv T p" and differ: "inputs_differ tx" and new: "tc_find T (m_transactions p) h = None"
    and amount: "getTransactionAllInputsAmount c tx height = Some a"
    and fusion: "a = get_outs_money_amount tx \<longrightarrow> isFusionTransaction_size c tx blobSize \<noteq> None"
    and supported: "check_inputs_types_supported tx" "get_outs_money_amount tx \<le> a"
    and checks: "keptByBlock \<or> admissible V c clock p tx h blobSize (a - get_outs_money_amount tx)"
  shows "\<exists>tvc' p' t. add_tx cn_fast_hash T V c clock now tx h blobSize tvc keptByBlock height p = Some (True, tvc', p') \<and>
    pool_inv T p' \<and> m_added_to_pool tvc' \<and> tc_find T (m_transactions p') = (tc_find T (m_transactions p))(h \<mapsto> t) \<and>
    td_id t = h \<and> td_tx t = tx \<and> td_blobSize t = blobSize \<and> td_fee t = a - get_outs_money_amount tx \<and>
    td_keptByBlock t = keptByBlock \<and> td_receiveTime t = now \<and> m_paymentIdIndex p' = m_paymentIdIndex p \<and>
    (find_ttl (extra tx) = 0 \<longrightarrow> m_ttlIndex p' = m_ttlIndex p)"
proof -
  obtain t valid isF tvc0 where t: "add_tx cn_fast_hash T V c clock now tx h blobSize tvc keptByBlock height p =
      insert_tx cn_fast_hash T t (find_ttl (extra tx)) valid isF tvc0 p" "td_id t = h" "td_tx t = tx" "td_blobSize t = blobSize"
      "td_fee t = a - get_outs_money_amount tx" "td_keptByBlock t = keptByBlock" "td_receiveTime t = now"
    using add_tx_insert [OF amount refl fusion supported checks] by blast
  have "td_keptByBlock t \<or> \<not> haveSpentInputs p (td_tx t)" using checks t(3,6) by (auto simp: admissible_def)
  then have "\<exists>p' tvc'. insert_tx cn_fast_hash T t (find_ttl (extra tx)) valid isF tvc0 p = Some (True, tvc', p') \<and> pool_inv T p' \<and>
      m_added_to_pool tvc' \<and> tc_find T (m_transactions p') = (tc_find T (m_transactions p))(td_id t \<mapsto> t) \<and>
      m_paymentIdIndex p' = m_paymentIdIndex p \<and> (find_ttl (extra tx) = 0 \<longrightarrow> m_ttlIndex p' = m_ttlIndex p)"
    using new differ unfolding t(2,3) [symmetric] by (intro insert_tx_inv [OF inv])
  then show ?thesis unfolding t(1) t(2) using t(2-7) by blast
qed

lemma add_tx_inv:
  assumes inv: "pool_inv T p" and differ: "inputs_differ tx"
    and res: "add_tx cn_fast_hash T V c clock now tx h blobSize tvc keptByBlock height p = Some (r, tvc', p')"
  shows "pool_inv T p'"
proof (cases "check_inputs_types_supported tx")
  case False
  then show ?thesis using inv res by (simp add: add_tx_def)
next
  case True
  then obtain a where a: "getTransactionAllInputsAmount c tx height = Some a"
    using res by (cases "getTransactionAllInputsAmount c tx height") (simp_all add: add_tx_def)
  show ?thesis
  proof (cases "a = get_outs_money_amount tx \<and> isFusionTransaction_size c tx blobSize = None")
    case True
    then show ?thesis using res \<open>check_inputs_types_supported tx\<close> by (simp add: add_tx_def a)
  next
    case False
    then have fusion: "a = get_outs_money_amount tx \<longrightarrow> isFusionTransaction_size c tx blobSize \<noteq> None" by simp
    consider "\<not> (get_outs_money_amount tx \<le> a \<and> (keptByBlock \<or> admissible V c clock p tx h blobSize (a - get_outs_money_amount tx)))"
      | "get_outs_money_amount tx \<le> a" "keptByBlock \<or> admissible V c clock p tx h blobSize (a - get_outs_money_amount tx)" by blast
    then show ?thesis
    proof cases
      case 1
      then show ?thesis
        using add_tx_refuse [OF a fusion, of keptByBlock V clock p h cn_fast_hash T now tvc] res inv by auto
    next
      case 2
      note accept = a fusion \<open>check_inputs_types_supported tx\<close> 2
      show ?thesis
      proof (cases "tc_find T (m_transactions p) h")
        case None
        then show ?thesis using add_tx_accept [OF inv differ None accept, of cn_fast_hash now tvc] res by auto
      next
        case (Some x)
        then obtain t valid isF tvc0 where t: "add_tx cn_fast_hash T V c clock now tx h blobSize tvc keptByBlock height p =
            insert_tx cn_fast_hash T t (find_ttl (extra tx)) valid isF tvc0 p" "td_id t = h"
          using add_tx_insert [OF accept(1) refl accept(2-5)] by blast
        then have "tc_insert T (m_transactions p) t = (m_transactions p, False)" using Some by (intro insert_old) simp
        then show ?thesis using t(1) res inv by (simp add: insert_tx_def)
      qed
    qed
  qed
qed

end

end
