(* ===== verification/ChainState.thy ===== *)
theory ChainState
  imports TransactionPool
begin

text \<open>
  The transactions of the main chain and the tables that \<^verbatim>\<open>src/CryptoNoteCore/Blockchain.cpp\<close> keeps of
  them: where a transaction is, which key images are spent, the outputs of every amount, the deposits
  and whether they are spent. This theory has the operations on these tables
  (\<open>pushTransaction\<close>, \<open>popTransaction\<close>, \<open>popTransactions\<close> and the loop of \<open>rebuildCache\<close>); the tables,
  members of the class \<open>Blockchain\<close>, are the record \<open>chain_tables\<close>. The hash maps and sets are maps and
  sets; a map from amounts to vectors tells an absent vector from an empty one, as the code does. What
  an operation does beyond returning is a value of \<open>chain_error\<close>: an exception (\<open>BadGet\<close> of
  \<open>boost::get\<close>, \<open>NoSuchKey\<close> of \<open>at\<close>, \<open>RuntimeError\<close>), a failed assertion, an access outside of a vector
  or through a null pointer, or a loop that does not end. \<open>PartialBlob\<close> is a case that the model leaves
  open: the size of what was written of a transaction before its serialization failed.
\<close>

section \<open>Data\<close>

record TransactionIndex =
  ti_block :: uint32
  ti_transaction :: uint16

record MultisignatureOutputUsage =
  mo_transactionIndex :: TransactionIndex
  mo_outputIndex :: uint16
  isUsed :: bool

record TransactionEntry =
  te_tx :: Transaction
  m_global_output_indexes :: "uint32 list"

record BlockEntry =
  be_bl :: Block
  be_height :: uint32
  block_cumulative_size :: uint64
  cumulative_difficulty :: uint64
  already_generated_coins :: uint64
  be_transactions :: "TransactionEntry list"

datatype chain_error = BadGet | NoSuchKey | OutsideVector | NullPointer | FailedAssert | RuntimeError | Endless | PartialBlob

type_synonym 'a outcome = "chain_error + 'a"

definition ebind :: "'a outcome \<Rightarrow> ('a \<Rightarrow> 'b outcome) \<Rightarrow> 'b outcome" where
  "ebind x f = (case x of Inl e \<Rightarrow> Inl e | Inr a \<Rightarrow> f a)"

definition or_error :: "chain_error \<Rightarrow> 'a option \<Rightarrow> 'a outcome" where
  "or_error e x = (case x of None \<Rightarrow> Inl e | Some a \<Rightarrow> Inr a)"

type_synonym key_outputs = "uint64 \<Rightarrow> (TransactionIndex \<times> uint16) list option"
type_synonym deposits = "uint64 \<Rightarrow> MultisignatureOutputUsage list option"

record chain_tables =
  m_transactionMap :: "Hash \<Rightarrow> TransactionIndex option"
  m_spent_keys :: "KeyImage set"
  m_outputs :: key_outputs
  m_multisignatureOutputs :: deposits
  ct_paymentIdIndex :: PaymentIdIndex

definition chain_tables_new :: chain_tables where
  "chain_tables_new = \<lparr>m_transactionMap = Map.empty, m_spent_keys = {}, m_outputs = Map.empty,
     m_multisignatureOutputs = Map.empty, ct_paymentIdIndex = {#}\<rparr>"

text \<open>\<open>operator[]\<close> of a map of vectors.\<close>

definition at_amount :: "(uint64 \<Rightarrow> 'a list option) \<Rightarrow> uint64 \<Rightarrow> 'a list" where
  "at_amount m a = (case m a of None \<Rightarrow> [] | Some v \<Rightarrow> v)"

section \<open>Adding a transaction\<close>

text \<open>The key images are inserted one by one. On one that is there already the inputs before it, the
  latest first, are taken as key inputs and their images erased.\<close>

fun erase_keys :: "TransactionInput list \<Rightarrow> KeyImage set \<Rightarrow> KeyImage set outcome" where
  "erase_keys [] s = Inr s"
| "erase_keys (input # ins) s = (case input of
     KeyInput _ _ keyImage \<Rightarrow> erase_keys ins (s - {keyImage})
   | _ \<Rightarrow> Inl BadGet)"

fun insert_keys :: "TransactionInput list \<Rightarrow> TransactionInput list \<Rightarrow> KeyImage set \<Rightarrow> (bool \<times> KeyImage set) outcome" where
  "insert_keys before [] s = Inr (True, s)"
| "insert_keys before (input # ins) s = (case input of
     KeyInput _ _ keyImage \<Rightarrow>
       if keyImage \<in> s then ebind (erase_keys before s) (\<lambda>s. Inr (False, s))
       else insert_keys (input # before) ins (insert keyImage s)
   | _ \<Rightarrow> insert_keys (input # before) ins s)"

definition set_used :: "bool \<Rightarrow> uint64 \<Rightarrow> uint32 \<Rightarrow> deposits \<Rightarrow> deposits outcome" where
  "set_used used a outputIndex m =
     (let amountOutputs = at_amount m a; n = unat outputIndex in
      if n < length amountOutputs
      then Inr (m(a \<mapsto> amountOutputs[n := (amountOutputs ! n)\<lparr>isUsed := used\<rparr>]))
      else Inl OutsideVector)"

fun use_deposits :: "TransactionInput list \<Rightarrow> deposits \<Rightarrow> deposits outcome" where
  "use_deposits [] m = Inr m"
| "use_deposits (input # ins) m = (case input of
     MultisignatureInput a _ outputIndex _ \<Rightarrow> ebind (set_used True a outputIndex m) (use_deposits ins)
   | _ \<Rightarrow> use_deposits ins m)"

text \<open>\<open>n\<close> is the number of the first output; the list of global indexes grows with the outputs.\<close>

fun push_outputs ::
  "TransactionIndex \<Rightarrow> nat \<Rightarrow> TransactionOutput list \<Rightarrow> key_outputs \<times> deposits \<times> uint32 list \<Rightarrow> key_outputs \<times> deposits \<times> uint32 list" where
  "push_outputs ix n [] s = s"
| "push_outputs ix n (out # outs) (os, m, indexes) = (case target out of
     KeyOutput _ \<Rightarrow>
       let amountOutputs = at_amount os (amount out) in
       push_outputs ix (Suc n) outs (os(amount out \<mapsto> amountOutputs @ [(ix, of_nat n)]), m, indexes @ [of_nat (length amountOutputs)])
   | MultisignatureOutput _ _ _ \<Rightarrow>
       let amountOutputs = at_amount m (amount out) in
       push_outputs ix (Suc n) outs
         (os, m(amount out \<mapsto> amountOutputs @ [\<lparr>mo_transactionIndex = ix, mo_outputIndex = of_nat n, isUsed = False\<rparr>]),
          indexes @ [of_nat (length amountOutputs)]))"

text \<open>The counter of the outputs has 16 bits, so the loop does not end on more than 65535 of them.\<close>

definition pushTransaction ::
  "(bytes \<Rightarrow> Hash) \<Rightarrow> TransactionEntry list \<Rightarrow> Hash \<Rightarrow> TransactionIndex \<Rightarrow> chain_tables \<Rightarrow>
   (bool \<times> TransactionEntry list \<times> chain_tables) outcome" where
  "pushTransaction cn_fast_hash txs transactionHash transactionIndex c =
     (if m_transactionMap c transactionHash \<noteq> None then Inr (False, txs, c)
      else let n = unat (ti_transaction transactionIndex) in
      if \<not> n < length txs then Inl OutsideVector
      else let tx = te_tx (txs ! n) in
      if \<not> checkMultisignatureInputsDiff tx then Inr (False, txs, c)
      else ebind (insert_keys [] (inputs tx) (m_spent_keys c)) (\<lambda>(new, s).
        if \<not> new then Inr (False, txs, c\<lparr>m_spent_keys := s\<rparr>)
        else ebind (use_deposits (inputs tx) (m_multisignatureOutputs c)) (\<lambda>m.
          if 65535 < length (outputs tx) then Inl Endless
          else case push_outputs transactionIndex 0 (outputs tx) (m_outputs c, m, []) of (os, m, indexes) \<Rightarrow>
            Inr (True, txs[n := (txs ! n)\<lparr>m_global_output_indexes := indexes\<rparr>],
              \<lparr>m_transactionMap = (m_transactionMap c)(transactionHash \<mapsto> transactionIndex), m_spent_keys = s, m_outputs = os,
               m_multisignatureOutputs = m, ct_paymentIdIndex = snd (PaymentIdIndex_add cn_fast_hash tx (ct_paymentIdIndex c))\<rparr>))))"

section \<open>Removing transactions\<close>

text \<open>An output is removed if it is the last one of its amount and is the one that the transaction has added;
  \<open>n\<close> is its number.\<close>

definition pop_key_output :: "TransactionIndex \<Rightarrow> nat \<Rightarrow> uint64 \<Rightarrow> key_outputs \<Rightarrow> key_outputs" where
  "pop_key_output ix n a os = (case os a of
     None \<Rightarrow> os
   | Some v \<Rightarrow>
       if v = [] then os
       else if fst (last v) \<noteq> ix then os
       else if unat (snd (last v)) \<noteq> n then os
       else if butlast v = [] then os(a := None) else os(a \<mapsto> butlast v))"

definition pop_deposit_output :: "TransactionIndex \<Rightarrow> nat \<Rightarrow> uint64 \<Rightarrow> deposits \<Rightarrow> deposits" where
  "pop_deposit_output ix n a m = (case m a of
     None \<Rightarrow> m
   | Some v \<Rightarrow>
       if v = [] then m
       else if isUsed (last v) then m
       else if mo_transactionIndex (last v) \<noteq> ix then m
       else if unat (mo_outputIndex (last v)) \<noteq> n then m
       else if butlast v = [] then m(a := None) else m(a \<mapsto> butlast v))"

text \<open>The outputs are given the last first.\<close>

fun pop_outputs :: "TransactionIndex \<Rightarrow> TransactionOutput list \<Rightarrow> key_outputs \<times> deposits \<Rightarrow> key_outputs \<times> deposits" where
  "pop_outputs ix [] s = s"
| "pop_outputs ix (out # outs) (os, m) = (case target out of
     KeyOutput _ \<Rightarrow> pop_outputs ix outs (pop_key_output ix (length outs) (amount out) os, m)
   | MultisignatureOutput _ _ _ \<Rightarrow> pop_outputs ix outs (os, pop_deposit_output ix (length outs) (amount out) m))"

fun pop_inputs :: "TransactionInput list \<Rightarrow> KeyImage set \<times> deposits \<Rightarrow> (KeyImage set \<times> deposits) outcome" where
  "pop_inputs [] s = Inr s"
| "pop_inputs (input # ins) (s, m) = (case input of
     KeyInput _ _ keyImage \<Rightarrow> pop_inputs ins (s - {keyImage}, m)
   | MultisignatureInput a _ outputIndex _ \<Rightarrow> ebind (set_used False a outputIndex m) (\<lambda>m. pop_inputs ins (s, m))
   | BaseInput _ \<Rightarrow> pop_inputs ins (s, m))"

definition popTransaction :: "(bytes \<Rightarrow> Hash) \<Rightarrow> Transaction \<Rightarrow> Hash \<Rightarrow> chain_tables \<Rightarrow> chain_tables outcome" where
  "popTransaction cn_fast_hash transaction transactionHash c =
     ebind (or_error NoSuchKey (m_transactionMap c transactionHash)) (\<lambda>ix.
       case pop_outputs ix (rev (outputs transaction)) (m_outputs c, m_multisignatureOutputs c) of (os, m) \<Rightarrow>
         ebind (pop_inputs (inputs transaction) (m_spent_keys c, m)) (\<lambda>(s, m).
           Inr \<lparr>m_transactionMap = (m_transactionMap c)(transactionHash := None), m_spent_keys = s, m_outputs = os,
             m_multisignatureOutputs = m, ct_paymentIdIndex = snd (PaymentIdIndex_remove cn_fast_hash transaction (ct_paymentIdIndex c))\<rparr>))"

fun pop_list :: "(bytes \<Rightarrow> Hash) \<Rightarrow> (Transaction \<times> Hash) list \<Rightarrow> chain_tables \<Rightarrow> chain_tables outcome" where
  "pop_list cn_fast_hash [] c = Inr c"
| "pop_list cn_fast_hash ((tx, h) # ts) c = ebind (popTransaction cn_fast_hash tx h c) (pop_list cn_fast_hash ts)"

definition popTransactions :: "(bytes \<Rightarrow> Hash) \<Rightarrow> Block \<Rightarrow> TransactionEntry list \<Rightarrow> Hash \<Rightarrow> chain_tables \<Rightarrow> chain_tables outcome" where
  "popTransactions cn_fast_hash bl txs minerTransactionHash c =
     (if txs = [] \<or> length (transactionHashes bl) < length txs - 1 then Inl OutsideVector
      else ebind (pop_list cn_fast_hash (rev (zip (map te_tx (tl txs)) (transactionHashes bl))) c)
        (popTransaction cn_fast_hash (baseTransaction bl) minerTransactionHash))"

section \<open>Building the tables from the blocks\<close>

text \<open>The loops of \<open>rebuildCache\<close> on one transaction: its inputs, then its outputs, without checks. The
  index of payment identifiers is not rebuilt.\<close>

fun rebuild_inputs :: "TransactionInput list \<Rightarrow> KeyImage set \<times> deposits \<Rightarrow> (KeyImage set \<times> deposits) outcome" where
  "rebuild_inputs [] s = Inr s"
| "rebuild_inputs (input # ins) (s, m) = (case input of
     KeyInput _ _ keyImage \<Rightarrow> rebuild_inputs ins (insert keyImage s, m)
   | MultisignatureInput a _ outputIndex _ \<Rightarrow> ebind (set_used True a outputIndex m) (\<lambda>m. rebuild_inputs ins (s, m))
   | BaseInput _ \<Rightarrow> rebuild_inputs ins (s, m))"

fun rebuild_outputs :: "TransactionIndex \<Rightarrow> nat \<Rightarrow> TransactionOutput list \<Rightarrow> key_outputs \<times> deposits \<Rightarrow> key_outputs \<times> deposits" where
  "rebuild_outputs ix n [] s = s"
| "rebuild_outputs ix n (out # outs) (os, m) = (case target out of
     KeyOutput _ \<Rightarrow> rebuild_outputs ix (Suc n) outs (os(amount out \<mapsto> at_amount os (amount out) @ [(ix, of_nat n)]), m)
   | MultisignatureOutput _ _ _ \<Rightarrow> rebuild_outputs ix (Suc n) outs
       (os, m(amount out \<mapsto> at_amount m (amount out) @ [\<lparr>mo_transactionIndex = ix, mo_outputIndex = of_nat n, isUsed = False\<rparr>])))"

definition rebuild_transaction ::
  "(bytes \<Rightarrow> Hash) \<Rightarrow> TransactionIndex \<Rightarrow> Transaction \<Rightarrow> chain_tables \<Rightarrow> chain_tables outcome" where
  "rebuild_transaction cn_fast_hash ix tx c =
     (let h = snd (getObjectHash cn_fast_hash out_Transaction tx);
          tmap = (if m_transactionMap c h = None then (m_transactionMap c)(h \<mapsto> ix) else m_transactionMap c)
      in ebind (rebuild_inputs (inputs tx) (m_spent_keys c, m_multisignatureOutputs c)) (\<lambda>(s, m).
        if 65535 < length (outputs tx) then Inl Endless
        else case rebuild_outputs ix 0 (outputs tx) (m_outputs c, m) of (os, m) \<Rightarrow>
          Inr (c\<lparr>m_transactionMap := tmap, m_spent_keys := s, m_outputs := os, m_multisignatureOutputs := m\<rparr>)))"

fun rebuild_transactions ::
  "(bytes \<Rightarrow> Hash) \<Rightarrow> uint32 \<Rightarrow> nat \<Rightarrow> TransactionEntry list \<Rightarrow> chain_tables \<Rightarrow> chain_tables outcome" where
  "rebuild_transactions cn_fast_hash b t [] c = Inr c"
| "rebuild_transactions cn_fast_hash b t (e # es) c =
     ebind (rebuild_transaction cn_fast_hash \<lparr>ti_block = b, ti_transaction = of_nat t\<rparr> (te_tx e) c)
       (rebuild_transactions cn_fast_hash b (Suc t) es)"

section \<open>Flags of deposits\<close>

text \<open>The deposits that a list of inputs names, and what the loops over inputs do to the flags.\<close>

definition deposit_refs :: "TransactionInput list \<Rightarrow> (uint64 \<times> nat) set" where
  "deposit_refs ins = {(a, unat n) | a c n t. MultisignatureInput a c n t \<in> set ins}"

definition in_range :: "(uint64 \<times> nat) set \<Rightarrow> (uint64 \<Rightarrow> 'a list option) \<Rightarrow> bool" where
  "in_range R m \<longleftrightarrow> (\<forall>(a, n) \<in> R. n < length (at_amount m a))"

definition mark :: "bool \<Rightarrow> (uint64 \<times> nat) set \<Rightarrow> deposits \<Rightarrow> deposits" where
  "mark used R m a = map_option (\<lambda>v. map (\<lambda>i. if (a, i) \<in> R then (v ! i)\<lparr>isUsed := used\<rparr> else v ! i) [0..<length v]) (m a)"

definition unused :: "(uint64 \<times> nat) set \<Rightarrow> deposits \<Rightarrow> bool" where
  "unused R m \<longleftrightarrow> (\<forall>(a, n) \<in> R. \<not> isUsed (at_amount m a ! n))"

lemma deposit_refs_simps [simp]:
  "deposit_refs [] = {}"
  "deposit_refs (MultisignatureInput a c n t # ins) = insert (a, unat n) (deposit_refs ins)"
  "deposit_refs (KeyInput a xs k # ins) = deposit_refs ins"
  "deposit_refs (BaseInput b # ins) = deposit_refs ins"
  by (auto simp: deposit_refs_def)

lemma ebind_simps [simp]: "ebind (Inl e) f = Inl e" "ebind (Inr a) f = f a"
  by (simp_all add: ebind_def)

lemma ebind_Inr_iff: "ebind x f = Inr b \<longleftrightarrow> (\<exists>a. x = Inr a \<and> f a = Inr b)"
  by (cases x) auto

lemma or_error_iff [simp]: "or_error e x = Inr a \<longleftrightarrow> x = Some a" "or_error e (Some a) = Inr a"
  by (auto simp: or_error_def split: option.splits)

lemma at_amount_simps [simp]: "m a = Some v \<Longrightarrow> at_amount m a = v" "m a = None \<Longrightarrow> at_amount m a = []"
  by (simp_all add: at_amount_def)

lemma at_amount_upd [simp]: "at_amount (m(a \<mapsto> v)) b = (if a = b then v else at_amount m b)"
  by (simp add: at_amount_def)

lemma length_at_mark [simp]: "length (at_amount (mark u R m) a) = length (at_amount m a)"
  by (simp add: at_amount_def mark_def split: option.splits)

lemma in_range_mark [simp]: "in_range S (mark u R m) = in_range S m"
  by (simp add: in_range_def)

lemma in_range_simps [simp]: "in_range {} m" "in_range (insert (a, n) R) m \<longleftrightarrow> n < length (at_amount m a) \<and> in_range R m"
  by (auto simp: in_range_def)

lemma mark_empty [simp]: "mark u {} m = m"
  by (auto simp: mark_def fun_eq_iff map_nth intro: option.map_ident_strong)

lemma mark_mark: "mark u R (mark u S m) = mark u (R \<union> S) m"
proof
  fix a
  show "mark u R (mark u S m) a = mark u (R \<union> S) m a"
    by (cases "m a") (auto simp: mark_def)
qed

lemma mark_undo: "unused R m \<Longrightarrow> mark False R (mark True R m) = m"
proof
  fix a
  assume "unused R m"
  show "mark False R (mark True R m) a = m a"
  proof (cases "m a")
    case (Some v)
    have "(if (a, i) \<in> R then (v ! i)\<lparr>isUsed := False\<rparr> else v ! i) = v ! i" for i
      using \<open>unused R m\<close> Some by (auto simp: unused_def)
    then have "map (\<lambda>i. if (a, i) \<in> R then (v ! i)\<lparr>isUsed := False\<rparr> else v ! i) [0..<length v] = v" by (simp add: map_nth)
    moreover have "mark False R (mark True R m) a = Some (map (\<lambda>i. if (a, i) \<in> R then (v ! i)\<lparr>isUsed := False\<rparr> else v ! i) [0..<length v])"
      using Some by (auto simp: mark_def)
    ultimately show ?thesis using Some by simp
  qed (simp add: mark_def)
qed

lemma set_used_iff: "set_used u a n m = Inr m' \<longleftrightarrow> unat n < length (at_amount m a) \<and> m' = mark u {(a, unat n)} m"
proof (cases "unat n < length (at_amount m a)")
  case True
  then obtain v where v: "m a = Some v" by (cases "m a") auto
  have "m(a \<mapsto> v[unat n := (v ! unat n)\<lparr>isUsed := u\<rparr>]) = mark u {(a, unat n)} m"
    using True v by (auto simp: mark_def fun_eq_iff intro!: nth_equalityI option.map_ident_strong [symmetric])
  then show ?thesis using True v by (auto simp: set_used_def)
qed (auto simp: set_used_def)

lemma use_deposits_iff: "use_deposits ins m = Inr m' \<longleftrightarrow> in_range (deposit_refs ins) m \<and> m' = mark True (deposit_refs ins) m"
proof (induction ins arbitrary: m)
  case (Cons i ins)
  then show ?case by (cases i) (auto simp: ebind_Inr_iff set_used_iff mark_mark)
qed auto

lemma pop_inputs_iff:
  "pop_inputs ins (s, m) = Inr (s', m') \<longleftrightarrow>
     in_range (deposit_refs ins) m \<and> s' = s - set (key_images ins) \<and> m' = mark False (deposit_refs ins) m"
proof (induction ins arbitrary: s m)
  case (Cons i ins)
  then show ?case by (cases i) (auto simp: ebind_Inr_iff set_used_iff mark_mark)
qed auto

lemma rebuild_inputs_iff:
  "rebuild_inputs ins (s, m) = Inr (s', m') \<longleftrightarrow>
     in_range (deposit_refs ins) m \<and> s' = s \<union> set (key_images ins) \<and> m' = mark True (deposit_refs ins) m"
proof (induction ins arbitrary: s m)
  case (Cons i ins)
  then show ?case by (cases i) (auto simp: ebind_Inr_iff set_used_iff mark_mark)
qed auto

lemma insert_keys_iff:
  "insert_keys before ins s = Inr (True, s') \<longleftrightarrow>
     distinct (key_images ins) \<and> set (key_images ins) \<inter> s = {} \<and> s' = s \<union> set (key_images ins)"
proof (induction ins arbitrary: before s)
  case (Cons i ins)
  then show ?case by (cases i) (auto simp: ebind_Inr_iff)
qed auto

section \<open>Outputs\<close>

definition no_empty :: "(uint64 \<Rightarrow> 'a list option) \<Rightarrow> bool" where
  "no_empty m \<longleftrightarrow> (\<forall>a. m a \<noteq> Some [])"

lemma push_outputs_fst: "fst (push_outputs ix n outs (os, m, g)) = fst (rebuild_outputs ix n outs (os, m))"
proof (induction outs arbitrary: n os m g)
  case (Cons out outs)
  then show ?case by (cases "target out") (simp_all add: Let_def del: fun_upd_apply)
qed simp

lemma push_outputs_snd: "fst (snd (push_outputs ix n outs (os, m, g))) = snd (rebuild_outputs ix n outs (os, m))"
proof (induction outs arbitrary: n os m g)
  case (Cons out outs)
  then show ?case by (cases "target out") (simp_all add: Let_def del: fun_upd_apply)
qed simp

lemma push_outputs_rebuild:
  "push_outputs ix n outs (os, m, g) =
     (fst (rebuild_outputs ix n outs (os, m)), snd (rebuild_outputs ix n outs (os, m)), snd (snd (push_outputs ix n outs (os, m, g))))"
  by (simp add: push_outputs_fst push_outputs_snd prod_eq_iff)

lemma rebuild_outputs_append:
  "rebuild_outputs ix n (xs @ ys) s = rebuild_outputs ix (n + length xs) ys (rebuild_outputs ix n xs s)"
proof (induction xs arbitrary: n s)
  case (Cons x xs)
  then show ?case by (cases s; cases "target x") simp_all
qed simp

lemma no_empty_upd: "no_empty m \<Longrightarrow> no_empty (m(a \<mapsto> v @ [x]))"
  by (simp add: no_empty_def)

lemma rebuild_outputs_no_empty:
  "no_empty os \<Longrightarrow> no_empty m \<Longrightarrow> rebuild_outputs ix n outs (os, m) = (os', m') \<Longrightarrow> no_empty os' \<and> no_empty m'"
proof (induction outs arbitrary: n os m)
  case (Cons out outs)
  show ?case
  proof (cases "target out")
    case (KeyOutput k)
    then show ?thesis using Cons.prems(3) by (intro Cons.IH [OF no_empty_upd [OF Cons.prems(1)] Cons.prems(2)]) (simp del: fun_upd_apply)
  next
    case (MultisignatureOutput ks r t)
    then show ?thesis using Cons.prems(3) by (intro Cons.IH [OF Cons.prems(1) no_empty_upd [OF Cons.prems(2)]]) (simp del: fun_upd_apply)
  qed
qed simp

lemma no_empty_mark [simp]: "no_empty (mark u R m) = no_empty m"
  by (auto simp: no_empty_def mark_def)

lemma pop_key_output_undo:
  assumes "no_empty os" "n < 65536"
  shows "pop_key_output ix n a (os(a \<mapsto> at_amount os a @ [(ix, of_nat n)])) = os"
proof -
  have "unat (of_nat n :: uint16) = n" using assms(2) by (intro unat_of_nat_small) simp
  then show ?thesis
    using assms(1) by (cases "os a") (auto simp: pop_key_output_def no_empty_def fun_eq_iff)
qed

lemma pop_deposit_output_undo:
  assumes "no_empty m" "n < 65536"
  shows "pop_deposit_output ix n a (m(a \<mapsto> at_amount m a @ [\<lparr>mo_transactionIndex = ix, mo_outputIndex = of_nat n, isUsed = False\<rparr>])) = m"
proof -
  have "unat (of_nat n :: uint16) = n" using assms(2) by (intro unat_of_nat_small) simp
  then show ?thesis
    using assms(1) by (cases "m a") (auto simp: pop_deposit_output_def no_empty_def fun_eq_iff)
qed

lemma pop_outputs_undo:
  assumes "no_empty os" "no_empty m" "length outs \<le> 65536"
  shows "pop_outputs ix (rev outs) (rebuild_outputs ix 0 outs (os, m)) = (os, m)"
  using assms(3)
proof (induction outs rule: rev_induct)
  case (snoc out outs)
  obtain os' m' where r: "rebuild_outputs ix 0 outs (os, m) = (os', m')" by force
  have "no_empty os'" "no_empty m'" using rebuild_outputs_no_empty [OF assms(1,2) r] by auto
  then have "pop_outputs ix (rev (outs @ [out])) (rebuild_outputs ix 0 (outs @ [out]) (os, m)) = pop_outputs ix (rev outs) (os', m')"
    using snoc.prems by (cases "target out") (simp_all add: rebuild_outputs_append r pop_key_output_undo pop_deposit_output_undo)
  also have "\<dots> = (os, m)" using snoc r by simp
  finally show ?case .
qed simp

section \<open>One transaction\<close>

text \<open>When a transaction is taken and what the tables are then.\<close>

definition push_ok :: "Hash \<Rightarrow> Transaction \<Rightarrow> chain_tables \<Rightarrow> bool" where
  "push_ok h tx c \<longleftrightarrow> m_transactionMap c h = None \<and> checkMultisignatureInputsDiff tx \<and>
     distinct (key_images (inputs tx)) \<and> set (key_images (inputs tx)) \<inter> m_spent_keys c = {} \<and>
     in_range (deposit_refs (inputs tx)) (m_multisignatureOutputs c) \<and> length (outputs tx) \<le> 65535"

definition push_effect :: "(bytes \<Rightarrow> Hash) \<Rightarrow> Hash \<Rightarrow> TransactionIndex \<Rightarrow> Transaction \<Rightarrow> chain_tables \<Rightarrow> chain_tables" where
  "push_effect cn_fast_hash h ix tx c =
     (case rebuild_outputs ix 0 (outputs tx) (m_outputs c, mark True (deposit_refs (inputs tx)) (m_multisignatureOutputs c)) of (os, m) \<Rightarrow>
      \<lparr>m_transactionMap = (m_transactionMap c)(h \<mapsto> ix), m_spent_keys = m_spent_keys c \<union> set (key_images (inputs tx)),
       m_outputs = os, m_multisignatureOutputs = m, ct_paymentIdIndex = snd (PaymentIdIndex_add cn_fast_hash tx (ct_paymentIdIndex c))\<rparr>)"

lemma pushTransaction_iff:
  assumes "unat (ti_transaction ix) < length txs" "tx = te_tx (txs ! unat (ti_transaction ix))"
  shows "(\<exists>txs'. pushTransaction cn_fast_hash txs h ix c = Inr (True, txs', c')) \<longleftrightarrow> push_ok h tx c \<and> c' = push_effect cn_fast_hash h ix tx c"
proof
  assume "\<exists>txs'. pushTransaction cn_fast_hash txs h ix c = Inr (True, txs', c')"
  then obtain s m where "m_transactionMap c h = None" "checkMultisignatureInputsDiff tx"
      "insert_keys [] (inputs tx) (m_spent_keys c) = Inr (True, s)" "use_deposits (inputs tx) (m_multisignatureOutputs c) = Inr m"
      "length (outputs tx) \<le> 65535"
      and c': "c' = (case push_outputs ix 0 (outputs tx) (m_outputs c, m, []) of (os, m, indexes) \<Rightarrow>
        \<lparr>m_transactionMap = (m_transactionMap c)(h \<mapsto> ix), m_spent_keys = s, m_outputs = os,
         m_multisignatureOutputs = m, ct_paymentIdIndex = snd (PaymentIdIndex_add cn_fast_hash tx (ct_paymentIdIndex c))\<rparr>)"
    using assms by (auto simp: pushTransaction_def ebind_Inr_iff Let_def split: if_splits prod.splits)
  then show "push_ok h tx c \<and> c' = push_effect cn_fast_hash h ix tx c"
    unfolding insert_keys_iff use_deposits_iff by (simp add: push_ok_def push_effect_def case_prod_beta push_outputs_fst push_outputs_snd)
next
  assume r: "push_ok h tx c \<and> c' = push_effect cn_fast_hash h ix tx c"
  let ?m = "mark True (deposit_refs (inputs tx)) (m_multisignatureOutputs c)"
  have k: "insert_keys [] (inputs tx) (m_spent_keys c) = Inr (True, m_spent_keys c \<union> set (key_images (inputs tx)))"
    and u: "use_deposits (inputs tx) (m_multisignatureOutputs c) = Inr ?m"
    using r by (simp_all add: insert_keys_iff use_deposits_iff push_ok_def)
  show "\<exists>txs'. pushTransaction cn_fast_hash txs h ix c = Inr (True, txs', c')"
    using r assms(1) unfolding pushTransaction_def Let_def assms(2) [symmetric] k u ebind_simps prod.case
    by (simp add: push_ok_def push_effect_def case_prod_beta push_outputs_fst push_outputs_snd)
qed

definition tables_ok :: "chain_tables \<Rightarrow> bool" where
  "tables_ok c \<longleftrightarrow> no_empty (m_outputs c) \<and> no_empty (m_multisignatureOutputs c)"

lemma tables_ok_push: "tables_ok c \<Longrightarrow> tables_ok (push_effect cn_fast_hash h ix tx c)"
  using rebuild_outputs_no_empty [of "m_outputs c" "mark True (deposit_refs (inputs tx)) (m_multisignatureOutputs c)" ix 0 "outputs tx"]
  by (auto simp: tables_ok_def push_effect_def split: prod.splits)

lemma payment_undo:
  "snd (PaymentIdIndex_remove cn_fast_hash tx (snd (PaymentIdIndex_add cn_fast_hash tx m))) = m"
  by (auto simp: PaymentIdIndex_remove_def PaymentIdIndex_add_def mm_erase_def mm_emplace_def split: option.splits)

lemma pop_push:
  assumes "tables_ok c" "push_ok h tx c" "unused (deposit_refs (inputs tx)) (m_multisignatureOutputs c)"
  shows "popTransaction cn_fast_hash tx h (push_effect cn_fast_hash h ix tx c) = Inr c"
proof -
  let ?R = "deposit_refs (inputs tx)" and ?K = "set (key_images (inputs tx))"
  let ?m = "mark True ?R (m_multisignatureOutputs c)"
  obtain os m where r: "rebuild_outputs ix 0 (outputs tx) (m_outputs c, ?m) = (os, m)" by force
  have "pop_outputs ix (rev (outputs tx)) (os, m) = (m_outputs c, ?m)"
    using pop_outputs_undo [of "m_outputs c" ?m "outputs tx" ix] assms by (simp add: r tables_ok_def push_ok_def)
  moreover have "pop_inputs (inputs tx) (m_spent_keys c \<union> ?K, ?m) = Inr (m_spent_keys c, m_multisignatureOutputs c)"
    using assms by (auto simp: pop_inputs_iff push_ok_def mark_undo)
  moreover have "(m_transactionMap c)(h := None) = m_transactionMap c" using assms(2) by (auto simp: push_ok_def)
  ultimately show ?thesis by (simp add: popTransaction_def push_effect_def r payment_undo)
qed

end
