(* ===== verification/ChainTables.thy ===== *)
theory ChainTables
  imports ChainState
begin

text \<open>
  What the tables of \<^verbatim>\<open>ChainState\<close> hold: removing a transaction undoes adding it, the tables that are kept up
  to date block by block are those that \<open>rebuildCache\<close> computes from the blocks, and no key image and no
  deposit is spent twice on the chain.
\<close>

section \<open>The transactions of a block\<close>

text \<open>The reference: the tables after a list of transactions, all of them taken and spending unused deposits.\<close>

fun push_all :: "(bytes \<Rightarrow> Hash) \<Rightarrow> uint32 \<Rightarrow> nat \<Rightarrow> Transaction list \<Rightarrow> chain_tables \<Rightarrow> chain_tables option" where
  "push_all f b t [] c = Some c"
| "push_all f b t (tx # txs) c =
     (if push_ok (tx_id f tx) tx c \<and> unused (deposit_refs (inputs tx)) (m_multisignatureOutputs c)
      then push_all f b (Suc t) txs (push_effect f (tx_id f tx) \<lparr>ti_block = b, ti_transaction = of_nat t\<rparr> tx c) else None)"

fun tables_of :: "(bytes \<Rightarrow> Hash) \<Rightarrow> nat \<Rightarrow> BlockEntry list \<Rightarrow> chain_tables \<Rightarrow> chain_tables option" where
  "tables_of f n [] c = Some c"
| "tables_of f n (e # es) c = Option.bind (push_all f (of_nat n) 0 (map te_tx (be_transactions e)) c) (tables_of f (Suc n) es)"

lemma pushTransaction_txs:
  "pushTransaction f txs h ix c = Inr (r, txs', c') \<Longrightarrow> map te_tx txs' = map te_tx txs"
proof -
  assume "pushTransaction f txs h ix c = Inr (r, txs', c')"
  then have "txs' = txs \<or> (\<exists>n g. txs' = txs[n := (txs ! n)\<lparr>m_global_output_indexes := g\<rparr>])"
    by (auto simp: pushTransaction_def ebind_Inr_iff Let_def case_prod_beta split: if_splits)
  moreover have "map te_tx (txs[n := (txs ! n)\<lparr>m_global_output_indexes := g\<rparr>]) = map te_tx txs" for n g
    by (cases "n < length txs") (auto intro: nth_equalityI simp: nth_list_update)
  ultimately show ?thesis by auto
qed

section \<open>Removing undoes adding\<close>

lemma push_all_append: "push_all f b t (xs @ ys) c = Option.bind (push_all f b t xs c) (push_all f b (t + length xs) ys)"
  by (induction xs arbitrary: t c) auto

lemma push_all_ok: "push_all f b t txs c = Some c' \<Longrightarrow> tables_ok c \<Longrightarrow> tables_ok c'"
  by (induction txs arbitrary: t c) (auto simp: tables_ok_push split: if_splits)

lemma pop_list_append: "pop_list f (xs @ ys) c = ebind (pop_list f xs c) (pop_list f ys)"
proof (induction xs arbitrary: c)
  case (Cons x xs)
  obtain tx h where "x = (tx, h)" by force
  then show ?case using Cons by (cases "popTransaction f tx h c") simp_all
qed simp

lemma pop_push_all:
  assumes "push_all f b t txs c = Some c'" "tables_ok c"
  shows "pop_list f (rev (zip txs (map (tx_id f) txs))) c' = Inr c"
  using assms
proof (induction txs arbitrary: t c)
  case (Cons tx txs)
  let ?d = "push_effect f (tx_id f tx) \<lparr>ti_block = b, ti_transaction = of_nat t\<rparr> tx c"
  have ok: "push_ok (tx_id f tx) tx c" "unused (deposit_refs (inputs tx)) (m_multisignatureOutputs c)" "push_all f b (Suc t) txs ?d = Some c'"
    using Cons.prems(1) by (auto split: if_splits)
  have "pop_list f (rev (zip txs (map (tx_id f) txs))) c' = Inr ?d"
    using Cons.IH [OF ok(3)] Cons.prems(2) tables_ok_push by blast
  then show ?case using pop_push [OF Cons.prems(2) ok(1,2)] by (simp add: pop_list_append)
qed simp

text \<open>A stored block: its transactions are the miner's transaction and those that the block names.\<close>

definition entry_ok :: "(bytes \<Rightarrow> Hash) \<Rightarrow> BlockEntry \<Rightarrow> bool" where
  "entry_ok f e \<longleftrightarrow> (\<exists>txs. map te_tx (be_transactions e) = baseTransaction (be_bl e) # txs \<and>
     transactionHashes (be_bl e) = map (tx_id f) txs) \<and> length (be_transactions e) \<le> 65535"

lemma popTransactions_push_all:
  assumes "map te_tx es = baseTransaction b # txs" "take (length txs) (transactionHashes b) = map (tx_id f) txs"
    and "push_all f n 0 (map te_tx es) c = Some c'" "tables_ok c"
  shows "popTransactions f b es (tx_id f (baseTransaction b)) c' = Inr c"
proof -
  have tl: "es \<noteq> []" "map te_tx (tl es) = txs" using assms(1) by (auto simp: map_tl [symmetric])
  have len: "length es = Suc (length txs)" using arg_cong [OF assms(1), where f = length] by simp
  have hs: "length txs \<le> length (transactionHashes b)" using arg_cong [OF assms(2), where f = length] by simp
  have "zip txs (transactionHashes b) = zip txs (map (tx_id f) txs)" 
    using arg_cong [OF assms(2), where f = "zip txs"] take_zip [of "length txs" txs "transactionHashes b"] by simp
  then show ?thesis
    using pop_push_all [OF assms(3,4)] tl len hs
    by (simp add: popTransactions_def assms(1) pop_list_append ebind_def split: sum.splits)
qed

section \<open>Rebuilding gives the same tables\<close>

lemma rebuild_transaction_effect:
  assumes "push_ok (tx_id f tx) tx c"
  shows "rebuild_transaction f ix tx (c\<lparr>ct_paymentIdIndex := q\<rparr>) = Inr ((push_effect f (tx_id f tx) ix tx c)\<lparr>ct_paymentIdIndex := q\<rparr>)"
proof -
  let ?m = "mark True (deposit_refs (inputs tx)) (m_multisignatureOutputs c)"
  have "rebuild_inputs (inputs tx) (m_spent_keys c, m_multisignatureOutputs c) = Inr (m_spent_keys c \<union> set (key_images (inputs tx)), ?m)"
    using assms by (simp add: rebuild_inputs_iff push_ok_def)
  then show ?thesis
    using assms by (cases "rebuild_outputs ix 0 (outputs tx) (m_outputs c, ?m)") (simp add: rebuild_transaction_def push_effect_def push_ok_def)
qed

lemma rebuild_transactions_effect:
  "push_all f b t (map te_tx es) c = Some c' \<Longrightarrow>
   rebuild_transactions f b t es (c\<lparr>ct_paymentIdIndex := q\<rparr>) = Inr (c'\<lparr>ct_paymentIdIndex := q\<rparr>)"
  by (induction es arbitrary: t c) (auto simp: rebuild_transaction_effect split: if_splits)

section \<open>What is spent\<close>

abbreviation images_of :: "Transaction list \<Rightarrow> KeyImage list" where
  "images_of txs \<equiv> concat (map (\<lambda>tx. key_images (inputs tx)) txs)"

abbreviation deposits_of :: "Transaction list \<Rightarrow> (uint64 \<times> uint32) list" where
  "deposits_of txs \<equiv> concat (map (\<lambda>tx. multisignature_keys (inputs tx)) txs)"

definition used_set :: "deposits \<Rightarrow> (uint64 \<times> nat) set" where
  "used_set m = {(a, n). n < length (at_amount m a) \<and> isUsed (at_amount m a ! n)}"

abbreviation ref_of :: "uint64 \<times> uint32 \<Rightarrow> uint64 \<times> nat" where
  "ref_of \<equiv> \<lambda>(a, n). (a, unat n)"

lemma deposit_refs_keys: "deposit_refs ins = ref_of ` set (multisignature_keys ins)"
proof (induction ins)
  case (Cons i ins)
  then show ?case by (cases i) auto
qed simp

lemma used_set_mark: "in_range R m \<Longrightarrow> used_set (mark True R m) = used_set m \<union> R"
proof (rule set_eqI)
  fix r :: "uint64 \<times> nat"
  assume R: "in_range R m"
  obtain a n where r: "r = (a, n)" by force
  show "r \<in> used_set (mark True R m) \<longleftrightarrow> r \<in> used_set m \<union> R"
  proof (cases "n < length (at_amount m a)")
    case True
    then obtain v where v: "m a = Some v" by (cases "m a") auto
    then have "at_amount (mark True R m) a = map (\<lambda>i. if (a, i) \<in> R then (v ! i)\<lparr>isUsed := True\<rparr> else v ! i) [0..<length v]"
      by (simp add: mark_def at_amount_def)
    then show ?thesis using True v by (simp add: r used_set_def)
  next
    case False
    then have "(a, n) \<notin> R" using R by (auto simp: in_range_def)
    then show ?thesis using False by (simp add: r used_set_def)
  qed
qed

lemma used_set_outputs: "used_set (snd (rebuild_outputs ix n outs (os, m))) = used_set m"
proof (induction outs arbitrary: n os m)
  case (Cons out outs)
  show ?case
  proof (cases "target out")
    case (KeyOutput k)
    then show ?thesis by (simp add: Cons.IH del: fun_upd_apply)
  next
    case (MultisignatureOutput ks r t)
    have "used_set (m(amount out \<mapsto> at_amount m (amount out) @ [\<lparr>mo_transactionIndex = ix, mo_outputIndex = of_nat n, isUsed = False\<rparr>])) = used_set m"
      by (auto simp: used_set_def nth_append split: if_splits)
    then show ?thesis using MultisignatureOutput by (simp add: Cons.IH del: fun_upd_apply)
  qed
qed simp

lemma unused_used_set: "in_range R m \<Longrightarrow> unused R m \<longleftrightarrow> R \<inter> used_set m = {}"
  by (auto simp: unused_def used_set_def in_range_def)

lemma push_effect_spent:
  assumes "push_ok h tx c"
  shows "m_spent_keys (push_effect f h ix tx c) = m_spent_keys c \<union> set (key_images (inputs tx))"
    and "used_set (m_multisignatureOutputs (push_effect f h ix tx c)) = used_set (m_multisignatureOutputs c) \<union> deposit_refs (inputs tx)"
  using assms used_set_outputs [of ix 0 "outputs tx" "m_outputs c" "mark True (deposit_refs (inputs tx)) (m_multisignatureOutputs c)"]
  by (simp_all add: push_effect_def push_ok_def used_set_mark case_prod_beta)

text \<open>From \<open>c\<close> to \<open>c'\<close> the key images \<open>ks\<close> and the deposits \<open>ds\<close> are spent, each of them for the first time.\<close>

definition spends :: "KeyImage list \<Rightarrow> (uint64 \<times> uint32) list \<Rightarrow> chain_tables \<Rightarrow> chain_tables \<Rightarrow> bool" where
  "spends ks ds c c' \<longleftrightarrow> distinct ks \<and> distinct ds \<and>
     set ks \<inter> m_spent_keys c = {} \<and> m_spent_keys c' = m_spent_keys c \<union> set ks \<and>
     ref_of ` set ds \<inter> used_set (m_multisignatureOutputs c) = {} \<and>
     used_set (m_multisignatureOutputs c') = used_set (m_multisignatureOutputs c) \<union> ref_of ` set ds"

lemma spends_refl: "spends [] [] c c"
  by (simp add: spends_def)

lemma fresh_union:
  "A \<inter> S = {} \<Longrightarrow> S' = S \<union> A \<Longrightarrow> B \<inter> S' = {} \<Longrightarrow> S'' = S' \<union> B \<Longrightarrow> (A \<union> B) \<inter> S = {} \<and> S'' = S \<union> (A \<union> B) \<and> A \<inter> B = {}"
  by blast

lemma spends_append:
  assumes "spends ks ds c c'" "spends ks' ds' c' c''"
  shows "spends (ks @ ks') (ds @ ds') c c''"
proof -
  note s = assms [unfolded spends_def]
  have k: "(set ks \<union> set ks') \<inter> m_spent_keys c = {} \<and> m_spent_keys c'' = m_spent_keys c \<union> (set ks \<union> set ks') \<and> set ks \<inter> set ks' = {}"
    using s by (intro fresh_union) simp_all
  let ?u = "\<lambda>c. used_set (m_multisignatureOutputs c)"
  have d: "(ref_of ` set ds \<union> ref_of ` set ds') \<inter> ?u c = {} \<and> ?u c'' = ?u c \<union> (ref_of ` set ds \<union> ref_of ` set ds') \<and>
      ref_of ` set ds \<inter> ref_of ` set ds' = {}"
    using s by (intro fresh_union) simp_all
  then have "set ds \<inter> set ds' = {}" by (metis image_Int_subset image_is_empty subset_empty)
  then show ?thesis using s k d unfolding spends_def set_append image_Un distinct_append by (intro conjI) simp_all
qed

lemma push_effect_spends:
  assumes "push_ok h tx c" "unused (deposit_refs (inputs tx)) (m_multisignatureOutputs c)"
  shows "spends (key_images (inputs tx)) (multisignature_keys (inputs tx)) c (push_effect f h ix tx c)"
proof -
  have "distinct (multisignature_keys (inputs tx))" "distinct (key_images (inputs tx))" "set (key_images (inputs tx)) \<inter> m_spent_keys c = {}"
    using assms(1) stateless_checks_exact by (auto simp: push_ok_def)
  moreover have "deposit_refs (inputs tx) \<inter> used_set (m_multisignatureOutputs c) = {}"
    using assms by (simp add: unused_used_set push_ok_def)
  ultimately show ?thesis unfolding spends_def push_effect_spent [OF assms(1)] deposit_refs_keys by (intro conjI refl)
qed

lemma push_all_spends: "push_all f b t txs c = Some c' \<Longrightarrow> spends (images_of txs) (deposits_of txs) c c'"
proof (induction txs arbitrary: t c)
  case (Cons tx txs)
  then show ?case using spends_append [OF push_effect_spends Cons.IH] by (auto split: if_splits)
qed (simp add: spends_refl)

section \<open>The tables of a chain\<close>

lemma tables_of_append: "tables_of f n (xs @ ys) c = Option.bind (tables_of f n xs c) (tables_of f (n + length xs) ys)"
  by (induction xs arbitrary: n c) (auto simp: bind_eq_Some_conv split: bind_splits)

lemma tables_of_ok: "tables_of f n es c = Some c' \<Longrightarrow> tables_ok c \<Longrightarrow> tables_ok c'"
  by (induction es arbitrary: n c) (auto simp: bind_eq_Some_conv intro: push_all_ok)

lemma tables_ok_new [simp]: "tables_ok chain_tables_new"
  by (simp add: tables_ok_def chain_tables_new_def no_empty_def)

definition chain_transactions :: "BlockEntry list \<Rightarrow> Transaction list" where
  "chain_transactions es = concat (map (\<lambda>e. map te_tx (be_transactions e)) es)"

lemma chain_transactions_simps [simp]:
  "chain_transactions [] = []" "chain_transactions (e # es) = map te_tx (be_transactions e) @ chain_transactions es"
  by (simp_all add: chain_transactions_def)

lemma tables_of_spends:
  "tables_of f n es c = Some c' \<Longrightarrow> spends (images_of (chain_transactions es)) (deposits_of (chain_transactions es)) c c'"
proof (induction es arbitrary: n c)
  case (Cons e es)
  then obtain d where d: "push_all f (of_nat n) 0 (map te_tx (be_transactions e)) c = Some d" "tables_of f (Suc n) es d = Some c'"
    by (auto simp: bind_eq_Some_conv)
  show ?case using spends_append [OF push_all_spends [OF d(1)] Cons.IH [OF d(2)]] by simp
qed (simp add: spends_refl)

end
