(* ===== verification/ChainChecks.thy ===== *)
theory ChainChecks
  imports ChainTables DepositIndex BlockIndex Checkpoints UpgradeDetector NextDifficulty
begin

text \<open>
  The checks of \<^verbatim>\<open>src/CryptoNoteCore/Blockchain.cpp\<close> that read the state of the chain: versions,
  timestamps, difficulty, sizes and rewards of blocks, and the inputs and outputs of transactions. The
  state is the record \<open>Blockchain\<close>, whose \<open>SwappedVector\<close> of blocks (a vector that lives in a file) is a
  list. The currency and the primitives of \<^verbatim>\<open>crypto/crypto.h\<close> are in the record \<open>chain_env\<close>; the time
  is an argument.
\<close>

section \<open>State\<close>

record chain_env =
  ce_currency :: Currency
  ce_fast_hash :: "bytes \<Rightarrow> Hash"
  ce_slow_hashes :: slow_hashes
  ce_check_key :: "PublicKey \<Rightarrow> bool"
  ce_check_signature :: "Hash \<Rightarrow> PublicKey \<Rightarrow> Signature \<Rightarrow> bool"
  ce_check_ring_signature :: "Hash \<Rightarrow> KeyImage \<Rightarrow> PublicKey list \<Rightarrow> Signature list \<Rightarrow> bool"
  ce_scalarmultKey :: "KeyImage \<Rightarrow> KeyImage \<Rightarrow> KeyImage"

record 'b Blockchain =
  m_blocks :: "BlockEntry list"
  m_blockIndex :: 'b
  m_tables :: chain_tables
  m_depositIndex :: DepositIndex
  m_upgradeDetectorV2 :: UpgradeDetector
  m_upgradeDetectorV3 :: UpgradeDetector
  bc_timestampIndex :: TimestampIndex
  m_generatedTransactionsIndex :: GeneratedTransactionsIndex
  m_orthanBlocksIndex :: OrphanBlocksIndex
  m_alternative_chains :: "Hash \<Rightarrow> BlockEntry option"
  m_checkpoints :: Checkpoints
  m_current_block_cumul_sz_limit :: uint64

definition Blockchain_new :: "'b \<Rightarrow> 'b Blockchain" where
  "Blockchain_new index = \<lparr>m_blocks = [], m_blockIndex = index, m_tables = chain_tables_new, m_depositIndex = DepositIndex_new,
     m_upgradeDetectorV2 = UpgradeDetector_new BLOCK_MAJOR_VERSION_2, m_upgradeDetectorV3 = UpgradeDetector_new BLOCK_MAJOR_VERSION_3,
     bc_timestampIndex = [], m_generatedTransactionsIndex = GeneratedTransactionsIndex_new, m_orthanBlocksIndex = {#},
     m_alternative_chains = Map.empty, m_checkpoints = Checkpoints_new, m_current_block_cumul_sz_limit = 0\<rparr>"

definition getCurrentBlockchainHeight :: "'b Blockchain \<Rightarrow> uint32" where
  "getCurrentBlockchainHeight bc = of_nat (length (m_blocks bc))"

definition isInCheckpointZone :: "'b Blockchain \<Rightarrow> uint32 \<Rightarrow> bool" where
  "isInCheckpointZone bc height = is_in_checkpoint_zone (m_checkpoints bc) height"

definition Blockchain_getTailId :: "'b hash_container \<Rightarrow> 'b Blockchain \<Rightarrow> Hash outcome" where
  "Blockchain_getTailId C bc = (if m_blocks bc = [] then Inr NULL_HASH else or_error FailedAssert (getTailId C (m_blockIndex bc)))"

definition haveTransaction :: "'b Blockchain \<Rightarrow> Hash \<Rightarrow> bool" where
  "haveTransaction bc h \<longleftrightarrow> m_transactionMap (m_tables bc) h \<noteq> None"

definition have_tx_keyimg_as_spent :: "'b Blockchain \<Rightarrow> KeyImage \<Rightarrow> bool" where
  "have_tx_keyimg_as_spent bc key_im \<longleftrightarrow> key_im \<in> m_spent_keys (m_tables bc)"

definition haveTransactionKeyImagesAsSpent :: "'b Blockchain \<Rightarrow> Transaction \<Rightarrow> bool" where
  "haveTransactionKeyImagesAsSpent bc tx = list_ex (\<lambda>input. case input of
     KeyInput _ _ keyImage \<Rightarrow> have_tx_keyimg_as_spent bc keyImage | _ \<Rightarrow> False) (inputs tx)"

definition Blockchain_haveBlock :: "'b hash_container \<Rightarrow> 'b Blockchain \<Rightarrow> Hash \<Rightarrow> bool" where
  "Blockchain_haveBlock C bc h \<longleftrightarrow> hasBlock C (m_blockIndex bc) h \<or> m_alternative_chains bc h \<noteq> None"

text \<open>The vector of blocks throws on an index beyond its end, that of transactions does not.\<close>

definition transactionByIndex :: "'b Blockchain \<Rightarrow> TransactionIndex \<Rightarrow> TransactionEntry outcome" where
  "transactionByIndex bc index =
     (if \<not> unat (ti_block index) < length (m_blocks bc) then Inl RuntimeError
      else let txs = be_transactions (m_blocks bc ! unat (ti_block index)) in
        if \<not> unat (ti_transaction index) < length txs then Inl OutsideVector
        else Inr (txs ! unat (ti_transaction index)))"

section \<open>Medians, versions and difficulty\<close>

definition medianValue :: "uint64 list \<Rightarrow> uint64" where
  "medianValue v =
     (if v = [] then 0
      else if length v = 1 then v ! 0
      else let n = length v div 2; v = sort v in
        if odd (length v) then v ! n else (v ! (n - 1) + v ! n) div 2)"

definition get_block_major_version_for_height :: "Currency \<Rightarrow> 'b Blockchain \<Rightarrow> uint64 \<Rightarrow> uint8" where
  "get_block_major_version_for_height c bc height =
     (if ucast (detector_upgradeHeight c (m_upgradeDetectorV3 bc)) < height then m_targetVersion (m_upgradeDetectorV3 bc)
      else if ucast (detector_upgradeHeight c (m_upgradeDetectorV2 bc)) < height then m_targetVersion (m_upgradeDetectorV2 bc)
      else BLOCK_MAJOR_VERSION_1)"

definition getBlockMajorVersionForHeight :: "Currency \<Rightarrow> 'b Blockchain \<Rightarrow> uint32 \<Rightarrow> uint8" where
  "getBlockMajorVersionForHeight c bc height =
     (if detector_upgradeHeight c (m_upgradeDetectorV3 bc) < height then m_targetVersion (m_upgradeDetectorV3 bc)
      else if detector_upgradeHeight c (m_upgradeDetectorV2 bc) < height then m_targetVersion (m_upgradeDetectorV2 bc)
      else BLOCK_MAJOR_VERSION_1)"

definition next_difficulty :: "Currency \<Rightarrow> 'b Blockchain \<Rightarrow> uint64 list \<Rightarrow> uint64 list \<Rightarrow> uint64 outcome" where
  "next_difficulty c bc timestamps commulative_difficulties =
     (let block_index = of_nat (length (m_blocks bc)) :: uint32;
          block_major_version = get_block_major_version_for_height c bc (ucast (block_index + 1))
      in or_error FailedAssert
        (if 3 \<le> block_major_version then nextDifficultyLWMA3 timestamps commulative_difficulties
         else nextDifficulty c timestamps commulative_difficulties))"

definition getDifficultyForNextBlock :: "Currency \<Rightarrow> 'b Blockchain \<Rightarrow> uint64 outcome" where
  "getDifficultyForNextBlock c bc =
     (let size = length (m_blocks bc);
          BlockMajorVersion = getBlockMajorVersionForHeight c bc (of_nat size);
          offset = size - min size (unat (difficultyBlocksCountByBlockVersion c BlockMajorVersion));
          offset = (if offset = 0 then offset + 1 else offset);
          bs = drop offset (m_blocks bc)
      in next_difficulty c bc (map (\<lambda>e. timestamp (be_bl e)) bs) (map cumulative_difficulty bs))"

section \<open>Checks of a block\<close>

text \<open>The block's own time may be ahead of the clock by the limit; with a full window of blocks it may not
  be below their median.\<close>

definition check_block_timestamp :: "Currency \<Rightarrow> uint64 list \<Rightarrow> Block \<Rightarrow> bool" where
  "check_block_timestamp c timestamps b =
     (if of_nat (length timestamps) < m_timestampCheckWindow c then True
      else \<not> timestamp b < medianValue timestamps)"

definition check_block_timestamp_main :: "Currency \<Rightarrow> uint64 \<Rightarrow> 'b Blockchain \<Rightarrow> Block \<Rightarrow> bool" where
  "check_block_timestamp_main c time bc b =
     (if time + m_blockFutureTimeLimit c < timestamp b then False
      else
        let size = of_nat (length (m_blocks bc)) :: uint64;
            offset = (if size \<le> m_timestampCheckWindow c then 0 else size - m_timestampCheckWindow c)
        in check_block_timestamp c (map (\<lambda>e. timestamp (be_bl e)) (drop (unat offset) (m_blocks bc))) b)"

definition checkBlockVersion :: "Currency \<Rightarrow> 'b Blockchain \<Rightarrow> Block \<Rightarrow> bool" where
  "checkBlockVersion c bc b \<longleftrightarrow> majorVersion b = get_block_major_version_for_height c bc (ucast (get_block_height b))"

definition checkCumulativeBlockSize :: "Currency \<Rightarrow> uint64 \<Rightarrow> uint64 \<Rightarrow> bool outcome" where
  "checkCumulativeBlockSize c cumulativeBlockSize height =
     ebind (or_error FailedAssert (maxBlockCumulativeSize c height)) (\<lambda>maxSize. Inr (\<not> maxSize < cumulativeBlockSize))"

definition getBackwardBlocksSize :: "'b Blockchain \<Rightarrow> uint64 \<Rightarrow> uint64 \<Rightarrow> uint64 list option" where
  "getBackwardBlocksSize bc from_height n =
     (if \<not> unat from_height < length (m_blocks bc) then None
      else
        let start_offset = (from_height + 1) - min (from_height + 1) n
        in Some (map block_cumulative_size (drop (unat start_offset) (take (unat from_height + 1) (m_blocks bc)))))"

definition get_last_n_blocks_sizes :: "'b Blockchain \<Rightarrow> uint64 \<Rightarrow> uint64 list" where
  "get_last_n_blocks_sizes bc n =
     (if m_blocks bc = [] then []
      else case getBackwardBlocksSize bc (of_nat (length (m_blocks bc)) - 1) n of None \<Rightarrow> [] | Some sz \<Rightarrow> sz)"

definition update_next_comulative_size_limit :: "Currency \<Rightarrow> 'b Blockchain \<Rightarrow> 'b Blockchain" where
  "update_next_comulative_size_limit c bc =
     (let median = medianValue (get_last_n_blocks_sizes bc (m_rewardBlocksWindow c));
          median = (if median \<le> m_blockGrantedFullRewardZone c then m_blockGrantedFullRewardZone c else median)
      in bc\<lparr>m_current_block_cumul_sz_limit := median * 2\<rparr>)"

text \<open>Without a string for the message, an output that needs a newer version is reported through a null
  pointer.\<close>

definition prevalidate_miner_transaction :: "chain_env \<Rightarrow> Block \<Rightarrow> uint32 \<Rightarrow> bool outcome" where
  "prevalidate_miner_transaction E b height =
     (case inputs (baseTransaction b) of
        [BaseInput blockIndex] \<Rightarrow>
          if 1 < length (signatures (baseTransaction b)) then Inr False
          else if blockIndex \<noteq> height then Inr False
          else if unlockTime (baseTransaction b) \<noteq> ucast height + m_minedMoneyUnlockWindow (ce_currency E) then Inr False
          else (case check_outs_valid (ce_check_key E) (baseTransaction b) of
              Some MultisignatureInOldVersion \<Rightarrow> Inl NullPointer
            | Some _ \<Rightarrow> Inr False
            | None \<Rightarrow> Inr (check_outs_overflow (baseTransaction b)))
      | _ \<Rightarrow> Inr False)"

text \<open>The result, the reward and the change of the emission.\<close>

definition validate_miner_transaction ::
  "Currency \<Rightarrow> 'b Blockchain \<Rightarrow> Block \<Rightarrow> uint32 \<Rightarrow> uint64 \<Rightarrow> uint64 \<Rightarrow> uint64 \<Rightarrow> (bool \<times> uint64 \<times> uint64) outcome" where
  "validate_miner_transaction c bc b height cumulativeBlockSize alreadyGeneratedCoins fee =
     (let minerReward = fold (\<lambda>out r. r + amount out) (outputs (baseTransaction b)) 0;
          blocksSizeMedian = medianValue (get_last_n_blocks_sizes bc (m_rewardBlocksWindow c))
      in case getBlockReward c blocksSizeMedian cumulativeBlockSize alreadyGeneratedCoins fee height of
           AssertFailed \<Rightarrow> Inl FailedAssert
         | ReturnFalse \<Rightarrow> Inr (False, 0, 0)
         | Return (reward, emissionChange) \<Rightarrow>
             if reward < minerReward then Inr (height < 290700, reward, emissionChange)
             else if minerReward < reward then Inr (height < 290700, reward, emissionChange)
             else Inr (True, reward, emissionChange))"

section \<open>Checks of a transaction\<close>

text \<open>A number below the greatest height is a height, any other a time.\<close>

definition is_tx_spendtime_unlocked :: "Currency \<Rightarrow> uint64 \<Rightarrow> 'b Blockchain \<Rightarrow> uint64 \<Rightarrow> bool" where
  "is_tx_spendtime_unlocked c time bc unlock_time =
     (if unlock_time < m_maxBlockHeight c
      then unlock_time \<le> ucast (getCurrentBlockchainHeight bc - 1) + m_lockedTxAllowedDeltaBlocks c
      else unlock_time \<le> time + m_lockedTxAllowedDeltaSeconds c)"

text \<open>The visitor of \<open>check_tx_input\<close> takes the key of an output.\<close>

definition handle_output :: "Currency \<Rightarrow> uint64 \<Rightarrow> 'b Blockchain \<Rightarrow> Transaction \<Rightarrow> TransactionOutput \<Rightarrow> PublicKey option" where
  "handle_output c time bc tx out =
     (if \<not> is_tx_spendtime_unlocked c time bc (unlockTime tx) then None
      else case target out of KeyOutput key \<Rightarrow> Some key | _ \<Rightarrow> None)"

text \<open>The result is \<open>None\<close> for \<open>false\<close>, else the keys and the block of the last output.\<close>

fun scan_loop ::
  "Currency \<Rightarrow> uint64 \<Rightarrow> 'b Blockchain \<Rightarrow> (TransactionIndex \<times> uint16) list \<Rightarrow> uint32 list \<Rightarrow> PublicKey list \<Rightarrow> uint32 \<Rightarrow>
   (PublicKey list \<times> uint32) option outcome" where
  "scan_loop c time bc outs [] keys b = Inr (Some (keys, b))"
| "scan_loop c time bc outs (i # is) keys b =
     (if \<not> unat i < length outs then Inr None
      else let (index, n) = outs ! unat i in
        ebind (transactionByIndex bc index) (\<lambda>e.
          if \<not> unat n < length (outputs (te_tx e)) then Inr None
          else case handle_output c time bc (te_tx e) (outputs (te_tx e) ! unat n) of
            None \<Rightarrow> Inr None
          | Some key \<Rightarrow> scan_loop c time bc outs is (keys @ [key]) (ti_block index)))"

definition scanOutputKeysForIndexes ::
  "Currency \<Rightarrow> uint64 \<Rightarrow> 'b Blockchain \<Rightarrow> uint64 \<Rightarrow> uint32 list \<Rightarrow> (PublicKey list \<times> uint32) option outcome" where
  "scanOutputKeysForIndexes c time bc a outputIndexes = (case m_outputs (m_tables bc) a of
     None \<Rightarrow> Inr None
   | Some outs \<Rightarrow>
       if outputIndexes = [] then Inr None
       else scan_loop c time bc outs (relative_output_offsets_to_absolute outputIndexes) [] 0)"

text \<open>The identity and the order of the group in which the key image has to be.\<close>

definition key_I :: KeyImage where
  "key_I = 1"

definition key_L :: KeyImage where
  "key_L = 0x1000000000000000000000000000000014def9dea2f79cd65812631a5cf5d3ed"

text \<open>The out parameter with the greatest block is given as the value of a result that is true.\<close>

definition check_tx_input ::
  "chain_env \<Rightarrow> uint64 \<Rightarrow> 'b Blockchain \<Rightarrow> uint64 \<Rightarrow> uint32 list \<Rightarrow> KeyImage \<Rightarrow> Hash \<Rightarrow> Signature list \<Rightarrow> uint32 \<Rightarrow> uint32 option outcome" where
  "check_tx_input E time bc a outputIndexes keyImage tx_prefix_hash sig max_related =
     ebind (scanOutputKeysForIndexes (ce_currency E) time bc a outputIndexes) (\<lambda>r. case r of
       None \<Rightarrow> Inr None
     | Some (output_keys, b) \<Rightarrow> Inr (
         if length outputIndexes \<noteq> length output_keys then None
         else if length sig \<noteq> length output_keys then None
         else if isInCheckpointZone bc (getCurrentBlockchainHeight bc) then Some (max max_related b)
         else if ce_scalarmultKey E keyImage key_L \<noteq> key_I then None
         else if ce_check_ring_signature E tx_prefix_hash keyImage output_keys sig then Some (max max_related b)
         else None))"

text \<open>Every signature has to be of a later key than the one before it.\<close>

fun multisignature_loop :: "(PublicKey \<Rightarrow> Signature \<Rightarrow> bool) \<Rightarrow> Signature list \<Rightarrow> PublicKey list \<Rightarrow> bool" where
  "multisignature_loop check [] keys = True"
| "multisignature_loop check (s # sigs) [] = False"
| "multisignature_loop check (s # sigs) (k # keys) =
     (if check k s then multisignature_loop check sigs keys else multisignature_loop check (s # sigs) keys)"

definition validateInput ::
  "chain_env \<Rightarrow> uint64 \<Rightarrow> 'b Blockchain \<Rightarrow> uint64 \<Rightarrow> uint8 \<Rightarrow> uint32 \<Rightarrow> uint32 \<Rightarrow> Hash \<Rightarrow> Signature list \<Rightarrow> bool outcome" where
  "validateInput E time bc a signatureCount n trm prefixHash sigs =
     (if unat signatureCount \<noteq> length sigs then Inl FailedAssert
      else case m_multisignatureOutputs (m_tables bc) a of
        None \<Rightarrow> Inr False
      | Some amountOutputs \<Rightarrow>
          if length amountOutputs \<le> unat n then Inr False
          else let usage = amountOutputs ! unat n in
          if isUsed usage then Inr False
          else ebind (transactionByIndex bc (mo_transactionIndex usage)) (\<lambda>e.
            let outputTransaction = te_tx e; i = unat (mo_outputIndex usage) in
            if \<not> is_tx_spendtime_unlocked (ce_currency E) time bc (unlockTime outputTransaction) then Inr False
            else if \<not> i < length (outputs outputTransaction) then Inl OutsideVector
            else if amount (outputs outputTransaction ! i) \<noteq> a then Inl FailedAssert
            else case target (outputs outputTransaction ! i) of
              KeyOutput _ \<Rightarrow> Inl FailedAssert
            | MultisignatureOutput keys requiredSignatureCount outputTerm \<Rightarrow>
                Inr (if signatureCount \<noteq> requiredSignatureCount then False
                  else if trm \<noteq> outputTerm then False
                  else if outputTerm \<noteq> 0 \<and> getCurrentBlockchainHeight bc < ti_block (mo_transactionIndex usage) + outputTerm then False
                  else multisignature_loop (ce_check_signature E prefixHash) sigs keys)))"

text \<open>The loop over the inputs and their signatures.\<close>

fun check_inputs_loop ::
  "chain_env \<Rightarrow> uint64 \<Rightarrow> 'b Blockchain \<Rightarrow> Hash \<Rightarrow> TransactionInput list \<Rightarrow> Signature list list \<Rightarrow> uint32 \<Rightarrow> uint32 option outcome" where
  "check_inputs_loop E time bc tx_prefix_hash [] sigs max_used = Inr (Some max_used)"
| "check_inputs_loop E time bc tx_prefix_hash (txin # ins) [] max_used = Inl FailedAssert"
| "check_inputs_loop E time bc tx_prefix_hash (txin # ins) (sig # sigs) max_used = (case txin of
     KeyInput a outputIndexes keyImage \<Rightarrow>
       if outputIndexes = [] then Inr None
       else if have_tx_keyimg_as_spent bc keyImage then Inr None
       else if isInCheckpointZone bc (getCurrentBlockchainHeight bc) then check_inputs_loop E time bc tx_prefix_hash ins sigs max_used
       else ebind (check_tx_input E time bc a outputIndexes keyImage tx_prefix_hash sig max_used) (\<lambda>r. case r of
         None \<Rightarrow> Inr None
       | Some max_used \<Rightarrow> check_inputs_loop E time bc tx_prefix_hash ins sigs max_used)
   | MultisignatureInput a signatureCount outputIndex trm \<Rightarrow>
       if isInCheckpointZone bc (getCurrentBlockchainHeight bc) then check_inputs_loop E time bc tx_prefix_hash ins sigs max_used
       else ebind (validateInput E time bc a signatureCount outputIndex trm tx_prefix_hash sig) (\<lambda>r.
         if r then check_inputs_loop E time bc tx_prefix_hash ins sigs max_used else Inr None)
   | BaseInput _ \<Rightarrow> Inr None)"

definition Blockchain_checkTransactionInputs :: "chain_env \<Rightarrow> uint64 \<Rightarrow> 'b Blockchain \<Rightarrow> Transaction \<Rightarrow> uint32 option outcome" where
  "Blockchain_checkTransactionInputs E time bc tx =
     check_inputs_loop E time bc (snd (getObjectHash (ce_fast_hash E) out_TransactionPrefix tx)) (inputs tx) (signatures tx) 0"

definition check_tx_outputs :: "Currency \<Rightarrow> Transaction \<Rightarrow> bool" where
  "check_tx_outputs c tx = list_all (\<lambda>out. case target out of
     MultisignatureOutput _ _ trm \<Rightarrow>
       if version tx < TRANSACTION_VERSION_2 then False
       else if trm \<noteq> 0 then
         (if trm < m_depositMinTerm c \<or> m_depositMaxTerm c < trm then False
          else \<not> amount out < m_depositMinAmount c)
       else True
   | KeyOutput _ \<Rightarrow> True) (outputs tx)"

section \<open>The validator of the pool\<close>

text \<open>The overloads of \<open>checkTransactionInputs\<close> that also give the identifier of the greatest block used.\<close>

definition checkTransactionInputs_block ::
  "chain_env \<Rightarrow> uint64 \<Rightarrow> 'b Blockchain \<Rightarrow> Transaction \<Rightarrow> BlockInfo option outcome" where
  "checkTransactionInputs_block E time bc tx =
     ebind (Blockchain_checkTransactionInputs E time bc tx) (\<lambda>r. case r of
       None \<Rightarrow> Inr None
     | Some max_used \<Rightarrow>
         if \<not> unat max_used < length (m_blocks bc) then Inr None
         else Inr (Some \<lparr>bi_height = max_used, bi_id = get_block_hash_value (ce_fast_hash E) (be_bl (m_blocks bc ! unat max_used))\<rparr>))"

definition checkTransactionInputs_outputs ::
  "chain_env \<Rightarrow> uint64 \<Rightarrow> 'b Blockchain \<Rightarrow> Transaction \<Rightarrow> BlockInfo option outcome" where
  "checkTransactionInputs_outputs E time bc tx =
     ebind (checkTransactionInputs_block E time bc tx) (\<lambda>r. Inr (
       if r \<noteq> None \<and> check_tx_outputs (ce_currency E) tx then r else None))"

definition Blockchain_checkTransactionSize :: "Currency \<Rightarrow> 'b Blockchain \<Rightarrow> uint64 \<Rightarrow> bool" where
  "Blockchain_checkTransactionSize c bc blobSize \<longleftrightarrow>
     \<not> m_current_block_cumul_sz_limit bc - m_minerTxBlobReservedSize c \<le> blobSize"

end
