(* ===== verification/Blockchain.thy ===== *)
theory Blockchain
  imports ChainChecks
begin

text \<open>
  The operations of \<^verbatim>\<open>src/CryptoNoteCore/Blockchain.cpp\<close> that change the chain: adding a block with
  its transactions, removing the last block, rolling back, and rebuilding what is computed from the
  blocks. Transactions of a block are taken from the pool and go back to it. Log messages, console
  output, observers and message queues are left out, and so are locks: the operations are atomic.
\<close>

section \<open>The chain as validator of the pool\<close>

text \<open>The overload that knows what was found before; \<open>getTailId\<close> with a height asserts that there is a block. What it
  writes to its arguments goes to a copy that its caller in the pool drops.\<close>

definition checkTransactionInputs_known ::
  "chain_env \<Rightarrow> 'b hash_container \<Rightarrow> uint64 \<Rightarrow> 'b Blockchain \<Rightarrow> Transaction \<Rightarrow> BlockInfo \<Rightarrow> BlockInfo \<Rightarrow> bool outcome" where
  "checkTransactionInputs_known E C time bc tx used lastFailed =
     (let blockId = (\<lambda>n. or_error FailedAssert (getBlockId C (m_blockIndex bc) n));
          check = (if m_blocks bc = [] then Inl FailedAssert
                   else ebind (checkTransactionInputs_block E time bc tx) (\<lambda>r. Inr (r \<noteq> None)))
      in if bi_id used = NULL_HASH then
           (if bi_id lastFailed \<noteq> NULL_HASH \<and> bi_height lastFailed < getCurrentBlockchainHeight bc then
              ebind (blockId (bi_height lastFailed)) (\<lambda>h. if h = bi_id lastFailed then Inr False else check)
            else check)
         else if getCurrentBlockchainHeight bc \<le> bi_height used then Inr False
         else ebind (blockId (bi_height used)) (\<lambda>h.
           if h \<noteq> bi_id used then
             ebind (blockId (bi_height lastFailed)) (\<lambda>h. if bi_id lastFailed = h then Inr False else check)
           else Inr True))"

text \<open>The interface of the pool has no way to fail: a check that does not return counts as refused there,
  and the operations below look at the outcome of the check itself.\<close>

definition chain_validator :: "chain_env \<Rightarrow> 'b hash_container \<Rightarrow> uint64 \<Rightarrow> 'b Blockchain \<Rightarrow> ITransactionValidator" where
  "chain_validator E C time bc = \<lparr>
     checkTransactionInputs = (\<lambda>tx. case checkTransactionInputs_outputs E time bc tx of
       Inr (Some info) \<Rightarrow> (True, info) | _ \<Rightarrow> (False, BlockInfo_new)),
     checkTransactionInputs_again = (\<lambda>tx used lastFailed. checkTransactionInputs_known E C time bc tx used lastFailed = Inr True),
     haveSpentKeyImages = haveTransactionKeyImagesAsSpent bc,
     checkTransactionSize = Blockchain_checkTransactionSize (ce_currency E) bc\<rparr>"

section \<open>Transactions from and to the pool\<close>

text \<open>\<open>now\<close> is the time of the pool's time provider. A transaction that came with a block is added whether
  its inputs are valid or not; what the check raises is raised.\<close>

fun return_transactions ::
  "chain_env \<Rightarrow> 'b hash_container \<Rightarrow> 'c tx_container \<Rightarrow> uint64 \<Rightarrow> uint64 \<Rightarrow> 'b Blockchain \<Rightarrow> Transaction list \<Rightarrow> uint32 \<Rightarrow>
   tx_verification_context \<Rightarrow> 'c tx_memory_pool \<Rightarrow> 'c tx_memory_pool outcome" where
  "return_transactions E C T time now bc [] height context p = Inr p"
| "return_transactions E C T time now bc (tx # txs) height context p =
     ebind (or_error FailedAssert (add_tx_hashed (ce_fast_hash E) T (chain_validator E C time bc) (ce_currency E) time now tx context True height p))
       (\<lambda>(r, context, p). if \<not> r then Inl RuntimeError
          else ebind (checkTransactionInputs_outputs E time bc tx) (\<lambda>_. return_transactions E C T time now bc txs height context p))"

definition unset_context :: tx_verification_context where
  "unset_context = \<lparr>m_should_be_relayed = False, m_verification_failed = False, m_verification_impossible = False,
     m_added_to_pool = False, m_tx_fee_too_small = False\<rparr>"

definition saveTransactions ::
  "chain_env \<Rightarrow> 'b hash_container \<Rightarrow> 'c tx_container \<Rightarrow> uint64 \<Rightarrow> uint64 \<Rightarrow> 'b Blockchain \<Rightarrow> Transaction list \<Rightarrow> uint32 \<Rightarrow>
   'c tx_memory_pool \<Rightarrow> 'c tx_memory_pool outcome" where
  "saveTransactions E C T time now bc transactions height p =
     return_transactions E C T time now bc (rev transactions) height unset_context p"

text \<open>The loop takes the transactions one by one; \<open>taken\<close> has them, the latest first. If one is missing
  those taken are put back and the result is \<open>None\<close>.\<close>

fun load_loop ::
  "chain_env \<Rightarrow> 'b hash_container \<Rightarrow> 'c tx_container \<Rightarrow> uint64 \<Rightarrow> uint64 \<Rightarrow> 'b Blockchain \<Rightarrow> Hash list \<Rightarrow> uint32 \<Rightarrow> Transaction list \<Rightarrow>
   'c tx_memory_pool \<Rightarrow> (Transaction list option \<times> 'c tx_memory_pool) outcome" where
  "load_loop E C T time now bc [] height taken p = Inr (Some (rev taken), p)"
| "load_loop E C T time now bc (h # hs) height taken p =
     ebind (or_error FailedAssert (take_tx (ce_fast_hash E) T h p)) (\<lambda>(r, p). case r of
       None \<Rightarrow> ebind (return_transactions E C T time now bc taken height unset_context p) (\<lambda>p. Inr (None, p))
     | Some (tx, _, _) \<Rightarrow> load_loop E C T time now bc hs height (tx # taken) p)"

definition loadTransactions ::
  "chain_env \<Rightarrow> 'b hash_container \<Rightarrow> 'c tx_container \<Rightarrow> uint64 \<Rightarrow> uint64 \<Rightarrow> 'b Blockchain \<Rightarrow> Block \<Rightarrow> uint32 \<Rightarrow>
   'c tx_memory_pool \<Rightarrow> (Transaction list option \<times> 'c tx_memory_pool) outcome" where
  "loadTransactions E C T time now bc block height p = load_loop E C T time now bc (transactionHashes block) height [] p"

section \<open>Adding a block\<close>

record block_verification_context =
  bvc_added_to_main_chain :: bool
  bvc_verification_failed :: bool
  bvc_marked_as_orphaned :: bool
  bvc_already_exists :: bool
  bvc_switched_to_alt_chain :: bool

definition bvc_new :: block_verification_context where
  "bvc_new = \<lparr>bvc_added_to_main_chain = False, bvc_verification_failed = False, bvc_marked_as_orphaned = False,
     bvc_already_exists = False, bvc_switched_to_alt_chain = False\<rparr>"

definition deposit_of :: "Transaction \<Rightarrow> uint64 \<Rightarrow> uint64" where
  "deposit_of tx deposit =
     fold (\<lambda>out d. case target out of MultisignatureOutput _ _ trm \<Rightarrow> if 0 < trm then d + amount out else d | KeyOutput _ \<Rightarrow> d) (outputs tx)
       (fold (\<lambda>input d. case input of MultisignatureInput a _ _ trm \<Rightarrow> if 0 < trm then d - a else d | _ \<Rightarrow> d) (inputs tx) deposit)"

definition pushToDepositIndex :: "BlockEntry \<Rightarrow> uint64 \<Rightarrow> 'b Blockchain \<Rightarrow> 'b Blockchain outcome" where
  "pushToDepositIndex block interest bc =
     ebind (or_error FailedAssert
         (DepositIndex_pushBlock (m_depositIndex bc) (fold (\<lambda>e. deposit_of (te_tx e)) (be_transactions block) 0) interest))
       (\<lambda>d. Inr (bc\<lparr>m_depositIndex := d\<rparr>))"

definition sizes_agree :: "'b hash_container \<Rightarrow> 'b Blockchain \<Rightarrow> bool" where
  "sizes_agree C bc \<longleftrightarrow> (ucast (BlockIndex_size C (m_blockIndex bc)) :: uint64) = of_nat (length (m_blocks bc))"

definition pushBlock_entry :: "chain_env \<Rightarrow> 'b hash_container \<Rightarrow> BlockEntry \<Rightarrow> 'b Blockchain \<Rightarrow> 'b Blockchain outcome" where
  "pushBlock_entry E C block bc =
     (let blockHash = get_block_hash_value (ce_fast_hash E) (be_bl block) in
      ebind (or_error BadGet (GeneratedTransactionsIndex_add (be_bl block) (m_generatedTransactionsIndex bc))) (\<lambda>(_, g).
        let bc = bc\<lparr>m_blocks := m_blocks bc @ [block],
              m_blockIndex := fst (BlockIndex_push C (m_blockIndex bc) blockHash),
              bc_timestampIndex := snd (TimestampBlocksIndex_add (timestamp (be_bl block)) blockHash (bc_timestampIndex bc)),
              m_generatedTransactionsIndex := g\<rparr>
        in if sizes_agree C bc then Inr bc else Inl FailedAssert))"

text \<open>What the loop over the transactions keeps: those of the block so far, the index of the last one, the
  sums and the tables.\<close>

record push_state =
  ps_transactions :: "TransactionEntry list"
  ps_transactionIndex :: TransactionIndex
  ps_cumulative_size :: uint64
  ps_fee_summary :: uint64
  ps_interestSummary :: uint64
  ps_tables :: chain_tables

text \<open>On a transaction that is not valid those before it are removed again. Whether \<open>pushTransaction\<close> has
  taken the transaction is not looked at.\<close>

fun push_loop ::
  "chain_env \<Rightarrow> uint64 \<Rightarrow> 'b Blockchain \<Rightarrow> Block \<Rightarrow> Hash \<Rightarrow> Transaction list \<Rightarrow> Hash list \<Rightarrow> push_state \<Rightarrow> (bool \<times> push_state) outcome" where
  "push_loop E time bc b minerTransactionHash [] hs st = Inr (True, st)"
| "push_loop E time bc b minerTransactionHash (tx # txs) [] st = Inl OutsideVector"
| "push_loop E time bc b minerTransactionHash (tx # txs) (h # hs) st =
     (let c = ce_currency E; height = of_nat (length (m_blocks bc)) in
      ebind (or_error PartialBlob (toBinaryArray out_Transaction tx)) (\<lambda>blob.
      ebind (or_error FailedAssert (getTransactionAllInputsAmount c tx height)) (\<lambda>in_amount.
      ebind (Blockchain_checkTransactionInputs E time (bc\<lparr>m_tables := ps_tables st\<rparr>) tx) (\<lambda>inputs_ok.
        if majorVersion b = BLOCK_MAJOR_VERSION_1 \<and> TRANSACTION_VERSION_1 < version tx \<or> inputs_ok = None \<or> \<not> check_tx_outputs c tx then
          ebind (popTransactions (ce_fast_hash E) b (ps_transactions st) minerTransactionHash (ps_tables st)) (\<lambda>t. Inr (False, st\<lparr>ps_tables := t\<rparr>))
        else
          let out_amount = getOutputAmount tx;
              fee = (if in_amount < out_amount then MINIMUM_FEE else in_amount - out_amount);
              index = (ps_transactionIndex st)\<lparr>ti_transaction := ti_transaction (ps_transactionIndex st) + 1\<rparr>
          in ebind (pushTransaction (ce_fast_hash E) (ps_transactions st @ [\<lparr>te_tx = tx, m_global_output_indexes = []\<rparr>]) h index (ps_tables st)) (\<lambda>(_, es, t).
             ebind (or_error FailedAssert (calculateTotalTransactionInterest c tx height)) (\<lambda>interest.
               push_loop E time bc b minerTransactionHash txs hs
                 \<lparr>ps_transactions = es, ps_transactionIndex = index, ps_cumulative_size = ps_cumulative_size st + of_nat (length blob),
                  ps_fee_summary = ps_fee_summary st + fee, ps_interestSummary = ps_interestSummary st + interest, ps_tables = t\<rparr>))))))"

text \<open>The part of \<open>pushBlock\<close> that follows the checks of the block itself: from its difficulty \<open>d\<close> on, the
  tables are changed.\<close>

definition push_transactions ::
  "chain_env \<Rightarrow> uint64 \<Rightarrow> Block \<Rightarrow> Transaction list \<Rightarrow> 'b Blockchain \<Rightarrow> (bool \<times> push_state) outcome" where
  "push_transactions E time b txs bc =
     (let f = ce_fast_hash E; miner = snd (getObjectHash f out_Transaction (baseTransaction b));
          index = \<lparr>ti_block = of_nat (length (m_blocks bc)), ti_transaction = 0\<rparr>
      in ebind (pushTransaction f [\<lparr>te_tx = baseTransaction b, m_global_output_indexes = []\<rparr>] miner index (m_tables bc)) (\<lambda>(_, es, t).
        push_loop E time bc b miner txs (transactionHashes b)
          \<lparr>ps_transactions = es, ps_transactionIndex = index,
           ps_cumulative_size = snd (getObjectBinarySize out_Transaction (baseTransaction b)),
           ps_fee_summary = 0, ps_interestSummary = 0, ps_tables = t\<rparr>))"

definition push_entry ::
  "chain_env \<Rightarrow> 'b hash_container \<Rightarrow> BlockEntry \<Rightarrow> uint64 \<Rightarrow> 'b Blockchain \<Rightarrow> 'b Blockchain outcome" where
  "push_entry E C block interest bc =
     (let c = ce_currency E in
      ebind (pushBlock_entry E C block bc) (\<lambda>bc.
      ebind (pushToDepositIndex block interest bc) (\<lambda>bc.
      ebind (or_error FailedAssert (blockPushed c (map be_bl (m_blocks bc)) (m_upgradeDetectorV2 bc))) (\<lambda>v2.
      ebind (or_error FailedAssert (blockPushed c (map be_bl (m_blocks bc)) (m_upgradeDetectorV3 bc))) (\<lambda>v3.
        Inr (update_next_comulative_size_limit c (bc\<lparr>m_upgradeDetectorV2 := v2, m_upgradeDetectorV3 := v3\<rparr>)))))))"

definition push_validated ::
  "chain_env \<Rightarrow> 'b hash_container \<Rightarrow> uint64 \<Rightarrow> Block \<Rightarrow> Transaction list \<Rightarrow> uint64 \<Rightarrow> block_verification_context \<Rightarrow> 'b Blockchain \<Rightarrow>
   (bool \<times> block_verification_context \<times> 'b Blockchain) outcome" where
  "push_validated E C time b txs d bvc bc =
     (let c = ce_currency E; f = ce_fast_hash E; failed = bvc\<lparr>bvc_verification_failed := True\<rparr>;
          miner = snd (getObjectHash f out_Transaction (baseTransaction b));
          height = of_nat (length (m_blocks bc)) :: uint32;
          already_generated = (if m_blocks bc = [] then 0 else already_generated_coins (last (m_blocks bc)))
      in ebind (push_transactions E time b txs bc) (\<lambda>(ok, st).
        if \<not> ok then Inr (False, failed, bc\<lparr>m_tables := ps_tables st\<rparr>)
        else ebind (checkCumulativeBlockSize c (ps_cumulative_size st) (ucast height)) (\<lambda>ok.
          if \<not> ok then Inr (False, failed, bc\<lparr>m_tables := ps_tables st\<rparr>)
          else ebind (validate_miner_transaction c bc b height (ps_cumulative_size st) already_generated (ps_fee_summary st)) (\<lambda>(ok, reward, emissionChange).
            if \<not> ok then
              ebind (popTransactions f b (ps_transactions st) miner (ps_tables st)) (\<lambda>t. Inr (False, failed, bc\<lparr>m_tables := t\<rparr>))
            else
              let block = \<lparr>be_bl = b, be_height = height, block_cumulative_size = ps_cumulative_size st,
                    cumulative_difficulty = d + (if m_blocks bc = [] then 0 else cumulative_difficulty (last (m_blocks bc))),
                    already_generated_coins = already_generated + emissionChange + ps_interestSummary st,
                    be_transactions = ps_transactions st\<rparr>
              in ebind (push_entry E C block (ps_interestSummary st) (bc\<lparr>m_tables := ps_tables st\<rparr>)) (\<lambda>bc.
                Inr (True, bvc\<lparr>bvc_added_to_main_chain := True\<rparr>, bc))))))"

definition pushBlock ::
  "chain_env \<Rightarrow> 'b hash_container \<Rightarrow> uint64 \<Rightarrow> Block \<Rightarrow> Transaction list \<Rightarrow> Hash \<Rightarrow> block_verification_context \<Rightarrow> 'b Blockchain \<Rightarrow>
   (bool \<times> block_verification_context \<times> 'b Blockchain) outcome" where
  "pushBlock E C time b txs blockHash bvc bc =
     (let c = ce_currency E; failed = Inr (False, bvc\<lparr>bvc_verification_failed := True\<rparr>, bc);
          height = getCurrentBlockchainHeight bc
      in if hasBlock C (m_blockIndex bc) blockHash then failed
         else if \<not> checkBlockVersion c bc b then failed
         else if (case getBlockHeight C (m_blockIndex bc) blockHash of
             None \<Rightarrow> False
           | Some n \<Rightarrow> getMergeMiningTagFromExtra (extra (baseTransaction b)) \<noteq> None \<and> UPGRADE_HEIGHT_V3 \<le> ucast n)
         then Inr (False, bvc, bc)
         else ebind (Blockchain_getTailId C bc) (\<lambda>tail.
           if previousBlockHash b \<noteq> tail then failed
           else if \<not> check_block_timestamp_main c time bc b then failed
           else ebind (getDifficultyForNextBlock c bc) (\<lambda>currentDifficulty.
             if currentDifficulty = 0 then Inr (False, bvc, bc)
             else if isInCheckpointZone bc height \<and> \<not> check_block (m_checkpoints bc) height blockHash then failed
             else if \<not> isInCheckpointZone bc height \<and>
               \<not> checkProofOfWork (ce_fast_hash E) (ce_slow_hashes E) b currentDifficulty then failed
             else ebind (prevalidate_miner_transaction E b height) (\<lambda>ok.
               if \<not> ok then failed else push_validated E C time b txs currentDifficulty bvc bc))))"

text \<open>The other \<open>pushBlock\<close>, which takes the transactions from the pool.\<close>

definition pushBlock_pool ::
  "chain_env \<Rightarrow> 'b hash_container \<Rightarrow> 'c tx_container \<Rightarrow> uint64 \<Rightarrow> uint64 \<Rightarrow> Block \<Rightarrow> Hash \<Rightarrow> block_verification_context \<Rightarrow> uint32 \<Rightarrow>
   'b Blockchain \<Rightarrow> 'c tx_memory_pool \<Rightarrow> (bool \<times> block_verification_context \<times> 'b Blockchain \<times> 'c tx_memory_pool) outcome" where
  "pushBlock_pool E C T time now b blockHash bvc height bc p =
     ebind (loadTransactions E C T time now bc b height p) (\<lambda>(r, p). case r of
       None \<Rightarrow> Inr (False, bvc\<lparr>bvc_verification_failed := True\<rparr>, bc, p)
     | Some transactions \<Rightarrow>
         ebind (pushBlock E C time b transactions blockHash bvc bc) (\<lambda>(ok, bvc, bc).
           if \<not> ok then ebind (saveTransactions E C T time now bc transactions height p) (\<lambda>p. Inr (False, bvc, bc, p))
           else Inr (True, bvc, bc, p)))"

section \<open>Removing blocks\<close>

text \<open>A stored block has at least the miner's transaction.\<close>

definition popBlock ::
  "chain_env \<Rightarrow> 'b hash_container \<Rightarrow> 'c tx_container \<Rightarrow> uint64 \<Rightarrow> uint64 \<Rightarrow> Hash \<Rightarrow> 'b Blockchain \<Rightarrow> 'c tx_memory_pool \<Rightarrow>
   ('b Blockchain \<times> 'c tx_memory_pool) outcome" where
  "popBlock E C T time now blockHash bc p =
     (if m_blocks bc = [] then Inr (bc, p)
      else let e = last (m_blocks bc); c = ce_currency E; f = ce_fast_hash E in
        if be_transactions e = [] then Inl RuntimeError
        else
        ebind (saveTransactions E C T time now bc (map te_tx (tl (be_transactions e))) (of_nat (length (m_blocks bc))) p) (\<lambda>p.
        ebind (popTransactions f (be_bl e) (be_transactions e) (snd (getObjectHash f out_Transaction (baseTransaction (be_bl e)))) (m_tables bc)) (\<lambda>t.
        ebind (or_error BadGet (GeneratedTransactionsIndex_remove (be_bl e) (m_generatedTransactionsIndex bc))) (\<lambda>(_, g).
        ebind (or_error FailedAssert (DepositIndex_popBlock (m_depositIndex bc))) (\<lambda>d.
          let bc = bc\<lparr>m_tables := t, m_generatedTransactionsIndex := g, m_depositIndex := d,
                bc_timestampIndex := snd (TimestampBlocksIndex_remove (timestamp (be_bl e)) blockHash (bc_timestampIndex bc)),
                m_blocks := butlast (m_blocks bc), m_blockIndex := BlockIndex_pop C (m_blockIndex bc)\<rparr>
          in if \<not> sizes_agree C bc then Inl FailedAssert
             else ebind (or_error FailedAssert (blockPopped c (map be_bl (m_blocks bc)) (m_upgradeDetectorV2 bc))) (\<lambda>v2.
               ebind (or_error FailedAssert (blockPopped c (map be_bl (m_blocks bc)) (m_upgradeDetectorV3 bc))) (\<lambda>v3.
                 Inr (bc\<lparr>m_upgradeDetectorV2 := v2, m_upgradeDetectorV3 := v3\<rparr>, p))))))))"

definition removeLastBlock :: "chain_env \<Rightarrow> 'b hash_container \<Rightarrow> 'b Blockchain \<Rightarrow> (bool \<times> 'b Blockchain) outcome" where
  "removeLastBlock E C bc =
     (if m_blocks bc = [] then Inr (False, bc)
      else let e = last (m_blocks bc); f = ce_fast_hash E in
        ebind (popTransactions f (be_bl e) (be_transactions e) (snd (getObjectHash f out_Transaction (baseTransaction (be_bl e)))) (m_tables bc)) (\<lambda>t.
        ebind (or_error FailedAssert (getBlockId C (m_blockIndex bc) (be_height e))) (\<lambda>blockHash.
        ebind (or_error BadGet (GeneratedTransactionsIndex_remove (be_bl e) (m_generatedTransactionsIndex bc))) (\<lambda>(_, g).
          let bc = bc\<lparr>m_tables := t, m_generatedTransactionsIndex := g,
                bc_timestampIndex := snd (TimestampBlocksIndex_remove (timestamp (be_bl e)) blockHash (bc_timestampIndex bc)),
                m_blocks := butlast (m_blocks bc), m_blockIndex := BlockIndex_pop C (m_blockIndex bc)\<rparr>
          in if \<not> sizes_agree C bc then Inl FailedAssert else Inr (True, bc)))))"

text \<open>Each turn of the loop removes one block.\<close>

fun remove_loop :: "chain_env \<Rightarrow> 'b hash_container \<Rightarrow> nat \<Rightarrow> 'b Blockchain \<Rightarrow> 'b Blockchain outcome" where
  "remove_loop E C 0 bc = Inr bc"
| "remove_loop E C (Suc n) bc = ebind (removeLastBlock E C bc) (\<lambda>(_, bc). remove_loop E C n bc)"

definition rollbackBlockchainTo :: "chain_env \<Rightarrow> 'b hash_container \<Rightarrow> uint32 \<Rightarrow> 'b Blockchain \<Rightarrow> 'b Blockchain outcome" where
  "rollbackBlockchainTo E C height bc = remove_loop E C (length (m_blocks bc) - unat (height + 1)) bc"

text \<open>The result and the last height at which the chain has the hash of the checkpoint.\<close>

fun checkpoints_loop :: "'b hash_container \<Rightarrow> 'b Blockchain \<Rightarrow> uint32 list \<Rightarrow> uint32 \<Rightarrow> (bool \<times> uint32) outcome" where
  "checkpoints_loop C bc [] lastValid = Inr (True, lastValid)"
| "checkpoints_loop C bc (h # hs) lastValid =
     (if length (m_blocks bc) \<le> unat h then Inr (True, lastValid)
      else ebind (or_error FailedAssert (getBlockId C (m_blockIndex bc) h)) (\<lambda>blockHash.
        if check_block (m_checkpoints bc) h blockHash then checkpoints_loop C bc hs h else Inr (False, lastValid)))"

definition checkCheckpoints :: "'b hash_container \<Rightarrow> 'b Blockchain \<Rightarrow> uint32 \<Rightarrow> (bool \<times> uint32) outcome" where
  "checkCheckpoints C bc lastValid = checkpoints_loop C bc (getCheckpointHeights (m_checkpoints bc)) lastValid"

section \<open>Rebuilding\<close>

text \<open>The deposit index is extended, not cleared.\<close>

fun rebuild_loop :: "chain_env \<Rightarrow> 'b hash_container \<Rightarrow> nat \<Rightarrow> BlockEntry list \<Rightarrow> 'b Blockchain \<Rightarrow> 'b Blockchain outcome" where
  "rebuild_loop E C b [] bc = Inr bc"
| "rebuild_loop E C b (e # es) bc =
     (if 65535 < length (be_transactions e) then Inl Endless
      else ebind (rebuild_transactions (ce_fast_hash E) (of_nat b) 0 (be_transactions e) (m_tables bc)) (\<lambda>t.
        ebind (or_error FailedAssert
            (add_calls (\<lambda>x. calculateTotalTransactionInterest (ce_currency E) (te_tx x) (of_nat b)) (be_transactions e) 0)) (\<lambda>interest.
        ebind (pushToDepositIndex e interest
            (bc\<lparr>m_tables := t, m_blockIndex := fst (BlockIndex_push C (m_blockIndex bc) (get_block_hash_value (ce_fast_hash E) (be_bl e)))\<rparr>))
          (rebuild_loop E C (Suc b) es))))"

definition rebuildCache :: "chain_env \<Rightarrow> 'b hash_container \<Rightarrow> 'b Blockchain \<Rightarrow> 'b Blockchain outcome" where
  "rebuildCache E C bc = rebuild_loop E C 0 (m_blocks bc) (bc\<lparr>m_blockIndex := BlockIndex_clear C (m_blockIndex bc),
     m_tables := (m_tables bc)\<lparr>m_transactionMap := Map.empty, m_spent_keys := {}, m_outputs := Map.empty, m_multisignatureOutputs := Map.empty\<rparr>\<rparr>)"

text \<open>The part of \<open>loadBlockchainIndices\<close> that computes the indices when no file has them.\<close>

fun rebuild_indices_loop :: "chain_env \<Rightarrow> BlockEntry list \<Rightarrow> 'b Blockchain \<Rightarrow> 'b Blockchain outcome" where
  "rebuild_indices_loop E [] bc = Inr bc"
| "rebuild_indices_loop E (e # es) bc =
     ebind (or_error BadGet (GeneratedTransactionsIndex_add (be_bl e) (m_generatedTransactionsIndex bc))) (\<lambda>(_, g).
       if 65535 < length (be_transactions e) then Inl Endless
       else rebuild_indices_loop E es (bc\<lparr>m_generatedTransactionsIndex := g,
         bc_timestampIndex := snd (TimestampBlocksIndex_add (timestamp (be_bl e)) (get_block_hash_value (ce_fast_hash E) (be_bl e)) (bc_timestampIndex bc)),
         m_tables := (m_tables bc)\<lparr>ct_paymentIdIndex :=
           fold (\<lambda>x p. snd (PaymentIdIndex_add (ce_fast_hash E) (te_tx x) p)) (be_transactions e) (ct_paymentIdIndex (m_tables bc))\<rparr>\<rparr>))"

definition rebuildIndices :: "chain_env \<Rightarrow> 'b Blockchain \<Rightarrow> 'b Blockchain outcome" where
  "rebuildIndices E bc = rebuild_indices_loop E (m_blocks bc) (bc\<lparr>
     m_tables := (m_tables bc)\<lparr>ct_paymentIdIndex := PaymentIdIndex_clear (ct_paymentIdIndex (m_tables bc))\<rparr>,
     bc_timestampIndex := TimestampBlocksIndex_clear (bc_timestampIndex bc),
     m_generatedTransactionsIndex := GeneratedTransactionsIndex_clear (m_generatedTransactionsIndex bc)\<rparr>)"

end
