(* ===== verification/ChainInvariant.thy ===== *)
theory ChainInvariant
  imports Blockchain
begin

text \<open>
  What adding and removing blocks keep: the tables, the index of blocks, the deposit index and the
  indices of timestamps and numbers of transactions are those of the blocks of the chain.
\<close>

section \<open>What the checks of the inputs show\<close>

fun is_base :: "TransactionInput \<Rightarrow> bool" where
  "is_base (BaseInput _) = True"
| "is_base _ = False"

lemma validateInput_unused:
  assumes "validateInput E time bc a sc n trm ph sigs = Inr True"
  shows "unat n < length (at_amount (m_multisignatureOutputs (m_tables bc)) a) \<and>
    \<not> isUsed (at_amount (m_multisignatureOutputs (m_tables bc)) a ! unat n)"
  using assms by (auto simp: validateInput_def Let_def split: if_splits option.splits)

lemma unused_simps [simp]:
  "unused {} m" "unused (insert (a, n) R) m \<longleftrightarrow> \<not> isUsed (at_amount m a ! n) \<and> unused R m"
  by (auto simp: unused_def)

lemma check_inputs_unspent:
  assumes "check_inputs_loop E time bc ph ins sigs mx = Inr (Some mx')" "\<not> isInCheckpointZone bc (getCurrentBlockchainHeight bc)"
  shows "set (key_images ins) \<inter> m_spent_keys (m_tables bc) = {} \<and> in_range (deposit_refs ins) (m_multisignatureOutputs (m_tables bc)) \<and>
    unused (deposit_refs ins) (m_multisignatureOutputs (m_tables bc)) \<and> (\<forall>i \<in> set ins. \<not> is_base i)"
  using assms
proof (induction ins arbitrary: sigs mx)
  case (Cons i ins)
  then obtain sig rest where s: "sigs = sig # rest" by (cases sigs) auto
  show ?case
  proof (cases i)
    case (BaseInput b)
    then show ?thesis using Cons.prems by (simp add: s)
  next
    case (KeyInput a ois k)
    then obtain mx'' where "k \<notin> m_spent_keys (m_tables bc)" "check_inputs_loop E time bc ph ins rest mx'' = Inr (Some mx')"
      using Cons.prems by (auto simp: s ebind_Inr_iff have_tx_keyimg_as_spent_def split: if_splits option.splits)
    then show ?thesis using Cons.IH Cons.prems(2) KeyInput by auto
  next
    case (MultisignatureInput a sc n trm)
    then have v: "validateInput E time bc a sc n trm ph sig = Inr True" "check_inputs_loop E time bc ph ins rest mx = Inr (Some mx')"
      using Cons.prems by (auto simp: s ebind_Inr_iff split: if_splits)
    show ?thesis using Cons.IH [OF v(2) Cons.prems(2)] MultisignatureInput validateInput_unused [OF v(1)] by simp
  qed
qed simp

lemma inputs_name_something:
  assumes "ins \<noteq> []" "\<forall>i \<in> set ins. \<not> is_base i"
  shows "set (key_images ins) \<noteq> {} \<or> deposit_refs ins \<noteq> {}"
  using assms by (cases ins; cases "hd ins") auto

section \<open>Transactions of the chain\<close>

definition tx_hashes :: "(bytes \<Rightarrow> Hash) \<Rightarrow> Transaction list \<Rightarrow> Hash set" where
  "tx_hashes f txs = tx_id f ` set txs"

lemma push_effect_dom: "dom (m_transactionMap (push_effect f h ix tx c)) = insert h (dom (m_transactionMap c))"
  by (simp add: push_effect_def split: prod.splits)

lemma push_all_dom: "push_all f b t txs c = Some c' \<Longrightarrow> dom (m_transactionMap c') = dom (m_transactionMap c) \<union> tx_hashes f txs"
  by (induction txs arbitrary: t c) (auto simp: push_effect_dom tx_hashes_def split: if_splits)

lemma tables_of_dom: "tables_of f n es c = Some c' \<Longrightarrow> dom (m_transactionMap c') = dom (m_transactionMap c) \<union> tx_hashes f (chain_transactions es)"
proof (induction es arbitrary: n c)
  case (Cons e es)
  then obtain d where d: "push_all f (of_nat n) 0 (map te_tx (be_transactions e)) c = Some d" "tables_of f (Suc n) es d = Some c'"
    by (auto simp: bind_eq_Some_conv)
  show ?case using Cons.IH [OF d(2)] push_all_dom [OF d(1)] by (auto simp: tx_hashes_def)
qed (simp add: tx_hashes_def)

text \<open>The tables have exactly the transactions \<open>txs\<close>.\<close>

definition holds :: "(bytes \<Rightarrow> Hash) \<Rightarrow> Transaction list \<Rightarrow> chain_tables \<Rightarrow> bool" where
  "holds f txs c \<longleftrightarrow> dom (m_transactionMap c) = tx_hashes f txs \<and> spends (images_of txs) (deposits_of txs) chain_tables_new c"

lemma holds_tables_of: "tables_of f 0 es chain_tables_new = Some c \<Longrightarrow> holds f (chain_transactions es) c"
  using tables_of_dom tables_of_spends by (force simp: holds_def chain_tables_new_def)

lemma holds_push_all: "holds f txs c \<Longrightarrow> push_all f b t txs' c = Some c' \<Longrightarrow> holds f (txs @ txs') c'"
  using spends_append push_all_spends push_all_dom by (fastforce simp: holds_def tx_hashes_def)

lemma holds_spent:
  assumes "holds f txs c" "tx \<in> set txs"
  shows "set (key_images (inputs tx)) \<subseteq> m_spent_keys c" "deposit_refs (inputs tx) \<subseteq> used_set (m_multisignatureOutputs c)"
  using assms by (auto simp: holds_def spends_def deposit_refs_keys)

lemma fresh_transaction:
  assumes "holds f txs c" "\<And>tx'. tx' \<in> set txs \<Longrightarrow> tx_id f tx' = tx_id f tx \<Longrightarrow> tx' = tx"
    and "inputs tx \<noteq> []" "\<forall>i \<in> set (inputs tx). \<not> is_base i" "set (key_images (inputs tx)) \<inter> m_spent_keys c = {}"
    and "in_range (deposit_refs (inputs tx)) (m_multisignatureOutputs c)" "unused (deposit_refs (inputs tx)) (m_multisignatureOutputs c)"
  shows "m_transactionMap c (tx_id f tx) = None"
proof (rule ccontr)
  assume "m_transactionMap c (tx_id f tx) \<noteq> None"
  then have "tx_id f tx \<in> dom (m_transactionMap c)" by (rule domIff [THEN iffD2])
  then have "tx_id f tx \<in> tx_id f ` set txs" using assms(1) by (simp only: holds_def tx_hashes_def)
  then obtain tx' where "tx_id f tx = tx_id f tx'" "tx' \<in> set txs" by (rule imageE)
  then have "tx \<in> set txs" using assms(2) [of tx'] by simp
  note spent = holds_spent [OF assms(1) this]
  have "deposit_refs (inputs tx) \<inter> used_set (m_multisignatureOutputs c) = {}"
    using assms(7) unused_used_set [OF assms(6)] by simp
  then have "deposit_refs (inputs tx) = {}" using spent(2) by (simp add: inf.absorb1)
  moreover have "set (key_images (inputs tx)) = {}" using spent(1) assms(5) by (simp add: inf.absorb1)
  ultimately show False using inputs_name_something [OF assms(3,4)] by simp
qed

section \<open>The loop over the transactions of a block\<close>

text \<open>What \<open>core::check_tx_semantic\<close> has made sure of before a transaction gets to the pool.\<close>

definition tx_semantic :: "Transaction \<Rightarrow> bool" where
  "tx_semantic tx \<longleftrightarrow> inputs tx \<noteq> [] \<and> distinct (key_images (inputs tx)) \<and> checkMultisignatureInputsDiff tx"

definition loop_inv :: "(bytes \<Rightarrow> Hash) \<Rightarrow> 'b Blockchain \<Rightarrow> Block \<Rightarrow> Transaction list \<Rightarrow> push_state \<Rightarrow> bool" where
  "loop_inv f bc b ts st \<longleftrightarrow> map te_tx (ps_transactions st) = baseTransaction b # ts \<and>
     push_all f (of_nat (length (m_blocks bc))) 0 (baseTransaction b # ts) (m_tables bc) = Some (ps_tables st) \<and>
     ps_transactionIndex st = \<lparr>ti_block = of_nat (length (m_blocks bc)), ti_transaction = of_nat (length ts)\<rparr> \<and>
     take (length ts) (transactionHashes b) = map (tx_id f) ts \<and> (\<forall>tx \<in> set ts. \<forall>i \<in> set (inputs tx). \<not> is_base i)"

lemma pushTransaction_ok:
  assumes "push_ok h tx c" "pushTransaction f txs h ix c = Inr (r, txs', c')"
    and "unat (ti_transaction ix) < length txs" "tx = te_tx (txs ! unat (ti_transaction ix))"
  shows "r \<and> c' = push_effect f h ix tx c \<and> map te_tx txs' = map te_tx txs"
  using pushTransaction_iff [OF assms(3,4), where cn_fast_hash = f and h = h and c = c and c' = "push_effect f h ix tx c"]
    pushTransaction_txs [OF assms(2)] assms(1,2) by auto

lemma push_loop_step:
  assumes inv: "loop_inv f bc b ts st" and t: "tables_of f 0 (m_blocks bc) chain_tables_new = Some (m_tables bc)"
    and semantic: "tx_semantic tx" "Suc (length ts) < 65535"
    and checked: "Blockchain_checkTransactionInputs E time (bc\<lparr>m_tables := ps_tables st\<rparr>) tx = Inr (Some mx)"
    and zone: "\<not> isInCheckpointZone bc (getCurrentBlockchainHeight bc)"
    and inj: "inj_on (tx_id f) (set (chain_transactions (m_blocks bc) @ baseTransaction b # ts @ [tx]))"
    and h: "length ts < length (transactionHashes b)" "transactionHashes b ! length ts = tx_id f tx"
    and ix: "ix = (ps_transactionIndex st)\<lparr>ti_transaction := ti_transaction (ps_transactionIndex st) + 1\<rparr>"
    and push: "pushTransaction f (ps_transactions st @ [\<lparr>te_tx = tx, m_global_output_indexes = []\<rparr>]) (tx_id f tx) ix (ps_tables st) = Inr (r, es, c)"
  shows "loop_inv f bc b (ts @ [tx]) \<lparr>ps_transactions = es, ps_transactionIndex = ix, ps_cumulative_size = x,
    ps_fee_summary = y, ps_interestSummary = z, ps_tables = c\<rparr>"
proof -
  have inv': "map te_tx (ps_transactions st) = baseTransaction b # ts"
      "push_all f (of_nat (length (m_blocks bc))) 0 (baseTransaction b # ts) (m_tables bc) = Some (ps_tables st)"
      "ps_transactionIndex st = \<lparr>ti_block = of_nat (length (m_blocks bc)), ti_transaction = of_nat (length ts)\<rparr>"
      "take (length ts) (transactionHashes b) = map (tx_id f) ts" "\<forall>tx \<in> set ts. \<forall>i \<in> set (inputs tx). \<not> is_base i"
    using inv by (simp_all add: loop_inv_def del: push_all.simps)
  have c: "set (key_images (inputs tx)) \<inter> m_spent_keys (ps_tables st) = {}" "in_range (deposit_refs (inputs tx)) (m_multisignatureOutputs (ps_tables st))"
      "unused (deposit_refs (inputs tx)) (m_multisignatureOutputs (ps_tables st))" "\<forall>i \<in> set (inputs tx). \<not> is_base i"
    using check_inputs_unspent [OF checked [unfolded Blockchain_checkTransactionInputs_def]] zone
    by (auto simp: isInCheckpointZone_def getCurrentBlockchainHeight_def)
  have "holds f (chain_transactions (m_blocks bc) @ baseTransaction b # ts) (ps_tables st)"
    using holds_push_all [OF holds_tables_of [OF t] inv'(2)] .
  moreover have "tx' = tx" if "tx' \<in> set (chain_transactions (m_blocks bc) @ baseTransaction b # ts)" "tx_id f tx' = tx_id f tx" for tx'
    using inj_onD [OF inj that(2)] that(1) by auto
  ultimately have fresh: "m_transactionMap (ps_tables st) (tx_id f tx) = None"
    using fresh_transaction c semantic(1) unfolding tx_semantic_def by blast
  have len: "length (ps_transactions st) = Suc (length ts)" using arg_cong [OF inv'(1), where f = length] by simp
  have ix': "ix = \<lparr>ti_block = of_nat (length (m_blocks bc)), ti_transaction = of_nat (Suc (length ts))\<rparr>" by (simp add: ix inv'(3))
  have n: "unat (of_nat (Suc (length ts)) :: uint16) = Suc (length ts)" using semantic(2) by (intro unat_of_nat_small) simp
  have out: "length (outputs tx) \<le> 65535"
  proof (rule ccontr)
    assume "\<not> length (outputs tx) \<le> 65535"
    moreover have "insert_keys [] (inputs tx) (m_spent_keys (ps_tables st)) = Inr (True, m_spent_keys (ps_tables st) \<union> set (key_images (inputs tx)))"
      using semantic(1) c(1) by (simp add: insert_keys_iff tx_semantic_def)
    ultimately show False using push fresh semantic(1) n len c
      by (auto simp: pushTransaction_def ix' Let_def tx_semantic_def ebind_Inr_iff nth_append split: if_splits)
  qed
  have ok: "push_ok (tx_id f tx) tx (ps_tables st)"
    using fresh c semantic(1) out by (simp add: push_ok_def tx_semantic_def)
  have eff: "c = push_effect f (tx_id f tx) ix tx (ps_tables st)" "map te_tx es = baseTransaction b # ts @ [tx]"
    using pushTransaction_ok [OF ok push] n len inv'(1) by (auto simp: ix' nth_append)
  have "push_all f (of_nat (length (m_blocks bc))) 0 ((baseTransaction b # ts) @ [tx]) (m_tables bc) = Some c"
    using ok c(3) inv'(2) unfolding push_all_append by (simp add: eff(1) ix' del: of_nat_Suc)
  moreover have "take (Suc (length ts)) (transactionHashes b) = map (tx_id f) (ts @ [tx])"
    using inv'(4) h by (simp add: take_Suc_conv_app_nth)
  ultimately show ?thesis using eff(2) c(4) inv'(5) by (simp add: loop_inv_def ix' ball_Un del: push_all.simps)
qed

lemma push_loop_spec:
  assumes "push_loop E time bc b (tx_id f (baseTransaction b)) txs hs st = Inr (ok, st')"
    and "loop_inv f bc b ts st" "f = ce_fast_hash E" "hs = drop (length ts) (transactionHashes b)"
    and "\<not> isInCheckpointZone bc (getCurrentBlockchainHeight bc)" "tables_of f 0 (m_blocks bc) chain_tables_new = Some (m_tables bc)"
    and "length ts + length txs < 65535" "\<forall>tx \<in> set txs. tx_semantic tx" "hs = map (tx_id f) txs"
    and "inj_on (tx_id f) (set (chain_transactions (m_blocks bc) @ baseTransaction b # ts @ txs))"
  shows "if ok then loop_inv f bc b (ts @ txs) st' else ps_tables st' = m_tables bc"
  using assms
proof (induction txs arbitrary: hs ts st)
  case (Cons tx txs)
  have hs: "hs = tx_id f tx # map (tx_id f) txs" using Cons.prems(9) by simp
  have f: "ce_fast_hash E = f" using Cons.prems(3) by simp
  have drop: "drop (length ts) (transactionHashes b) = tx_id f tx # map (tx_id f) txs" using Cons.prems(4) hs by simp
  have n: "length ts < length (transactionHashes b)" "transactionHashes b ! length ts = tx_id f tx"
    using drop by (metis drop_eq_Nil leI list.distinct(1)) (metis drop hd_drop_conv_nth drop_eq_Nil leI list.distinct(1) list.sel(1))
  obtain blob in_amount mx where r: "Blockchain_checkTransactionInputs E time (bc\<lparr>m_tables := ps_tables st\<rparr>) tx = Inr mx"
    using Cons.prems(1) unfolding hs by (auto simp: Let_def ebind_Inr_iff)
  show ?case
  proof (cases "majorVersion b = BLOCK_MAJOR_VERSION_1 \<and> TRANSACTION_VERSION_1 < version tx \<or> mx = None \<or> \<not> check_tx_outputs (ce_currency E) tx")
    case True
    have "popTransactions f b (ps_transactions st) (tx_id f (baseTransaction b)) (ps_tables st) = Inr (m_tables bc)"
      using Cons.prems(2) tables_of_ok [OF Cons.prems(6) tables_ok_new]
      by (intro popTransactions_push_all [where txs = ts]) (auto simp: loop_inv_def simp del: push_all.simps)
    then show ?thesis using Cons.prems(1) True unfolding hs by (auto simp: Let_def ebind_Inr_iff r f)
  next
    case False
    then obtain m where m: "mx = Some m" by auto
    let ?ix = "(ps_transactionIndex st)\<lparr>ti_transaction := ti_transaction (ps_transactionIndex st) + 1\<rparr>"
    obtain p es c x y z where
      push: "pushTransaction f (ps_transactions st @ [\<lparr>te_tx = tx, m_global_output_indexes = []\<rparr>]) (tx_id f tx) ?ix (ps_tables st) = Inr (p, es, c)"
      and rest: "push_loop E time bc b (tx_id f (baseTransaction b)) txs (map (tx_id f) txs) \<lparr>ps_transactions = es, ps_transactionIndex = ?ix,
        ps_cumulative_size = x, ps_fee_summary = y, ps_interestSummary = z, ps_tables = c\<rparr> = Inr (ok, st')"
      using Cons.prems(1) False unfolding hs by (auto simp: Let_def ebind_Inr_iff r f)
    have inj: "inj_on (tx_id f) (set (chain_transactions (m_blocks bc) @ baseTransaction b # ts @ [tx]))"
      using Cons.prems(10) by (rule inj_on_subset) auto
    have inv: "loop_inv f bc b (ts @ [tx]) \<lparr>ps_transactions = es, ps_transactionIndex = ?ix, ps_cumulative_size = x,
        ps_fee_summary = y, ps_interestSummary = z, ps_tables = c\<rparr>"
      using push_loop_step [OF Cons.prems(2,6) _ _ r [unfolded m] Cons.prems(5) inj n refl push] Cons.prems(7,8) by simp
    have hashes: "map (tx_id f) txs = drop (length (ts @ [tx])) (transactionHashes b)"
      using drop by (metis drop_Suc length_append_singleton list.sel(3) tl_drop)
    have len: "length (ts @ [tx]) + length txs < 65535" "\<forall>tx \<in> set txs. tx_semantic tx" using Cons.prems(7,8) by simp_all
    have "inj_on (tx_id f) (set (chain_transactions (m_blocks bc) @ baseTransaction b # (ts @ [tx]) @ txs))"
      using Cons.prems(10) by (simp only: append_assoc append_Cons append_Nil)
    from Cons.IH [OF rest inv Cons.prems(3) hashes Cons.prems(5,6) len refl this]
    show ?thesis by (simp only: append_assoc append_Cons append_Nil)
  qed
qed auto

section \<open>The transactions of a block\<close>

text \<open>The stored blocks: the base input of a block names its height, and no other transaction has one.\<close>

definition blocks_ok :: "(bytes \<Rightarrow> Hash) \<Rightarrow> BlockEntry list \<Rightarrow> bool" where
  "blocks_ok f bs \<longleftrightarrow> length bs < 2 ^ 32 \<and> (\<forall>i < length bs. entry_ok f (bs ! i) \<and>
     inputs (baseTransaction (be_bl (bs ! i))) = [BaseInput (of_nat i)] \<and>
     (\<forall>e \<in> set (tl (be_transactions (bs ! i))). \<forall>x \<in> set (inputs (te_tx e)). \<not> is_base x))"

lemma entry_ok_hd: "entry_ok f e \<Longrightarrow> x \<in> set (be_transactions e) \<Longrightarrow> te_tx x = baseTransaction (be_bl e) \<or> x \<in> set (tl (be_transactions e))"
  by (cases "be_transactions e") (auto simp: entry_ok_def)

lemma base_not_in_chain:
  assumes "blocks_ok f bs" "inputs tx = [BaseInput (of_nat (length bs))]"
  shows "tx \<notin> set (chain_transactions bs)"
proof
  assume "tx \<in> set (chain_transactions bs)"
  then obtain e x where "e \<in> set bs" "x \<in> set (be_transactions e)" "tx = te_tx x" by (auto simp: chain_transactions_def)
  then obtain i where i: "i < length bs" "x \<in> set (be_transactions (bs ! i))" "tx = te_tx x" by (metis in_set_conv_nth)
  have ok: "entry_ok f (bs ! i)" "inputs (baseTransaction (be_bl (bs ! i))) = [BaseInput (of_nat i)]"
      "\<forall>e \<in> set (tl (be_transactions (bs ! i))). \<forall>x \<in> set (inputs (te_tx e)). \<not> is_base x" "length bs < 2 ^ 32"
    using assms(1) i(1) by (auto simp: blocks_ok_def)
  consider "te_tx x = baseTransaction (be_bl (bs ! i))" | "x \<in> set (tl (be_transactions (bs ! i)))"
    using entry_ok_hd [OF ok(1) i(2)] by blast
  then show False
  proof cases
    case 1
    then have "(of_nat i :: uint32) = of_nat (length bs)" using ok(2) assms(2) i(3) by simp
    then show False using of_nat_uint32_eq [of i "length bs"] i(1) ok(4) by simp
  next
    case 2
    then show False using ok(3) assms(2) i(3) by auto
  qed
qed

text \<open>What is assumed of a block that is offered: its transactions have passed the semantic checks, its
  hashes are theirs, and the hashes of the transactions concerned do not collide.\<close>

definition offered :: "(bytes \<Rightarrow> Hash) \<Rightarrow> 'b Blockchain \<Rightarrow> Block \<Rightarrow> Transaction list \<Rightarrow> bool" where
  "offered f bc b txs \<longleftrightarrow> length txs < 65535 \<and> (\<forall>tx \<in> set txs. tx_semantic tx) \<and> transactionHashes b = map (tx_id f) txs \<and>
     inj_on (tx_id f) (set (chain_transactions (m_blocks bc) @ baseTransaction b # txs))"

lemma push_transactions_spec:
  assumes push: "push_transactions E time b txs bc = Inr (ok, st)" and f: "f = ce_fast_hash E"
    and t: "tables_of f 0 (m_blocks bc) chain_tables_new = Some (m_tables bc)" and blocks: "blocks_ok f (m_blocks bc)"
    and base: "inputs (baseTransaction b) = [BaseInput (of_nat (length (m_blocks bc)))]"
    and zone: "\<not> isInCheckpointZone bc (getCurrentBlockchainHeight bc)" and offer: "offered f bc b txs"
  shows "if ok then loop_inv f bc b txs st else ps_tables st = m_tables bc"
proof -
  let ?b = "baseTransaction b" and ?ix = "\<lparr>ti_block = of_nat (length (m_blocks bc)), ti_transaction = 0\<rparr> :: TransactionIndex"
  let ?st = "\<lambda>es c. \<lparr>ps_transactions = es, ps_transactionIndex = ?ix, ps_cumulative_size = snd (getObjectBinarySize out_Transaction ?b),
    ps_fee_summary = 0, ps_interestSummary = 0, ps_tables = c\<rparr>"
  obtain r es c where p: "pushTransaction f [\<lparr>te_tx = ?b, m_global_output_indexes = []\<rparr>] (tx_id f ?b) ?ix (m_tables bc) = Inr (r, es, c)"
    and loop: "push_loop E time bc b (tx_id f ?b) txs (transactionHashes b) (?st es c) = Inr (ok, st)"
    using push by (auto simp: push_transactions_def Let_def ebind_Inr_iff f)
  have dom: "dom (m_transactionMap (m_tables bc)) = tx_id f ` set (chain_transactions (m_blocks bc))"
    using holds_tables_of [OF t] by (simp only: holds_def tx_hashes_def)
  have "tx_id f ?b \<notin> dom (m_transactionMap (m_tables bc))"
  proof
    assume "tx_id f ?b \<in> dom (m_transactionMap (m_tables bc))"
    then obtain tx where "tx_id f ?b = tx_id f tx" "tx \<in> set (chain_transactions (m_blocks bc))" unfolding dom by (rule imageE)
    moreover from this have "?b = tx" using offer by (auto simp: offered_def dest: inj_onD)
    ultimately show False using base_not_in_chain [OF blocks base] by simp
  qed
  then have fresh: "m_transactionMap (m_tables bc) (tx_id f ?b) = None" by (simp add: domIff)
  have diff: "checkMultisignatureInputsDiff ?b" by (simp add: checkMultisignatureInputsDiff_def base)
  have "length (outputs ?b) \<le> 65535"
    using p fresh diff by (auto simp: pushTransaction_def Let_def base split: if_splits)
  then have taken: "push_ok (tx_id f ?b) ?b (m_tables bc)" using fresh diff by (simp add: push_ok_def base)
  have eff: "c = push_effect f (tx_id f ?b) ?ix ?b (m_tables bc)" "map te_tx es = [?b]"
    using pushTransaction_ok [OF taken p] by auto
  have inv: "loop_inv f bc b [] (?st es c)" using taken eff by (simp add: loop_inv_def base)
  have "if ok then loop_inv f bc b ([] @ txs) st else ps_tables st = m_tables bc"
    using offer by (intro push_loop_spec [OF loop inv f _ zone t]) (simp_all add: offered_def)
  then show ?thesis by (simp only: append_Nil)
qed

section \<open>The ways of \<open>pushBlock\<close>\<close>

text \<open>The checks of a block before its transactions are looked at; \<open>d\<close> is the difficulty it is checked against.\<close>

definition block_checks :: "chain_env \<Rightarrow> 'b hash_container \<Rightarrow> uint64 \<Rightarrow> Block \<Rightarrow> Hash \<Rightarrow> 'b Blockchain \<Rightarrow> uint64 \<Rightarrow> bool" where
  "block_checks E C time b h bc d \<longleftrightarrow> (let c = ce_currency E; height = getCurrentBlockchainHeight bc in
     \<not> hasBlock C (m_blockIndex bc) h \<and> checkBlockVersion c bc b \<and> Blockchain_getTailId C bc = Inr (previousBlockHash b) \<and>
     check_block_timestamp_main c time bc b \<and> getDifficultyForNextBlock c bc = Inr d \<and> d \<noteq> 0 \<and>
     (if isInCheckpointZone bc height then check_block (m_checkpoints bc) height h
      else checkProofOfWork (ce_fast_hash E) (ce_slow_hashes E) b d) \<and>
     prevalidate_miner_transaction E b height = Inr True)"

lemma pushBlock_cases:
  assumes "pushBlock E C time b txs h bvc bc = Inr (r, bvc', bc')"
  shows "\<not> r \<and> bc' = bc \<or> (\<exists>d. block_checks E C time b h bc d \<and> push_validated E C time b txs d bvc bc = Inr (r, bvc', bc'))"
  using assms unfolding pushBlock_def block_checks_def Let_def
  by (auto simp: ebind_Inr_iff split: if_splits option.splits)

lemma prevalidated:
  assumes "prevalidate_miner_transaction E b height = Inr True"
  shows "inputs (baseTransaction b) = [BaseInput height]"
    and "unlockTime (baseTransaction b) = ucast height + m_minedMoneyUnlockWindow (ce_currency E)"
    and "check_outs_valid (ce_check_key E) (baseTransaction b) = None" "check_outs_overflow (baseTransaction b)"
  using assms
  by (auto simp: prevalidate_miner_transaction_def split: list.splits TransactionInput.splits if_splits option.splits outs_error.splits)

lemma push_validated_True:
  assumes "push_validated E C time b txs d bvc bc = Inr (True, bvc', bc')"
  obtains st reward em where "push_transactions E time b txs bc = Inr (True, st)"
    "checkCumulativeBlockSize (ce_currency E) (ps_cumulative_size st) (ucast (of_nat (length (m_blocks bc)) :: uint32)) = Inr True"
    "validate_miner_transaction (ce_currency E) bc b (of_nat (length (m_blocks bc))) (ps_cumulative_size st)
      (if m_blocks bc = [] then 0 else already_generated_coins (last (m_blocks bc))) (ps_fee_summary st) = Inr (True, reward, em)"
    "push_entry E C \<lparr>be_bl = b, be_height = of_nat (length (m_blocks bc)), block_cumulative_size = ps_cumulative_size st,
        cumulative_difficulty = d + (if m_blocks bc = [] then 0 else cumulative_difficulty (last (m_blocks bc))),
        already_generated_coins = (if m_blocks bc = [] then 0 else already_generated_coins (last (m_blocks bc))) + em + ps_interestSummary st,
        be_transactions = ps_transactions st\<rparr> (ps_interestSummary st) (bc\<lparr>m_tables := ps_tables st\<rparr>) = Inr bc'"
    "bvc' = bvc\<lparr>bvc_added_to_main_chain := True\<rparr>"
  using assms unfolding push_validated_def Let_def by (auto simp: ebind_Inr_iff split: if_splits)

lemma push_validated_False:
  assumes "push_validated E C time b txs d bvc bc = Inr (False, bvc', bc')"
  obtains (invalid) st where "push_transactions E time b txs bc = Inr (False, st)" "bc' = bc\<lparr>m_tables := ps_tables st\<rparr>"
    | (large) st where "push_transactions E time b txs bc = Inr (True, st)" "bc' = bc\<lparr>m_tables := ps_tables st\<rparr>"
      "checkCumulativeBlockSize (ce_currency E) (ps_cumulative_size st) (ucast (of_nat (length (m_blocks bc)) :: uint32)) = Inr False"
    | (reward) st t where "push_transactions E time b txs bc = Inr (True, st)" "bc' = bc\<lparr>m_tables := t\<rparr>"
      "popTransactions (ce_fast_hash E) b (ps_transactions st) (tx_id (ce_fast_hash E) (baseTransaction b)) (ps_tables st) = Inr t"
proof -
  note r = assms [unfolded push_validated_def Let_def]
  obtain ok st where p: "push_transactions E time b txs bc = Inr (ok, st)" using r unfolding ebind_Inr_iff by auto
  show thesis
  proof (cases ok)
    case False
    then show thesis using r p invalid by (simp add: eq_commute)
  next
    case True
    then obtain fits where s: "checkCumulativeBlockSize (ce_currency E) (ps_cumulative_size st) (ucast (of_nat (length (m_blocks bc)) :: uint32)) = Inr fits"
      using r p by (auto simp: ebind_Inr_iff)
    show thesis
    proof (cases fits)
      case False
      then show thesis using r p s True large by (simp add: eq_commute)
    next
      case True
      then obtain t where "bc' = bc\<lparr>m_tables := t\<rparr>"
        "popTransactions (ce_fast_hash E) b (ps_transactions st) (tx_id (ce_fast_hash E) (baseTransaction b)) (ps_tables st) = Inr t"
        using r p s \<open>ok\<close> by (auto simp: ebind_Inr_iff split: if_splits)
      then show thesis using p \<open>ok\<close> reward by simp
    qed
  qed
qed

text \<open>A block over the size limit: the transactions are valid, and the sum of the sizes is too large.\<close>

definition oversized :: "chain_env \<Rightarrow> uint64 \<Rightarrow> Block \<Rightarrow> Transaction list \<Rightarrow> 'b Blockchain \<Rightarrow> bool" where
  "oversized E time b txs bc \<longleftrightarrow> (\<exists>st. push_transactions E time b txs bc = Inr (True, st) \<and>
     checkCumulativeBlockSize (ce_currency E) (ps_cumulative_size st) (ucast (of_nat (length (m_blocks bc)) :: uint32)) = Inr False)"

lemma pushBlock_refused:
  assumes "pushBlock E C time b txs h bvc bc = Inr (False, bvc', bc')" and f: "f = ce_fast_hash E"
    and t: "tables_of f 0 (m_blocks bc) chain_tables_new = Some (m_tables bc)" and "blocks_ok f (m_blocks bc)"
    and "\<not> isInCheckpointZone bc (getCurrentBlockchainHeight bc)" "offered f bc b txs" and size: "\<not> oversized E time b txs bc"
  shows "bc' = bc"
proof (rule ccontr)
  assume "bc' \<noteq> bc"
  then obtain d where d: "block_checks E C time b h bc d" "push_validated E C time b txs d bvc bc = Inr (False, bvc', bc')"
    using pushBlock_cases [OF assms(1)] by auto
  have base: "inputs (baseTransaction b) = [BaseInput (of_nat (length (m_blocks bc)))]"
    using d(1) prevalidated(1) by (auto simp: block_checks_def Let_def getCurrentBlockchainHeight_def)
  have undone: "popTransactions f b (ps_transactions st) (tx_id f (baseTransaction b)) (ps_tables st) = Inr (m_tables bc)" if "loop_inv f bc b txs st" for st
    using that tables_of_ok [OF t tables_ok_new]
    by (intro popTransactions_push_all [where txs = txs]) (auto simp: loop_inv_def simp del: push_all.simps)
  note spec = push_transactions_spec [OF _ f t assms(4) base assms(5,6)]
  from d(2) show False
  proof (cases rule: push_validated_False)
    case (invalid st)
    then show False using spec [OF invalid(1)] \<open>bc' \<noteq> bc\<close> by simp
  next
    case (large st)
    then show False using size by (auto simp: oversized_def)
  next
    case (reward st t)
    then show False using undone spec [OF reward(1)] \<open>bc' \<noteq> bc\<close> by (simp add: f)
  qed
qed

section \<open>The invariant of the chain\<close>

abbreviation block_id :: "(bytes \<Rightarrow> Hash) \<Rightarrow> BlockEntry \<Rightarrow> Hash" where
  "block_id f e \<equiv> get_block_hash_value f (be_bl e)"

definition block_interest :: "Currency \<Rightarrow> nat \<Rightarrow> Transaction list \<Rightarrow> uint64 option" where
  "block_interest c n txs = add_calls (\<lambda>tx. calculateTotalTransactionInterest c tx (of_nat n)) txs 0"

text \<open>The deposits and the interest of every block.\<close>

definition block_deposits :: "Currency \<Rightarrow> BlockEntry list \<Rightarrow> deposit_blocks \<Rightarrow> bool" where
  "block_deposits c bs ds \<longleftrightarrow> length ds = length bs \<and> (\<forall>i < length bs.
     fst (ds ! i) = fold (\<lambda>e. deposit_of (te_tx e)) (be_transactions (bs ! i)) 0 \<and>
     block_interest c i (map te_tx (be_transactions (bs ! i))) = Some (snd (ds ! i)))"

text \<open>The index after these blocks, each of them pushed without an overflow.\<close>

fun deposit_pushes :: "deposit_blocks \<Rightarrow> DepositIndex \<Rightarrow> DepositIndex option" where
  "deposit_pushes [] d = Some d"
| "deposit_pushes ((a, i) # ds) d = Option.bind (DepositIndex_pushBlock d a i) (deposit_pushes ds)"

lemma deposit_pushes_append: "deposit_pushes (xs @ ys) d = Option.bind (deposit_pushes xs d) (deposit_pushes ys)"
  by (induction xs d rule: deposit_pushes.induct) (auto split: bind_splits)

lemma deposit_pushes_repr:
  "deposit_pushes ds d = Some d' \<Longrightarrow> deposit_repr d bl \<Longrightarrow> length bl + length ds < 2 ^ 32 \<Longrightarrow> deposit_repr d' (bl @ ds)"
proof (induction ds d arbitrary: bl rule: deposit_pushes.induct)
  case (2 a i ds d)
  then obtain e where e: "DepositIndex_pushBlock d a i = Some e" "deposit_pushes ds e = Some d'" by (auto simp: bind_eq_Some_conv)
  show ?case using "2.IH" [OF e(1) e(2) deposit_repr_push [OF "2.prems"(2) e(1)]] "2.prems"(3) by simp
qed simp

lemma deposit_pushes_pop:
  assumes "deposit_pushes (ds @ [x]) DepositIndex_new = Some d" "DepositIndex_popBlock d = Some d'" "length ds + 1 < 2 ^ 32"
  shows "deposit_pushes ds DepositIndex_new = Some d'"
proof -
  obtain e where e: "deposit_pushes ds DepositIndex_new = Some e" using assms(1) by (auto simp: deposit_pushes_append bind_eq_Some_conv)
  have "deposit_repr d (ds @ [x])" "deposit_repr e ds"
    using deposit_pushes_repr [OF assms(1) deposit_repr_new] deposit_pushes_repr [OF e deposit_repr_new] assms(3) by simp_all
  then have "e = d'" using deposit_repr_pop [of d "ds @ [x]"] assms(2) by (simp add: deposit_repr_def)
  then show ?thesis using e by simp
qed

definition detector_ok :: "Currency \<Rightarrow> nat \<Rightarrow> UpgradeDetector \<Rightarrow> bool" where
  "detector_ok c n d \<longleftrightarrow> (m_votingCompleteHeight d \<noteq> UNDEF_HEIGHT \<longrightarrow>
     upgradeHeight c (m_targetVersion d) = UNDEF_HEIGHT \<and> unat (m_votingCompleteHeight d) < n)"

definition chain_inv :: "chain_env \<Rightarrow> ('b \<Rightarrow> Hash list) \<Rightarrow> 'b Blockchain \<Rightarrow> bool" where
  "chain_inv E elems bc \<longleftrightarrow> (let f = ce_fast_hash E; c = ce_currency E; bs = m_blocks bc in
     tables_of f 0 bs chain_tables_new = Some (m_tables bc) \<and> blocks_ok f bs \<and>
     elems (m_blockIndex bc) = map (block_id f) bs \<and>
     bc_timestampIndex bc = sort_key fst (map (\<lambda>e. (timestamp (be_bl e), block_id f e)) bs) \<and>
     m_generatedTransactionsIndex bc = generated_of (map (\<lambda>e. length (transactionHashes (be_bl e)) + 1) bs) \<and>
     (\<exists>ds. deposit_pushes ds DepositIndex_new = Some (m_depositIndex bc) \<and> block_deposits c bs ds) \<and>
     detector_ok c (length bs) (m_upgradeDetectorV2 bc) \<and> detector_ok c (length bs) (m_upgradeDetectorV3 bc))"

lemma chain_inv_new: "elems index = [] \<Longrightarrow> chain_inv E elems (Blockchain_new index)"
  by (auto simp: chain_inv_def Blockchain_new_def Let_def blocks_ok_def block_deposits_def detector_ok_def UpgradeDetector_new_def
      generated_of_def GeneratedTransactionsIndex_new_def intro!: exI [of _ "[]"])

lemma blockPushed_ok:
  assumes "blockPushed c bs d = Some d'" "length bs = Suc n" "Suc n < 2 ^ 32" "detector_ok c n d"
  shows "detector_ok c (Suc n) d' \<and> (d' = d \<or> m_votingCompleteHeight d = UNDEF_HEIGHT \<and> d' = d\<lparr>m_votingCompleteHeight := of_nat n\<rparr>)"
proof -
  have n: "unat (of_nat n :: uint32) = n" using assms(3) by (simp add: unat_of_nat_small)
  show ?thesis
    using assms(1,2,4) n
    by (auto simp: blockPushed_def detector_ok_def Let_def isVotingComplete_def split: if_splits)
qed

lemma blockPopped_undo:
  assumes "detector_ok c n d" "length bs = n" "Suc n < 2 ^ 32"
    and "d' = d \<or> m_votingCompleteHeight d = UNDEF_HEIGHT \<and> upgradeHeight c (m_targetVersion d) = UNDEF_HEIGHT \<and> d' = d\<lparr>m_votingCompleteHeight := of_nat n\<rparr>"
  shows "blockPopped c bs d' = Some d"
proof -
  have n: "unat (of_nat n :: uint32) = n" using assms(3) by (simp add: unat_of_nat_small)
  then show ?thesis using assms by (auto simp: blockPopped_def detector_ok_def)
qed

lemma blockPopped_ok:
  assumes "blockPopped c bs d = Some d'" "length bs = n" "detector_ok c (Suc n) d"
  shows "detector_ok c n d'"
  using assms by (auto simp: blockPopped_def detector_ok_def less_Suc_eq split: if_splits)

lemma add_calls_map: "add_calls g (map h xs) s = add_calls (\<lambda>x. g (h x)) xs s"
  by (induction xs arbitrary: s) (auto split: option.splits)

lemma push_loop_interest:
  "push_loop E time bc b m txs hs st = Inr (True, st') \<Longrightarrow>
   add_calls (\<lambda>tx. calculateTotalTransactionInterest (ce_currency E) tx (of_nat (length (m_blocks bc)))) txs (ps_interestSummary st) = Some (ps_interestSummary st')"
proof (induction txs arbitrary: hs st)
  case (Cons tx txs)
  then obtain h hs' where hs: "hs = h # hs'" by (cases hs) auto
  obtain es ix x y i c where i: "calculateTotalTransactionInterest (ce_currency E) tx (of_nat (length (m_blocks bc))) = Some i"
    and rest: "push_loop E time bc b m txs hs' \<lparr>ps_transactions = es, ps_transactionIndex = ix, ps_cumulative_size = x,
      ps_fee_summary = y, ps_interestSummary = ps_interestSummary st + i, ps_tables = c\<rparr> = Inr (True, st')"
    using Cons.prems unfolding hs by (auto simp: Let_def ebind_Inr_iff split: if_splits)
  show ?case using Cons.IH [OF rest] i by simp
qed simp

lemma push_transactions_interest:
  assumes "push_transactions E time b txs bc = Inr (True, st)" "inputs (baseTransaction b) = [BaseInput n]"
  shows "block_interest (ce_currency E) (length (m_blocks bc)) (baseTransaction b # txs) = Some (ps_interestSummary st)"
proof -
  have "add_calls (\<lambda>tx. calculateTotalTransactionInterest (ce_currency E) tx (of_nat (length (m_blocks bc)))) txs 0 = Some (ps_interestSummary st)"
    using assms(1) push_loop_interest by (fastforce simp: push_transactions_def Let_def ebind_Inr_iff)
  moreover have "calculateTotalTransactionInterest (ce_currency E) (baseTransaction b) h = Some 0" for h
    by (simp add: calculateTotalTransactionInterest_def assms(2) input_interest_def)
  ultimately show ?thesis by (simp add: block_interest_def)
qed

section \<open>Adding a block keeps the invariant\<close>

lemma push_entry_fields:
  assumes "push_entry E C e i bc = Inr bc'"
  obtains x g d v2 v3 where "GeneratedTransactionsIndex_add (be_bl e) (m_generatedTransactionsIndex bc) = Some (x, g)"
    "DepositIndex_pushBlock (m_depositIndex bc) (fold (\<lambda>e. deposit_of (te_tx e)) (be_transactions e) 0) i = Some d"
    "blockPushed (ce_currency E) (map be_bl (m_blocks bc @ [e])) (m_upgradeDetectorV2 bc) = Some v2"
    "blockPushed (ce_currency E) (map be_bl (m_blocks bc @ [e])) (m_upgradeDetectorV3 bc) = Some v3"
    "bc' = update_next_comulative_size_limit (ce_currency E) (bc\<lparr>m_blocks := m_blocks bc @ [e],
      m_blockIndex := fst (BlockIndex_push C (m_blockIndex bc) (block_id (ce_fast_hash E) e)),
      bc_timestampIndex := snd (TimestampBlocksIndex_add (timestamp (be_bl e)) (block_id (ce_fast_hash E) e) (bc_timestampIndex bc)),
      m_generatedTransactionsIndex := g, m_depositIndex := d, m_upgradeDetectorV2 := v2, m_upgradeDetectorV3 := v3\<rparr>)"
    "sizes_agree C (bc\<lparr>m_blocks := m_blocks bc @ [e], m_blockIndex := fst (BlockIndex_push C (m_blockIndex bc) (block_id (ce_fast_hash E) e))\<rparr>)"
  using assms unfolding push_entry_def pushBlock_entry_def pushToDepositIndex_def Let_def
  by (auto simp: ebind_Inr_iff sizes_agree_def split: if_splits)

lemma limit_fields [simp]:
  "m_blocks (update_next_comulative_size_limit c bc) = m_blocks bc"
  "m_blockIndex (update_next_comulative_size_limit c bc) = m_blockIndex bc"
  "m_tables (update_next_comulative_size_limit c bc) = m_tables bc"
  "m_depositIndex (update_next_comulative_size_limit c bc) = m_depositIndex bc"
  "m_upgradeDetectorV2 (update_next_comulative_size_limit c bc) = m_upgradeDetectorV2 bc"
  "m_upgradeDetectorV3 (update_next_comulative_size_limit c bc) = m_upgradeDetectorV3 bc"
  "bc_timestampIndex (update_next_comulative_size_limit c bc) = bc_timestampIndex bc"
  "m_generatedTransactionsIndex (update_next_comulative_size_limit c bc) = m_generatedTransactionsIndex bc"
  "m_checkpoints (update_next_comulative_size_limit c bc) = m_checkpoints bc"
  "m_alternative_chains (update_next_comulative_size_limit c bc) = m_alternative_chains bc"
  "m_orthanBlocksIndex (update_next_comulative_size_limit c bc) = m_orthanBlocksIndex bc"
  by (simp_all add: update_next_comulative_size_limit_def Let_def)

lemma blocks_ok_snoc:
  "blocks_ok f (bs @ [e]) \<longleftrightarrow> Suc (length bs) < 2 ^ 32 \<and> blocks_ok f bs \<and> entry_ok f e \<and>
     inputs (baseTransaction (be_bl e)) = [BaseInput (of_nat (length bs))] \<and>
     (\<forall>x \<in> set (tl (be_transactions e)). \<forall>i \<in> set (inputs (te_tx x)). \<not> is_base i)"
  by (auto simp: blocks_ok_def nth_append less_Suc_eq)

lemma block_deposits_snoc:
  "block_deposits c (bs @ [e]) (ds @ [d]) \<longleftrightarrow> block_deposits c bs ds \<and>
     fst d = fold (\<lambda>e. deposit_of (te_tx e)) (be_transactions e) 0 \<and>
     block_interest c (length bs) (map te_tx (be_transactions e)) = Some (snd d)"
  by (auto simp: block_deposits_def nth_append less_Suc_eq)

lemma timestamps_snoc: "snd (TimestampBlocksIndex_add k h (sort_key fst xs)) = sort_key fst (xs @ [(k, h)])"
  using put_sort_key [of k xs h] by (simp add: TimestampBlocksIndex_add_def)

text \<open>What a block that was added looks like.\<close>

definition accepted_entry :: "(bytes \<Rightarrow> Hash) \<Rightarrow> nat \<Rightarrow> Block \<Rightarrow> Transaction list \<Rightarrow> BlockEntry \<Rightarrow> bool" where
  "accepted_entry f n b txs e \<longleftrightarrow> be_bl e = b \<and> be_height e = of_nat n \<and> map te_tx (be_transactions e) = baseTransaction b # txs"

context unique_sequence
begin

lemma pushed_elems: "\<not> hasBlock C ix h \<Longrightarrow> elems (fst (BlockIndex_push C ix h)) = elems ix @ [h]"
  using push_new [of h ix] find_eq [of ix h] by (fastforce simp: hasBlock_def BlockIndex_push_def in_set_conv_nth)

lemma push_entry_inv:
  assumes inv: "chain_inv E elems bc" and push: "push_entry E C e i (bc\<lparr>m_tables := t\<rparr>) = Inr bc'"
    and e: "entry_ok f e" "inputs (baseTransaction (be_bl e)) = [BaseInput (of_nat (length (m_blocks bc)))]"
      "\<forall>x \<in> set (tl (be_transactions e)). \<forall>i \<in> set (inputs (te_tx x)). \<not> is_base i"
    and t: "push_all f (of_nat (length (m_blocks bc))) 0 (map te_tx (be_transactions e)) (m_tables bc) = Some t"
    and i: "block_interest (ce_currency E) (length (m_blocks bc)) (map te_tx (be_transactions e)) = Some i"
    and new: "\<not> hasBlock C (m_blockIndex bc) (block_id f e)" and len: "Suc (length (m_blocks bc)) < 2 ^ 32" and f: "f = ce_fast_hash E"
  shows "chain_inv E elems bc'"
proof -
  let ?c = "ce_currency E" and ?bs = "m_blocks bc"
  note I = inv [unfolded chain_inv_def Let_def, folded f]
  obtain ds where ds: "deposit_pushes ds DepositIndex_new = Some (m_depositIndex bc)" "block_deposits ?c ?bs ds" using I by blast
  let ?bc = "bc\<lparr>m_tables := t\<rparr>"
  from push_entry_fields [OF push, folded f] obtain x g d v2 v3 where
    p: "GeneratedTransactionsIndex_add (be_bl e) (m_generatedTransactionsIndex ?bc) = Some (x, g)"
    "DepositIndex_pushBlock (m_depositIndex ?bc) (fold (\<lambda>e. deposit_of (te_tx e)) (be_transactions e) 0) i = Some d"
    "blockPushed ?c (map be_bl (m_blocks ?bc @ [e])) (m_upgradeDetectorV2 ?bc) = Some v2"
    "blockPushed ?c (map be_bl (m_blocks ?bc @ [e])) (m_upgradeDetectorV3 ?bc) = Some v3"
    "bc' = update_next_comulative_size_limit ?c (?bc\<lparr>m_blocks := m_blocks ?bc @ [e],
      m_blockIndex := fst (BlockIndex_push C (m_blockIndex ?bc) (block_id f e)),
      bc_timestampIndex := snd (TimestampBlocksIndex_add (timestamp (be_bl e)) (block_id f e) (bc_timestampIndex ?bc)),
      m_generatedTransactionsIndex := g, m_depositIndex := d, m_upgradeDetectorV2 := v2, m_upgradeDetectorV3 := v3\<rparr>)"
    by metis
  have "tables_of f 0 (?bs @ [e]) chain_tables_new = Some t" using I t by (simp add: tables_of_append)
  moreover have "blocks_ok f (?bs @ [e])" using I e len by (simp add: blocks_ok_snoc)
  moreover have "elems (fst (BlockIndex_push C (m_blockIndex bc) (block_id f e))) = map (block_id f) (?bs @ [e])"
    using pushed_elems [OF new] I by simp
  moreover have "snd (TimestampBlocksIndex_add (timestamp (be_bl e)) (block_id f e) (bc_timestampIndex bc)) =
      sort_key fst (map (\<lambda>e. (timestamp (be_bl e), block_id f e)) (?bs @ [e]))"
    using I by (simp add: timestamps_snoc)
  moreover have "g = generated_of (map (\<lambda>e. length (transactionHashes (be_bl e)) + 1) (?bs @ [e]))"
  proof -
    have "unat (of_nat (length ?bs) :: uint32) = length ?bs" using len by (simp add: unat_of_nat_small)
    moreover have "base_block_index (be_bl e) = Some (of_nat (length ?bs))" by (simp add: base_block_index_def e(2))
    ultimately show ?thesis
      using generated_add [of "be_bl e" "of_nat (length ?bs)" "map (\<lambda>e. length (transactionHashes (be_bl e)) + 1) ?bs"] p(1) I len by simp
  qed
  moreover have "deposit_pushes (ds @ [(fold (\<lambda>e. deposit_of (te_tx e)) (be_transactions e) 0, i)]) DepositIndex_new = Some d"
    using ds(1) p(2) by (simp add: deposit_pushes_append)
  moreover have "block_deposits ?c (?bs @ [e]) (ds @ [(fold (\<lambda>e. deposit_of (te_tx e)) (be_transactions e) 0, i)])"
    using ds(2) i by (simp add: block_deposits_snoc)
  moreover have "detector_ok ?c (Suc (length ?bs)) v2" "detector_ok ?c (Suc (length ?bs)) v3"
    using blockPushed_ok [OF p(3) _ len] blockPushed_ok [OF p(4) _ len] I by simp_all
  ultimately show ?thesis unfolding chain_inv_def Let_def p(5) f [symmetric] by (simp del: map_append) blast
qed

lemma pushBlock_inv:
  assumes inv: "chain_inv E elems bc" and push: "pushBlock E C time b txs h bvc bc = Inr (True, bvc', bc')"
    and zone: "\<not> isInCheckpointZone bc (getCurrentBlockchainHeight bc)" and offer: "offered f bc b txs" and f: "f = ce_fast_hash E"
    and h: "h = get_block_hash_value f b" and len: "Suc (length (m_blocks bc)) < 2 ^ 32"
  shows "chain_inv E elems bc' \<and> (\<exists>e. m_blocks bc' = m_blocks bc @ [e] \<and> accepted_entry f (length (m_blocks bc)) b txs e)"
proof -
  obtain d where d: "block_checks E C time b h bc d" "push_validated E C time b txs d bvc bc = Inr (True, bvc', bc')"
    using pushBlock_cases [OF push] by auto
  have base: "inputs (baseTransaction b) = [BaseInput (of_nat (length (m_blocks bc)))]"
    using d(1) prevalidated(1) by (auto simp: block_checks_def Let_def getCurrentBlockchainHeight_def)
  note I = inv [unfolded chain_inv_def Let_def, folded f]
  from d(2) obtain st reward em e where st: "push_transactions E time b txs bc = Inr (True, st)"
    and e: "e = \<lparr>be_bl = b, be_height = of_nat (length (m_blocks bc)), block_cumulative_size = ps_cumulative_size st,
        cumulative_difficulty = d + (if m_blocks bc = [] then 0 else cumulative_difficulty (last (m_blocks bc))),
        already_generated_coins = (if m_blocks bc = [] then 0 else already_generated_coins (last (m_blocks bc))) + em + ps_interestSummary st,
        be_transactions = ps_transactions st\<rparr>"
    and entry: "push_entry E C e (ps_interestSummary st) (bc\<lparr>m_tables := ps_tables st\<rparr>) = Inr bc'"
    by (elim push_validated_True) simp
  have L: "loop_inv f bc b txs st" using push_transactions_spec [OF st f _ _ base zone offer] I by simp
  then have txs: "map te_tx (be_transactions e) = baseTransaction b # txs" by (simp add: loop_inv_def e)
  then have len': "length (be_transactions e) = Suc (length txs)" by (metis length_Cons length_map)
  have ok: "entry_ok f e" using txs len' offer by (auto simp: entry_ok_def e offered_def)
  have tl: "map te_tx (tl (be_transactions e)) = txs" using txs by (simp add: map_tl)
  have "\<forall>x \<in> set (tl (be_transactions e)). \<forall>i \<in> set (inputs (te_tx x)). \<not> is_base i"
    using L unfolding loop_inv_def tl [symmetric] by auto
  moreover have "push_all f (of_nat (length (m_blocks bc))) 0 (map te_tx (be_transactions e)) (m_tables bc) = Some (ps_tables st)"
    using L txs by (simp add: loop_inv_def del: push_all.simps)
  moreover have "\<not> hasBlock C (m_blockIndex bc) (block_id f e)" using d(1) by (simp add: block_checks_def Let_def h e)
  ultimately have "chain_inv E elems bc'"
    using push_transactions_interest [OF st base] unfolding txs [symmetric] by (intro push_entry_inv [OF inv entry ok _ _ _ _ _ len f]) (simp_all add: e base)
  moreover have "m_blocks bc' = m_blocks bc @ [e]" using entry by (elim push_entry_fields) simp
  moreover have "accepted_entry f (length (m_blocks bc)) b txs e" using txs by (simp add: accepted_entry_def e)
  ultimately show ?thesis by blast
qed

end

section \<open>Removing a block keeps the invariant\<close>

lemma popBlock_fields:
  assumes "popBlock E C T time now h bc p = Inr (bc', p')" "m_blocks bc = bs @ [e]"
  obtains t x g d v2 v3 where
    "popTransactions (ce_fast_hash E) (be_bl e) (be_transactions e) (tx_id (ce_fast_hash E) (baseTransaction (be_bl e))) (m_tables bc) = Inr t"
    "GeneratedTransactionsIndex_remove (be_bl e) (m_generatedTransactionsIndex bc) = Some (x, g)"
    "DepositIndex_popBlock (m_depositIndex bc) = Some d"
    "blockPopped (ce_currency E) (map be_bl bs) (m_upgradeDetectorV2 bc) = Some v2"
    "blockPopped (ce_currency E) (map be_bl bs) (m_upgradeDetectorV3 bc) = Some v3"
    "bc' = bc\<lparr>m_tables := t, m_generatedTransactionsIndex := g, m_depositIndex := d,
       bc_timestampIndex := snd (TimestampBlocksIndex_remove (timestamp (be_bl e)) h (bc_timestampIndex bc)),
       m_blocks := bs, m_blockIndex := BlockIndex_pop C (m_blockIndex bc), m_upgradeDetectorV2 := v2, m_upgradeDetectorV3 := v3\<rparr>"
  using assms unfolding popBlock_def Let_def
  by (auto simp: ebind_Inr_iff split: if_splits)

lemma timestamps_remove:
  fixes k :: uint64
  assumes "(k, h) \<notin> set xs"
  shows "snd (TimestampBlocksIndex_remove k h (sort_key fst (xs @ [(k, h)]))) = sort_key fst xs"
proof -
  let ?m = "sort_key fst xs"
  have "(k, h) \<notin> set (takeWhile (\<lambda>p. fst p \<le> k) ?m)" using assms by (auto dest: set_takeWhileD)
  then have "remove1 (k, h) (takeWhile (\<lambda>p. fst p \<le> k) ?m @ (k, h) # dropWhile (\<lambda>p. fst p \<le> k) ?m) = ?m"
    by (simp add: remove1_append)
  then show ?thesis by (simp add: TimestampBlocksIndex_remove_def put_sort_key [symmetric])
qed

lemma tables_pop:
  assumes "tables_of f 0 (bs @ [e]) chain_tables_new = Some c" "entry_ok f e"
  obtains d where "tables_of f 0 bs chain_tables_new = Some d"
    "popTransactions f (be_bl e) (be_transactions e) (tx_id f (baseTransaction (be_bl e))) c = Inr d"
proof -
  obtain d where d: "tables_of f 0 bs chain_tables_new = Some d"
      "push_all f (of_nat (length bs)) 0 (map te_tx (be_transactions e)) d = Some c"
    using assms(1) by (auto simp: tables_of_append bind_eq_Some_conv)
  obtain txs where txs: "map te_tx (be_transactions e) = baseTransaction (be_bl e) # txs" "transactionHashes (be_bl e) = map (tx_id f) txs"
    using assms(2) by (auto simp: entry_ok_def)
  have "popTransactions f (be_bl e) (be_transactions e) (tx_id f (baseTransaction (be_bl e))) c = Inr d"
    using txs(2) by (intro popTransactions_push_all [OF txs(1) _ d(2) tables_of_ok [OF d(1) tables_ok_new]]) simp
  with d(1) show thesis by (rule that)
qed

context unique_sequence
begin

lemma popped_inv:
  assumes inv: "chain_inv E elems bc" and bs: "m_blocks bc = bs @ [e]" and f: "f = ce_fast_hash E"
    and t: "popTransactions f (be_bl e) (be_transactions e) (tx_id f (baseTransaction (be_bl e))) (m_tables bc) = Inr t"
    and g: "GeneratedTransactionsIndex_remove (be_bl e) (m_generatedTransactionsIndex bc) = Some (x, g)"
  shows "tables_of f 0 bs chain_tables_new = Some t" "blocks_ok f bs" "elems (BlockIndex_pop C (m_blockIndex bc)) = map (block_id f) bs"
    and "snd (TimestampBlocksIndex_remove (timestamp (be_bl e)) (block_id f e) (bc_timestampIndex bc)) = sort_key fst (map (\<lambda>e. (timestamp (be_bl e), block_id f e)) bs)"
    and "g = generated_of (map (\<lambda>e. length (transactionHashes (be_bl e)) + 1) bs)"
proof -
  note I = inv [unfolded chain_inv_def Let_def, folded f]
  have ok: "blocks_ok f bs" "entry_ok f e" "inputs (baseTransaction (be_bl e)) = [BaseInput (of_nat (length bs))]" "Suc (length bs) < 2 ^ 32"
    using I by (auto simp: bs blocks_ok_snoc)
  show "blocks_ok f bs" by (rule ok(1))
  have "tables_of f 0 (bs @ [e]) chain_tables_new = Some (m_tables bc)" using I by (simp add: bs)
  then show "tables_of f 0 bs chain_tables_new = Some t" using ok(2) t by (elim tables_pop) simp_all
  have el: "elems (m_blockIndex bc) = map (block_id f) bs @ [block_id f e]" using I by (simp add: bs)
  then show "elems (BlockIndex_pop C (m_blockIndex bc)) = map (block_id f) bs"
    by (simp add: BlockIndex_pop_def pop_elems)
  have "block_id f e \<notin> set (map (block_id f) bs)" using elems_distinct [of "m_blockIndex bc"] unfolding el by simp
  then have "(timestamp (be_bl e), block_id f e) \<notin> set (map (\<lambda>e. (timestamp (be_bl e), block_id f e)) bs)" by auto
  then show "snd (TimestampBlocksIndex_remove (timestamp (be_bl e)) (block_id f e) (bc_timestampIndex bc)) =
      sort_key fst (map (\<lambda>e. (timestamp (be_bl e), block_id f e)) bs)"
    using timestamps_remove I by (simp add: bs)
  have "unat (of_nat (length bs) :: uint32) = length bs" using ok(4) by (simp add: unat_of_nat_small)
  moreover have "base_block_index (be_bl e) = Some (of_nat (length bs))" by (simp add: base_block_index_def ok(3))
  ultimately show "g = generated_of (map (\<lambda>e. length (transactionHashes (be_bl e)) + 1) bs)"
    using generated_remove [of "be_bl e" "of_nat (length bs)" "map (\<lambda>e. length (transactionHashes (be_bl e)) + 1) (bs @ [e])"] g I ok(4)
    by (simp add: bs)
qed

lemma popBlock_inv:
  assumes inv: "chain_inv E elems bc" and pop: "popBlock E C T time now h bc p = Inr (bc', p')" and bs: "m_blocks bc = bs @ [e]"
    and h: "h = block_id f e" and f: "f = ce_fast_hash E"
  shows "chain_inv E elems bc' \<and> m_blocks bc' = bs"
proof -
  let ?c = "ce_currency E"
  note I = inv [unfolded chain_inv_def Let_def, folded f]
  from popBlock_fields [OF pop bs, folded f] obtain t x g d v2 v3 where
    p: "popTransactions f (be_bl e) (be_transactions e) (tx_id f (baseTransaction (be_bl e))) (m_tables bc) = Inr t"
    "GeneratedTransactionsIndex_remove (be_bl e) (m_generatedTransactionsIndex bc) = Some (x, g)"
    "DepositIndex_popBlock (m_depositIndex bc) = Some d"
    "blockPopped ?c (map be_bl bs) (m_upgradeDetectorV2 bc) = Some v2"
    "blockPopped ?c (map be_bl bs) (m_upgradeDetectorV3 bc) = Some v3"
    and bc': "bc' = bc\<lparr>m_tables := t, m_generatedTransactionsIndex := g, m_depositIndex := d,
       bc_timestampIndex := snd (TimestampBlocksIndex_remove (timestamp (be_bl e)) h (bc_timestampIndex bc)),
       m_blocks := bs, m_blockIndex := BlockIndex_pop C (m_blockIndex bc), m_upgradeDetectorV2 := v2, m_upgradeDetectorV3 := v3\<rparr>"
    by metis
  obtain ds where ds: "deposit_pushes ds DepositIndex_new = Some (m_depositIndex bc)" "block_deposits ?c (bs @ [e]) ds" using I unfolding bs by blast
  then obtain ds' y where y: "ds = ds' @ [y]" by (cases ds rule: rev_exhaust) (auto simp: block_deposits_def)
  have "Suc (length bs) < 2 ^ 32" using I by (simp add: bs blocks_ok_snoc)
  then have "deposit_pushes ds' DepositIndex_new = Some d"
    using deposit_pushes_pop [OF ds(1) [unfolded y] p(3)] ds(2) by (simp add: block_deposits_def y)
  moreover have "block_deposits ?c bs ds'" using ds(2) by (simp add: y block_deposits_snoc)
  moreover have "detector_ok ?c (length bs) v2" "detector_ok ?c (length bs) v3"
    using blockPopped_ok [OF p(4)] blockPopped_ok [OF p(5)] I by (simp_all add: bs)
  ultimately show ?thesis
    using popped_inv [OF inv bs f p(1,2)] unfolding chain_inv_def Let_def bc' f [symmetric] by (simp add: h) blast
qed

end

end
