(* ===== verification/PoolProperties.thy ===== *)
theory PoolProperties
  imports TransactionPool "HOL-Library.Product_Lexorder"
begin

text \<open>
  What the transaction pool of \<^verbatim>\<open>TransactionPool\<close> guarantees: the order of its fee index, a concrete
  container that meets the contract \<open>tx_multi_index\<close>, the states a pool reaches (\<open>pool_run\<close>), and the
  properties of adding, expiring and choosing transactions for a block.
\<close>

section \<open>The order of the fee index\<close>

text \<open>\<open>TransactionPriorityComparator\<close> compares fees per byte, then sizes, then ages.\<close>

definition priority :: "TransactionDetails \<Rightarrow> rat \<times> nat \<times> int" where
  "priority t = (- (of_nat (unat (td_fee t)) / of_nat (unat (td_blobSize t))), unat (td_blobSize t), sint (td_receiveTime t))"

lemma mul128_less:
  "(snd (mul128 a b) > snd (mul128 c d) \<or> snd (mul128 a b) = snd (mul128 c d) \<and> fst (mul128 a b) > fst (mul128 c d)) \<longleftrightarrow>
     unat c * unat d < unat a * unat b"
proof -
  let ?B = "18446744073709551616 :: nat"
  have lt: "x * ?B + y < u * ?B + v \<longleftrightarrow> x < u \<or> x = u \<and> y < v" if "y < ?B" "v < ?B" for x y u v :: nat
  proof -
    have "x * ?B + y < u * ?B + v" if "x < u"
    proof -
      have "(x + 1) * ?B \<le> u * ?B" using that by (intro mult_right_mono) auto
      then show ?thesis using \<open>y < ?B\<close> by simp
    qed
    moreover have "u * ?B + v < x * ?B + y" if "u < x"
    proof -
      have "(u + 1) * ?B \<le> x * ?B" using that by (intro mult_right_mono) auto
      then show ?thesis using \<open>v < ?B\<close> by simp
    qed
    ultimately show ?thesis by (cases x u rule: linorder_cases) (auto dest: less_asym)
  qed
  have b: "unat (w :: uint64) < ?B" for w by (rule unat_bound64)
  show ?thesis
    unfolding mul128_exact [symmetric, of a b] mul128_exact [symmetric, of c d] lt [OF b b] word_less_nat_alt word_unat_eq_iff by auto
qed

lemma mul128_eq:
  "snd (mul128 a b) = snd (mul128 c d) \<and> fst (mul128 a b) = fst (mul128 c d) \<longleftrightarrow> unat a * unat b = unat c * unat d"
proof
  show "unat a * unat b = unat c * unat d" if "snd (mul128 a b) = snd (mul128 c d) \<and> fst (mul128 a b) = fst (mul128 c d)"
    using that mul128_exact [of a b] mul128_exact [of c d] by simp
next
  assume "unat a * unat b = unat c * unat d"
  then have "\<not> unat a * unat b < unat c * unat d" "\<not> unat c * unat d < unat a * unat b" by simp_all
  note this [folded mul128_less]
  then show "snd (mul128 a b) = snd (mul128 c d) \<and> fst (mul128 a b) = fst (mul128 c d)"
    using linorder_less_linear [of "snd (mul128 a b)" "snd (mul128 c d)"] linorder_less_linear [of "fst (mul128 a b)" "fst (mul128 c d)"]
    by metis
qed

lemma priority_order:
  assumes "0 < td_blobSize x" "0 < td_blobSize y"
  shows "TransactionPriorityComparator x y \<longleftrightarrow> priority x < priority y"
proof -
  let ?fx = "unat (td_fee x)" and ?fy = "unat (td_fee y)" and ?sx = "unat (td_blobSize x)" and ?sy = "unat (td_blobSize y)"
  have pos: "0 < ?sx" "0 < ?sy" using assms by (simp_all add: unat_gt_0 word_gt_0)
  have frac: "of_nat fy / of_nat sy < (of_nat fx / of_nat sx :: rat) \<longleftrightarrow> fy * sx < fx * sy"
    "of_nat fx / of_nat sx = (of_nat fy / of_nat sy :: rat) \<longleftrightarrow> fx * sy = fy * sx"
    if "0 < sx" "0 < sy" for fx fy sx sy :: nat
    using that by (simp_all add: divide_less_eq less_divide_eq frac_eq_eq field_simps flip: of_nat_mult)
  have group: "(A \<or> B \<and> C \<or> B \<and> D \<and> E \<or> B \<and> D \<and> F \<and> G) = ((A \<or> B \<and> C) \<or> (B \<and> D) \<and> (E \<or> F \<and> G))" for A B C D E F G
    by blast
  have "TransactionPriorityComparator x y \<longleftrightarrow>
      ?fy * ?sx < ?fx * ?sy \<or> ?fx * ?sy = ?fy * ?sx \<and> (?sx < ?sy \<or> ?sx = ?sy \<and> sint (td_receiveTime x) < sint (td_receiveTime y))"
    unfolding TransactionPriorityComparator_def Let_def case_prod_beta group mul128_less mul128_eq
      word_less_nat_alt [of "td_blobSize x"] word_unat_eq_iff [of "td_blobSize x"] ..
  moreover have "(P \<or> (P \<or> Q) \<and> (R \<or> (R \<or> S) \<and> U)) = (P \<or> Q \<and> (R \<or> S \<and> U))" for P Q R S U by blast
  then have "priority x < priority y \<longleftrightarrow>
      ?fy * ?sx < ?fx * ?sy \<or> ?fx * ?sy = ?fy * ?sx \<and> (?sx < ?sy \<or> ?sx = ?sy \<and> sint (td_receiveTime x) < sint (td_receiveTime y))"
    unfolding priority_def less_prod_simp neg_less_iff_less neg_le_iff_le order_le_less neg_equal_iff_equal frac [OF pos] .
  ultimately show ?thesis by (simp only:)
qed

section \<open>A container\<close>

text \<open>A list of transactions with different ids; a list with repeated ids stands for the list without the
  later ones.\<close>

fun canon_items :: "TransactionDetails list \<Rightarrow> TransactionDetails list" where
  "canon_items [] = []"
| "canon_items (t # ts) = t # filter (\<lambda>u. td_id u \<noteq> td_id t) (canon_items ts)"

definition list_tx_container :: "TransactionDetails list tx_container" where
  "list_tx_container = \<lparr>
     tc_insert = (\<lambda>c x. if List.find (\<lambda>t. td_id t = td_id x) c = None then (c @ [x], True) else (c, False)),
     tc_find = (\<lambda>c h. List.find (\<lambda>t. td_id t = h) c),
     tc_erase = (\<lambda>c h. filter (\<lambda>t. td_id t \<noteq> h) c),
     tc_clear = (\<lambda>_. []),
     tc_items = canon_items,
     tc_by_fee = (\<lambda>c. sort_key priority (canon_items c))\<rparr>"

lemma find_append: "List.find P (xs @ ys) = (case List.find P xs of None \<Rightarrow> List.find P ys | Some x \<Rightarrow> Some x)"
  by (induction xs) auto

lemma find_filter_id: "List.find (\<lambda>t. td_id t = k) (filter (\<lambda>t. td_id t \<noteq> h) c) = (if k = h then None else List.find (\<lambda>t. td_id t = k) c)"
  by (induction c) auto

lemma find_id: "List.find (\<lambda>t. td_id t = h) c = Some x \<Longrightarrow> td_id x = h"
  by (induction c) (auto split: if_splits)

lemma canon_set: "t \<in> set (canon_items c) \<longleftrightarrow> List.find (\<lambda>u. td_id u = td_id t) c = Some t"
  by (induction c) auto

lemma canon_distinct: "distinct (map td_id (canon_items c))"
proof (induction c)
  case (Cons t ts)
  then show ?case by (auto simp: distinct_map inj_on_def)
qed simp

interpretation ltc: tx_multi_index list_tx_container
proof
  fix c :: "TransactionDetails list" and x h
  show "tc_find list_tx_container c (td_id x) = None \<Longrightarrow>
      \<exists>c'. tc_insert list_tx_container c x = (c', True) \<and> tc_find list_tx_container c' = (tc_find list_tx_container c)(td_id x \<mapsto> x)"
    by (auto simp: list_tx_container_def find_append fun_eq_iff split: option.splits)
  show "tc_find list_tx_container c (td_id x) \<noteq> None \<Longrightarrow> tc_insert list_tx_container c x = (c, False)"
    by (simp add: list_tx_container_def)
  show "tc_find list_tx_container (tc_erase list_tx_container c h) = (tc_find list_tx_container c)(h := None)"
    by (simp add: list_tx_container_def find_filter_id fun_eq_iff)
  show "tc_find list_tx_container (tc_clear list_tx_container c) = Map.empty"
    by (simp add: list_tx_container_def fun_eq_iff)
  have found: "td_id x = h" if "tc_find list_tx_container c h = Some x" for h x
    using that by (simp add: list_tx_container_def) (rule find_id)
  show "tc_find list_tx_container c h = Some x \<Longrightarrow> td_id x = h" by (rule found)
  show "set (tc_items list_tx_container c) = ran (tc_find list_tx_container c)"
  proof (rule set_eqI)
    fix t
    have "t \<in> set (tc_items list_tx_container c) \<longleftrightarrow> tc_find list_tx_container c (td_id t) = Some t"
      by (simp add: list_tx_container_def canon_set)
    then show "t \<in> set (tc_items list_tx_container c) \<longleftrightarrow> t \<in> ran (tc_find list_tx_container c)"
      using found [of _ t] unfolding ran_def mem_Collect_eq by metis
  qed
  show "distinct (map td_id (tc_items list_tx_container c))"
    by (simp add: list_tx_container_def canon_distinct)
  show "mset (tc_by_fee list_tx_container c) = mset (tc_items list_tx_container c)"
    by (simp add: list_tx_container_def)
  assume "list_all (\<lambda>t. 0 < td_blobSize t) (tc_items list_tx_container c)"
  then have pos: "\<And>t. t \<in> set (canon_items c) \<Longrightarrow> 0 < td_blobSize t" by (simp add: list_tx_container_def list_all_iff)
  have less: "\<not> TransactionPriorityComparator y x"
    if "x \<in> set (sort_key priority (canon_items c))" "y \<in> set (sort_key priority (canon_items c))" "priority x \<le> priority y" for x y
    using that priority_order [of y x] pos by (simp add: not_less)
  have "sorted_wrt (\<lambda>x y. priority x \<le> priority y) (sort_key priority (canon_items c))"
    using sorted_sort_key [of priority "canon_items c"] unfolding sorted_map .
  then have "sorted_wrt (\<lambda>x y. \<not> TransactionPriorityComparator y x) (sort_key priority (canon_items c))"
    using less by (rule sorted_wrt_mono_rel [rotated])
  then show "sorted_wrt (\<lambda>x y. \<not> TransactionPriorityComparator y x) (tc_by_fee list_tx_container c)"
    by (simp add: list_tx_container_def)
qed

section \<open>Choosing transactions for a block\<close>

lemma template_inputs_eq:
  assumes "distinct (key_images ins)" "distinct (deposit_outputs ins)"
    and "set (key_images ins) \<inter> m_keyImages t = {}" "set (deposit_outputs ins) \<inter> m_usedOutputs t = {}"
  shows "template_inputs ins t = Some (t\<lparr>m_keyImages := m_keyImages t \<union> set (key_images ins),
    m_usedOutputs := m_usedOutputs t \<union> set (deposit_outputs ins)\<rparr>)"
  using assms
proof (induction ins arbitrary: t)
  case (Cons i ins)
  show ?case
  proof (cases i)
    case (KeyInput a b k)
    let ?t = "t\<lparr>m_keyImages := insert k (m_keyImages t)\<rparr>"
    have "template_inputs ins ?t = Some (?t\<lparr>m_keyImages := m_keyImages ?t \<union> set (key_images ins),
        m_usedOutputs := m_usedOutputs ?t \<union> set (deposit_outputs ins)\<rparr>)"
      using Cons.prems KeyInput by (intro Cons.IH) auto
    then show ?thesis using Cons.prems KeyInput by simp
  next
    case (MultisignatureInput a b n r)
    let ?t = "t\<lparr>m_usedOutputs := insert (a, ucast n) (m_usedOutputs t)\<rparr>"
    have "template_inputs ins ?t = Some (?t\<lparr>m_keyImages := m_keyImages ?t \<union> set (key_images ins),
        m_usedOutputs := m_usedOutputs ?t \<union> set (deposit_outputs ins)\<rparr>)"
      using Cons.prems MultisignatureInput by (intro Cons.IH) auto
    then show ?thesis using Cons.prems MultisignatureInput by simp
  qed (use Cons in auto)
qed simp

text \<open>The inputs that a list of transactions spends, and the template that holds the list.\<close>

definition all_images :: "TransactionDetails list \<Rightarrow> KeyImage list" where
  "all_images ts = concat (map (\<lambda>t. key_images (inputs (td_tx t))) ts)"

definition all_deposits :: "TransactionDetails list \<Rightarrow> (uint64 \<times> uint64) list" where
  "all_deposits ts = concat (map (\<lambda>t. deposit_outputs (inputs (td_tx t))) ts)"

definition spends_once :: "TransactionDetails list \<Rightarrow> bool" where
  "spends_once ts \<longleftrightarrow> distinct (all_images ts) \<and> distinct (all_deposits ts)"

definition template_of :: "TransactionDetails list \<Rightarrow> BlockTemplate" where
  "template_of ts = \<lparr>m_keyImages = set (all_images ts), m_usedOutputs = set (all_deposits ts), m_txHashes = map td_id ts\<rparr>"

lemma all_append [simp]:
  "all_images (ts @ us) = all_images ts @ all_images us" "all_deposits (ts @ us) = all_deposits ts @ all_deposits us"
  "all_images [] = []" "all_deposits [] = []"
  "all_images (t # ts) = key_images (inputs (td_tx t)) @ all_images ts"
  "all_deposits (t # ts) = deposit_outputs (inputs (td_tx t)) @ all_deposits ts"
  by (simp_all add: all_images_def all_deposits_def)

lemma spends_once_prefix: "spends_once (ts @ us) \<Longrightarrow> spends_once ts"
  by (simp add: spends_once_def)

lemma spends_once_last: "\<not> spends_once (ts @ [t]) \<Longrightarrow> \<not> spends_once (ts @ us @ [t])"
  by (auto simp: spends_once_def)

lemma addTransaction_template:
  assumes "spends_once ts" "inputs_differ (td_tx t)"
  shows "addTransaction (td_id t) (td_tx t) (template_of ts) =
    Some (spends_once (ts @ [t]), template_of (if spends_once (ts @ [t]) then ts @ [t] else ts))"
proof -
  have can: "canAdd (template_of ts) (td_tx t) \<longleftrightarrow> spends_once (ts @ [t])"
    using assms by (auto simp: canAdd_iff template_of_def spends_once_def inputs_differ_def)
  show ?thesis
  proof (cases "spends_once (ts @ [t])")
    case True
    then have "template_inputs (inputs (td_tx t)) (template_of ts) = Some ((template_of ts)\<lparr>
        m_keyImages := m_keyImages (template_of ts) \<union> set (key_images (inputs (td_tx t))),
        m_usedOutputs := m_usedOutputs (template_of ts) \<union> set (deposit_outputs (inputs (td_tx t)))\<rparr>)"
      using assms(2) can by (intro template_inputs_eq) (auto simp: inputs_differ_def canAdd_iff)
    then show ?thesis using True can by (simp add: addTransaction_def template_of_def)
  qed (simp add: addTransaction_def can)
qed

definition block_size :: "TransactionDetails list \<Rightarrow> nat" where
  "block_size ts = sum_list (map (\<lambda>t. unat (td_blobSize t)) ts)"

definition block_fees :: "TransactionDetails list \<Rightarrow> nat" where
  "block_fees ts = sum_list (map (\<lambda>t. unat (td_fee t)) ts)"

lemma block_size_simps [simp]:
  "block_size [] = 0" "block_size (t # ts) = unat (td_blobSize t) + block_size ts" "block_size (ts @ us) = block_size ts + block_size us"
  by (simp_all add: block_size_def)

lemma block_fees_simps [simp]:
  "block_fees [] = 0" "block_fees (t # ts) = unat (td_fee t) + block_fees ts" "block_fees (ts @ us) = block_fees ts + block_fees us"
  by (simp_all add: block_fees_def)

text \<open>The limit that a transaction has to respect, and why one is left out of a block.\<close>

definition size_limit :: "uint64 \<Rightarrow> uint64 \<Rightarrow> TransactionDetails \<Rightarrow> uint64" where
  "size_limit median_size max_total_size t = (if td_fee t = 0 then median_size else max_total_size)"

definition left_out ::
  "ITransactionValidator \<Rightarrow> 'c tx_memory_pool \<Rightarrow> uint64 \<Rightarrow> uint64 \<Rightarrow> TransactionDetails list \<Rightarrow> TransactionDetails \<Rightarrow> bool" where
  "left_out V p median_size max_total_size ts t \<longleftrightarrow>
     m_ttlIndex p (td_id t) \<noteq> None \<or> \<not> is_transaction_ready_to_go V (td_tx t) t \<or>
     unat (size_limit median_size max_total_size t) < block_size ts + unat (td_blobSize t) \<or> \<not> spends_once (ts @ [t])"

lemma left_out_mono: "left_out V p med mx ts t \<Longrightarrow> left_out V p med mx (ts @ us) t"
  using spends_once_last [of ts t us] by (auto simp: left_out_def)

definition chosen ::
  "ITransactionValidator \<Rightarrow> 'c tx_memory_pool \<Rightarrow> TransactionDetails \<Rightarrow> bool" where
  "chosen V p t \<longleftrightarrow> m_ttlIndex p (td_id t) = None \<and> is_transaction_ready_to_go V (td_tx t) t"

lemma fill_loop_step:
  assumes "inputs_differ (td_tx t)" "unat (td_blobSize t) + unat (max med mx) < 18446744073709551616"
    and "spends_once ts" "block_size ts \<le> unat (max med mx)"
  shows "fill_loop V p med mx (t # txds) (template_of ts, of_nat (block_size ts), of_nat (block_fees ts)) =
    (let ts' = (if left_out V p med mx ts t then ts else ts @ [t])
     in fill_loop V p med mx txds (template_of ts', of_nat (block_size ts'), of_nat (block_fees ts')))"
proof -
  have small: "unat (of_nat (block_size ts) + td_blobSize t) = block_size ts + unat (td_blobSize t)"
  proof -
    have "of_nat (block_size ts) + td_blobSize t = (of_nat (block_size ts + unat (td_blobSize t)) :: uint64)" by simp
    moreover have "unat (of_nat (block_size ts + unat (td_blobSize t)) :: uint64) = block_size ts + unat (td_blobSize t)"
      using assms(2,4) by (intro unat_of_nat_small) simp
    ultimately show ?thesis by simp
  qed
  have fits: "(if td_fee t = 0 then med else mx) < of_nat (block_size ts) + td_blobSize t \<longleftrightarrow>
      unat (size_limit med mx t) < block_size ts + unat (td_blobSize t)"
    by (simp add: size_limit_def word_less_nat_alt small)
  show ?thesis
    unfolding fill_loop.simps fits addTransaction_template [OF assms(3,1)] left_out_def Let_def
    by (simp add: add.commute)
qed

lemma fill_loop_spec:
  assumes "\<And>t. t \<in> set txds \<Longrightarrow> inputs_differ (td_tx t) \<and> unat (td_blobSize t) + unat (max med mx) < 18446744073709551616"
    and "spends_once ts" "block_size ts \<le> unat (max med mx)"
  shows "\<exists>us. fill_loop V p med mx txds (template_of ts, of_nat (block_size ts), of_nat (block_fees ts)) =
      Some (template_of (ts @ us), of_nat (block_size (ts @ us)), of_nat (block_fees (ts @ us))) \<and>
    set us \<subseteq> set txds \<and> (\<forall>P. sorted_wrt P txds \<longrightarrow> sorted_wrt P us) \<and> spends_once (ts @ us) \<and>
    block_size (ts @ us) \<le> unat (max med mx) \<and> (\<forall>t \<in> set us. chosen V p t) \<and>
    (\<forall>t \<in> set txds. t \<in> set us \<or> left_out V p med mx (ts @ us) t)"
  using assms
proof (induction txds arbitrary: ts)
  case Nil
  then show ?case by (intro exI [of _ "[]"]) simp
next
  case (Cons t txds)
  note step = fill_loop_step [of t med mx ts V p txds]
  have t: "inputs_differ (td_tx t)" "unat (td_blobSize t) + unat (max med mx) < 18446744073709551616" using Cons.prems(1) by auto
  have rest: "\<And>u. u \<in> set txds \<Longrightarrow> inputs_differ (td_tx u) \<and> unat (td_blobSize u) + unat (max med mx) < 18446744073709551616"
    using Cons.prems(1) by simp
  show ?case
  proof (cases "left_out V p med mx ts t")
    case True
    obtain us where us: "fill_loop V p med mx txds (template_of ts, of_nat (block_size ts), of_nat (block_fees ts)) =
        Some (template_of (ts @ us), of_nat (block_size (ts @ us)), of_nat (block_fees (ts @ us)))"
      "set us \<subseteq> set txds" "\<forall>P. sorted_wrt P txds \<longrightarrow> sorted_wrt P us" "spends_once (ts @ us)"
      "block_size (ts @ us) \<le> unat (max med mx)" "\<forall>t \<in> set us. chosen V p t"
      "\<forall>t \<in> set txds. t \<in> set us \<or> left_out V p med mx (ts @ us) t"
      using Cons.IH [OF rest Cons.prems(2,3)] by blast
    have "fill_loop V p med mx (t # txds) (template_of ts, of_nat (block_size ts), of_nat (block_fees ts)) =
        Some (template_of (ts @ us), of_nat (block_size (ts @ us)), of_nat (block_fees (ts @ us)))"
      unfolding step [OF t Cons.prems(2,3)] Let_def if_P [OF True] us(1) ..
    then show ?thesis using us left_out_mono [OF True, of us] by (intro exI [of _ us] conjI) auto
  next
    case False
    have size: "block_size (ts @ [t]) \<le> unat (max med mx)"
      using False by (simp add: left_out_def size_limit_def max_def word_le_nat_alt split: if_splits)
    have once: "spends_once (ts @ [t])" using False by (simp add: left_out_def)
    obtain us where us: "fill_loop V p med mx txds (template_of (ts @ [t]), of_nat (block_size (ts @ [t])), of_nat (block_fees (ts @ [t]))) =
        Some (template_of ((ts @ [t]) @ us), of_nat (block_size ((ts @ [t]) @ us)), of_nat (block_fees ((ts @ [t]) @ us)))"
      "set us \<subseteq> set txds" "\<forall>P. sorted_wrt P txds \<longrightarrow> sorted_wrt P us" "spends_once ((ts @ [t]) @ us)"
      "block_size ((ts @ [t]) @ us) \<le> unat (max med mx)" "\<forall>t \<in> set us. chosen V p t"
      "\<forall>x \<in> set txds. x \<in> set us \<or> left_out V p med mx ((ts @ [t]) @ us) x"
      using Cons.IH [OF rest once size] by blast
    have "fill_loop V p med mx (t # txds) (template_of ts, of_nat (block_size ts), of_nat (block_fees ts)) =
        Some (template_of (ts @ t # us), of_nat (block_size (ts @ t # us)), of_nat (block_fees (ts @ t # us)))"
      unfolding step [OF t Cons.prems(2,3)] Let_def if_not_P [OF False] us(1) by simp
    moreover have "chosen V p t" using False by (simp add: left_out_def chosen_def)
    moreover have "\<forall>P. sorted_wrt P (t # txds) \<longrightarrow> sorted_wrt P (t # us)" using us(2,3) by auto
    ultimately show ?thesis using us by (intro exI [of _ "t # us"] conjI) auto
  qed
qed

section \<open>The states a pool reaches\<close>

definition pool_new :: "'c \<Rightarrow> 'c tx_memory_pool" where
  "pool_new e = \<lparr>m_transactions = e, m_spent_key_images = (\<lambda>_. None), m_spentOutputs = {},
     m_recentlyDeletedTransactions = (\<lambda>_. None), m_paymentIdIndex = {#}, m_timestampIndex = [], m_ttlIndex = (\<lambda>_. None),
     m_lastWorkedTime = 0\<rparr>"

text \<open>The calls of the node: it adds transactions whose inputs differ (\<open>core::check_tx_semantic\<close> refuses the others),
  takes them out for a block, lets them expire, and stops and loads what it has stored.\<close>

inductive pool_run :: "(bytes \<Rightarrow> Hash) \<Rightarrow> 'c tx_container \<Rightarrow> Currency \<Rightarrow> 'c tx_memory_pool \<Rightarrow> bool"
  for cn_fast_hash T c where
  pool_start: "tc_find T e = Map.empty \<Longrightarrow> pool_run cn_fast_hash T c (pool_new e)"
| pool_add: "pool_run cn_fast_hash T c p \<Longrightarrow> inputs_differ tx \<Longrightarrow>
    add_tx cn_fast_hash T V c clock now tx h blobSize tvc keptByBlock height p = Some (r, tvc', p') \<Longrightarrow> pool_run cn_fast_hash T c p'"
| pool_take: "pool_run cn_fast_hash T c p \<Longrightarrow> take_tx cn_fast_hash T h p = Some (r, p') \<Longrightarrow> pool_run cn_fast_hash T c p'"
| pool_idle: "pool_run cn_fast_hash T c p \<Longrightarrow> on_idle cn_fast_hash T c now p = Some p' \<Longrightarrow> pool_run cn_fast_hash T c p'"
| pool_reset: "pool_run cn_fast_hash T c p \<Longrightarrow> pool_init cn_fast_hash T c now (LoadFailed d) p = Some p' \<Longrightarrow> pool_run cn_fast_hash T c p'"
| pool_restart: "pool_run cn_fast_hash T c p \<Longrightarrow> tc_find T e = Map.empty \<Longrightarrow>
    pool_init cn_fast_hash T c now
      (Loaded (m_transactions p) (m_spent_key_images p) (m_spentOutputs p) (m_recentlyDeletedTransactions p)) (pool_new e) = Some p' \<Longrightarrow>
    pool_run cn_fast_hash T c p'"

lemma buildIndices_same:
  "m_transactions (buildIndices f T p) = m_transactions p" "m_spent_key_images (buildIndices f T p) = m_spent_key_images p"
  "m_spentOutputs (buildIndices f T p) = m_spentOutputs p"
  "m_ttlIndex (buildIndices f T p) h \<noteq> None \<Longrightarrow> m_ttlIndex p h \<noteq> None \<or> h \<in> td_id ` set (tc_items T (m_transactions p))"
proof -
  define step where "step = (\<lambda>(txd :: TransactionDetails) p. p\<lparr>m_paymentIdIndex := snd (PaymentIdIndex_add f (td_tx txd) (m_paymentIdIndex p)),
       m_timestampIndex := snd (TimestampTransactionsIndex_add (td_receiveTime txd) (td_id txd) (m_timestampIndex p)),
       m_ttlIndex := (let ttl = find_ttl (extra (td_tx txd)) in
         if ttl \<noteq> 0 \<and> m_ttlIndex p (td_id txd) = None then (m_ttlIndex p)(td_id txd \<mapsto> ttl) else m_ttlIndex p)\<rparr> :: 'a tx_memory_pool)"
  have "m_transactions (fold step ts q) = m_transactions q \<and> m_spent_key_images (fold step ts q) = m_spent_key_images q \<and>
      m_spentOutputs (fold step ts q) = m_spentOutputs q \<and>
      (m_ttlIndex (fold step ts q) h \<noteq> None \<longrightarrow> m_ttlIndex q h \<noteq> None \<or> h \<in> td_id ` set ts)" for ts q
  proof (induction ts arbitrary: q)
    case (Cons t ts)
    have "m_ttlIndex (step t q) h \<noteq> None \<longrightarrow> m_ttlIndex q h \<noteq> None \<or> h = td_id t"
      by (auto simp: step_def Let_def split: if_splits)
    then show ?case using Cons.IH [of "step t q"] by (auto simp: step_def)
  qed simp
  moreover have "buildIndices f T p = fold step (tc_items T (m_transactions p)) p" unfolding buildIndices_def step_def ..
  ultimately show "m_transactions (buildIndices f T p) = m_transactions p" "m_spent_key_images (buildIndices f T p) = m_spent_key_images p"
    "m_spentOutputs (buildIndices f T p) = m_spentOutputs p"
    "m_ttlIndex (buildIndices f T p) h \<noteq> None \<Longrightarrow> m_ttlIndex p h \<noteq> None \<or> h \<in> td_id ` set (tc_items T (m_transactions p))"
    by simp_all
qed

context tx_multi_index
begin

lemma pool_inv_empty: "tc_find T e = Map.empty \<Longrightarrow> pool_inv T
    (p\<lparr>m_transactions := e, m_spent_key_images := (\<lambda>_. None), m_spentOutputs := {}, m_recentlyDeletedTransactions := d,
       m_paymentIdIndex := i, m_timestampIndex := j, m_ttlIndex := (\<lambda>_. None)\<rparr>)"
  by (auto simp: pool_inv_def no_conflict_def spent_of_def spenders_def spent_outputs_of_def fun_eq_iff)

lemma on_idle_inv:
  assumes "pool_inv T p"
  shows "\<exists>p'. on_idle cn_fast_hash T c now p = Some p' \<and> pool_inv T p'"
  using removeExpired_inv [OF assms, of cn_fast_hash c now] assms by (auto simp: on_idle_def)

lemma pool_reset_inv: "\<exists>p'. pool_init cn_fast_hash T c now (LoadFailed d) p = Some p' \<and> pool_inv T p'"
  using removeExpired_inv [OF pool_inv_empty [OF find_clear, where p = p and d = d and i = "PaymentIdIndex_clear (m_paymentIdIndex p)"
      and j = "TimestampTransactionsIndex_clear (m_timestampIndex p)"], of cn_fast_hash c now]
  unfolding pool_init_def pool_file.case by blast

lemma pool_restart_inv:
  assumes "pool_inv T p"
  shows "\<exists>p'. pool_init cn_fast_hash T c now
    (Loaded (m_transactions p) (m_spent_key_images p) (m_spentOutputs p) (m_recentlyDeletedTransactions p)) (pool_new e) = Some p' \<and>
    pool_inv T p'"
proof -
  let ?q = "(pool_new e)\<lparr>m_transactions := m_transactions p, m_spent_key_images := m_spent_key_images p,
    m_spentOutputs := m_spentOutputs p, m_recentlyDeletedTransactions := m_recentlyDeletedTransactions p\<rparr>"
  have "tc_find T (m_transactions p) h \<noteq> None" if "m_ttlIndex (buildIndices cn_fast_hash T ?q) h \<noteq> None" for h
    using buildIndices_same(4) [OF that] by (auto simp: pool_new_def items_find)
  then have "pool_inv T (buildIndices cn_fast_hash T ?q)"
    using assms unfolding pool_inv_def Let_def buildIndices_same(1-3) by (simp add: pool_new_def)
  then show ?thesis
    using removeExpired_inv [of "buildIndices cn_fast_hash T ?q" cn_fast_hash c now] unfolding pool_init_def pool_file.case by blast
qed

lemma pool_run_inv: "pool_run cn_fast_hash T c p \<Longrightarrow> pool_inv T p"
proof (induction rule: pool_run.induct)
  case (pool_start e)
  then show ?case using pool_inv_empty [where p = "pool_new e" and e = e and d = Map.empty and i = "{#}" and j = "[]"] by (simp add: pool_new_def)
next
  case (pool_take p h r p')
  then show ?case using take_tx_inv [of p cn_fast_hash h] by auto
next
  case (pool_idle p now p')
  then show ?case using on_idle_inv [of p cn_fast_hash c now] by auto
next
  case (pool_reset p now d p')
  then show ?case using pool_reset_inv [of cn_fast_hash c now d p] by auto
next
  case (pool_restart p e now p')
  then show ?case using pool_restart_inv [of p cn_fast_hash c now e] by auto
qed (rule add_tx_inv)

end

section \<open>A pool with one transaction\<close>

definition pool_tx :: Transaction where
  "pool_tx = \<lparr>version = 1, unlockTime = 0, inputs = [KeyInput 100 [1] 7], outputs = [], extra = [], signatures = []\<rparr>"

definition open_validator :: ITransactionValidator where
  "open_validator = \<lparr>checkTransactionInputs = (\<lambda>_. (True, BlockInfo_new)), checkTransactionInputs_again = (\<lambda>_ _ _. True),
     haveSpentKeyImages = (\<lambda>_. False), checkTransactionSize = (\<lambda>_. True)\<rparr>"

definition no_context :: tx_verification_context where
  "no_context = \<lparr>m_should_be_relayed = False, m_verification_failed = False, m_verification_impossible = False,
     m_added_to_pool = False, m_tx_fee_too_small = False\<rparr>"

lemma pool_tx_facts:
  "inputs_differ pool_tx" "getTransactionAllInputsAmount c pool_tx 9 = Some 100" "get_outs_money_amount pool_tx = 0"
  "check_inputs_types_supported pool_tx" "find_ttl (extra pool_tx) = 0" "inputs pool_tx = [KeyInput 100 [1] 7]"
proof -
  have "snd (parseTransactionExtra []) = []" by code_simp
  then show "find_ttl (extra pool_tx) = 0" by (simp add: find_ttl_def pool_tx_def)
qed (simp_all add: pool_tx_def inputs_differ_def getTransactionAllInputsAmount_def get_outs_money_amount_def check_inputs_types_supported_def
  getTransactionInputAmount_def input_interest_def)

lemma list_find_empty: "tc_find list_tx_container [] = Map.empty"
  by (simp add: list_tx_container_def fun_eq_iff)

lemma pool_run_new: "pool_run f list_tx_container c (pool_new [])"
  by (rule pool_start [OF list_find_empty])

lemma pool_tx_admissible: "admissible open_validator c 9 (pool_new []) pool_tx 5 50 100"
  by (simp add: admissible_def pool_tx_facts haveSpentInputs_iff open_validator_def pool_new_def)

lemma sample_pool:
  "\<exists>p t. pool_run f list_tx_container c p \<and> tc_find list_tx_container (m_transactions p) = [5 \<mapsto> t] \<and> td_id t = 5 \<and> td_tx t = pool_tx \<and>
     td_blobSize t = 50 \<and> td_fee t = 100 \<and> \<not> td_keptByBlock t \<and> td_receiveTime t = 9 \<and> m_ttlIndex p 5 = None"
proof -
  have inv: "pool_inv list_tx_container (pool_new [])" by (rule ltc.pool_run_inv [OF pool_run_new])
  have new: "tc_find list_tx_container (m_transactions (pool_new [])) 5 = None" by (simp add: pool_new_def list_find_empty)
  have ok: "100 = get_outs_money_amount pool_tx \<longrightarrow> isFusionTransaction_size c pool_tx 50 \<noteq> None"
    "get_outs_money_amount pool_tx \<le> 100"
    "False \<or> admissible open_validator c 9 (pool_new []) pool_tx 5 50 (100 - get_outs_money_amount pool_tx)"
    using pool_tx_admissible by (simp_all add: pool_tx_facts)
  obtain tvc p t where r: "add_tx f list_tx_container open_validator c 9 9 pool_tx 5 50 no_context False 9 (pool_new []) = Some (True, tvc, p)"
      "tc_find list_tx_container (m_transactions p) = (tc_find list_tx_container (m_transactions (pool_new [])))(5 \<mapsto> t)"
      "td_id t = 5" "td_tx t = pool_tx" "td_blobSize t = 50" "td_fee t = 100 - get_outs_money_amount pool_tx"
      "\<not> td_keptByBlock t" "td_receiveTime t = 9" "m_ttlIndex p = m_ttlIndex (pool_new ([] :: TransactionDetails list))"
    using ltc.add_tx_accept [OF inv pool_tx_facts(1) new pool_tx_facts(2) ok(1) pool_tx_facts(4) ok(2,3), of f 9 no_context,
      unfolded pool_tx_facts(5) simp_thms] by blast
  then have "m_ttlIndex p 5 = None" "tc_find list_tx_container (m_transactions p) = [5 \<mapsto> t]" "td_fee t = 100"
    by (simp_all add: pool_new_def list_find_empty pool_tx_facts(3))
  then show ?thesis using pool_add [OF pool_run_new pool_tx_facts(1) r(1)] r(3-) by blast
qed

section \<open>The properties of the pool\<close>

lemma distinct_map_sorted: "distinct (map f xs) \<longleftrightarrow> sorted_wrt (\<lambda>x y. f x \<noteq> f y) xs"
  by (induction xs) auto

lemma priority_fee:
  assumes "0 < td_blobSize x" "0 < td_blobSize y" "\<not> TransactionPriorityComparator y x"
  shows "of_nat (unat (td_fee y)) / of_nat (unat (td_blobSize y)) \<le> (of_nat (unat (td_fee x)) / of_nat (unat (td_blobSize x)) :: rat)"
proof -
  have "priority x \<le> priority y" using assms priority_order [of y x] by (simp add: not_less)
  then have "fst (priority x) \<le> fst (priority y)" by (simp add: priority_def less_eq_prod_def) linarith
  then show ?thesis unfolding priority_def fst_conv neg_le_iff_le .
qed

lemma add_tx_deleted:
  assumes "m_recentlyDeletedTransactions p h \<noteq> None"
    and "add_tx cn_fast_hash T V c clock now tx h blobSize tvc False height p = Some (r, tvc', p')"
  shows "p' = p"
  using assms unfolding add_tx_def Let_def by (auto split: option.splits prod.splits if_splits)

text \<open>C4: The pool never holds a double spend. In every state that the node's calls reach, the map of spent key
  images gives for a key image exactly the transactions of the pool that spend it; two transactions that
  did not come with a block share no key image and no deposit; the set of spent deposits is exactly that
  of these transactions; taking a transaction out gives its data, removes exactly it and never fails an
  assertion, and neither does the periodic removal.\<close>

theorem pool_consistent:
  assumes "tx_multi_index T" "pool_run cn_fast_hash T c p"
  shows "(\<forall>k. m_spent_key_images p k = (let s = {h. \<exists>t. tc_find T (m_transactions p) h = Some t \<and> k \<in> set (key_images (inputs (td_tx t)))} in
      if s = {} then None else Some s)) \<and>
    (\<forall>h g t u. tc_find T (m_transactions p) h = Some t \<and> tc_find T (m_transactions p) g = Some u \<and> h \<noteq> g \<and>
      \<not> td_keptByBlock t \<and> \<not> td_keptByBlock u \<longrightarrow>
      set (key_images (inputs (td_tx t))) \<inter> set (key_images (inputs (td_tx u))) = {} \<and>
      set (deposit_outputs (inputs (td_tx t))) \<inter> set (deposit_outputs (inputs (td_tx u))) = {}) \<and>
    (\<forall>d. d \<in> m_spentOutputs p \<longleftrightarrow> (\<exists>h t. tc_find T (m_transactions p) h = Some t \<and> \<not> td_keptByBlock t \<and> d \<in> set (deposit_outputs (inputs (td_tx t))))) \<and>
    (\<forall>h. \<exists>p'. take_tx cn_fast_hash T h p =
        Some (map_option (\<lambda>t. (td_tx t, td_blobSize t, td_fee t)) (tc_find T (m_transactions p) h), p') \<and>
      tc_find T (m_transactions p') = (tc_find T (m_transactions p))(h := None)) \<and>
    (\<forall>now. on_idle cn_fast_hash T c now p \<noteq> None)"
proof (intro conjI allI)
  let ?M = "tc_find T (m_transactions p)"
  have inv: "pool_inv T p" using tx_multi_index.pool_run_inv [OF assms] .
  then have spent: "m_spent_key_images p = spent_of ?M" "m_spentOutputs p = spent_outputs_of ?M" and conflict: "no_conflict ?M"
    by (simp_all add: pool_inv_def Let_def)
  show "m_spent_key_images p k = (let s = {h. \<exists>t. ?M h = Some t \<and> k \<in> set (key_images (inputs (td_tx t)))} in if s = {} then None else Some s)" for k
    by (simp add: spent spent_of_def spenders_def Let_def)
  show "?M h = Some t \<and> ?M g = Some u \<and> h \<noteq> g \<and> \<not> td_keptByBlock t \<and> \<not> td_keptByBlock u \<longrightarrow>
      set (key_images (inputs (td_tx t))) \<inter> set (key_images (inputs (td_tx u))) = {} \<and>
      set (deposit_outputs (inputs (td_tx t))) \<inter> set (deposit_outputs (inputs (td_tx u))) = {}" for h g t u
    using conflict [unfolded no_conflict_def, rule_format, of h g] by (auto simp: own_images_def own_outputs_def)
  show "d \<in> m_spentOutputs p \<longleftrightarrow> (\<exists>h t. ?M h = Some t \<and> \<not> td_keptByBlock t \<and> d \<in> set (deposit_outputs (inputs (td_tx t))))" for d
  proof -
    have "d \<in> own_outputs (?M h) \<longleftrightarrow> (\<exists>t. ?M h = Some t \<and> \<not> td_keptByBlock t \<and> d \<in> set (deposit_outputs (inputs (td_tx t))))" for h
      by (auto simp: own_outputs_def split: option.splits)
    then show ?thesis by (simp add: spent spent_outputs_of_def)
  qed
  show "\<exists>p'. take_tx cn_fast_hash T h p = Some (map_option (\<lambda>t. (td_tx t, td_blobSize t, td_fee t)) (?M h), p') \<and>
      tc_find T (m_transactions p') = ?M(h := None)" for h
    using tx_multi_index.take_tx_inv [OF assms(1) inv, of cn_fast_hash h] by blast
  show "on_idle cn_fast_hash T c now p \<noteq> None" for now
    using tx_multi_index.on_idle_inv [OF assms(1) inv, of cn_fast_hash c now] by auto
qed

theorem pool_consistent_witness:
  "\<forall>f c. \<exists>p. pool_run f list_tx_container c p \<and> m_spent_key_images p 7 = Some {5} \<and> m_spent_key_images p 8 = None \<and> m_spentOutputs p = {} \<and>
     (\<exists>q. take_tx f list_tx_container 5 p = Some (Some (pool_tx, 50, 100), q) \<and> \<not> have_tx list_tx_container q 5)"
proof (intro allI)
  fix f c
  obtain p t where p: "pool_run f list_tx_container c p" "tc_find list_tx_container (m_transactions p) = [5 \<mapsto> t]" "td_id t = 5" "td_tx t = pool_tx"
      "td_blobSize t = 50" "td_fee t = 100" using sample_pool by blast
  note claim = pool_consistent [OF ltc.tx_multi_index_axioms p(1), unfolded p(2)]
  have img: "{h. \<exists>u. [5 \<mapsto> t] h = Some u \<and> k \<in> set (key_images (inputs (td_tx u)))} = (if k = 7 then {5} else {})" for k
    by (auto simp: p(4) pool_tx_facts(6) split: if_splits)
  have "m_spent_key_images p 7 = Some {5}" "m_spent_key_images p 8 = None" using claim [unfolded img] by (simp_all add: Let_def)
  moreover have "d \<notin> m_spentOutputs p" for d using claim by (cases d) (simp add: p(4) pool_tx_facts(6) split: if_splits)
  moreover have "\<exists>q. take_tx f list_tx_container 5 p = Some (Some (pool_tx, 50, 100), q) \<and> \<not> have_tx list_tx_container q 5"
  proof -
    obtain q where "take_tx f list_tx_container 5 p = Some (map_option (\<lambda>t. (td_tx t, td_blobSize t, td_fee t)) ([5 \<mapsto> t] (5 :: Hash)), q)"
        "tc_find list_tx_container (m_transactions q) = [5 \<mapsto> t](5 := None)" using claim by blast
    then show ?thesis by (simp add: p(4-6) have_tx_def)
  qed
  ultimately show "\<exists>p. pool_run f list_tx_container c p \<and> m_spent_key_images p 7 = Some {5} \<and> m_spent_key_images p 8 = None \<and> m_spentOutputs p = {} \<and>
     (\<exists>q. take_tx f list_tx_container 5 p = Some (Some (pool_tx, 50, 100), q) \<and> \<not> have_tx list_tx_container q 5)"
    using p(1) by blast
qed

text \<open>C16: Exactly which transactions enter the pool. For a new transaction with different inputs, when the
  calculation of its amounts meets no failed assertion: it is added if and only if its input types are
  supported, it does not spend more than it has, and - unless it came with a block - its time to live is
  in range and its fee then zero, none of its inputs is spent in the pool, the validator accepts its
  inputs and size, and it was not deleted recently. Then the pool holds it with the right fee, and otherwise it
  is unchanged. The index of payment identifiers never changes: the transaction was moved away before it
  is indexed.\<close>

theorem pool_admission:
  assumes "tx_multi_index T" "pool_run cn_fast_hash T c p" "inputs_differ tx" "\<not> have_tx T p h" "\<not> m_added_to_pool tvc"
    and "getTransactionAllInputsAmount c tx height = Some a"
    and "a = get_outs_money_amount tx \<longrightarrow> isFusionTransaction_size c tx blobSize \<noteq> None"
  shows "\<exists>r tvc' p'. add_tx cn_fast_hash T V c clock now tx h blobSize tvc keptByBlock height p = Some (r, tvc', p') \<and>
    m_paymentIdIndex p' = m_paymentIdIndex p \<and>
    (m_added_to_pool tvc' \<longleftrightarrow> check_inputs_types_supported tx \<and> get_outs_money_amount tx \<le> a \<and>
       (keptByBlock \<or> admissible V c clock p tx h blobSize (a - get_outs_money_amount tx))) \<and>
    (if m_added_to_pool tvc' then r \<and> (\<exists>t. tc_find T (m_transactions p') = (tc_find T (m_transactions p))(h \<mapsto> t) \<and> td_tx t = tx \<and>
       unat (td_fee t) = unat a - unat (get_outs_money_amount tx) \<and> td_blobSize t = blobSize \<and>
       td_keptByBlock t = keptByBlock \<and> td_receiveTime t = now)
     else p' = p)"
proof (cases "check_inputs_types_supported tx \<and> get_outs_money_amount tx \<le> a \<and>
    (keptByBlock \<or> admissible V c clock p tx h blobSize (a - get_outs_money_amount tx))")
  case True
  have inv: "pool_inv T p" using tx_multi_index.pool_run_inv [OF assms(1,2)] .
  have new: "tc_find T (m_transactions p) h = None" using assms(4) by (simp add: have_tx_def)
  have "unat (a - get_outs_money_amount tx) = unat a - unat (get_outs_money_amount tx)"
    using True by (simp add: unat_sub word_le_nat_alt)
  moreover obtain tvc' p' t where r:
      "add_tx cn_fast_hash T V c clock now tx h blobSize tvc keptByBlock height p = Some (True, tvc', p')" "m_added_to_pool tvc'"
      "tc_find T (m_transactions p') = (tc_find T (m_transactions p))(h \<mapsto> t)" "td_tx t = tx" "td_blobSize t = blobSize"
      "td_fee t = a - get_outs_money_amount tx" "td_keptByBlock t = keptByBlock" "td_receiveTime t = now"
      "m_paymentIdIndex p' = m_paymentIdIndex p"
    using tx_multi_index.add_tx_accept [OF assms(1) inv assms(3) new assms(6,7), of keptByBlock V clock cn_fast_hash now tvc] True by blast
  ultimately have "\<exists>t. tc_find T (m_transactions p') = (tc_find T (m_transactions p))(h \<mapsto> t) \<and> td_tx t = tx \<and>
       unat (td_fee t) = unat a - unat (get_outs_money_amount tx) \<and> td_blobSize t = blobSize \<and>
       td_keptByBlock t = keptByBlock \<and> td_receiveTime t = now" by metis
  then show ?thesis using r(1,2,9) True by (intro exI [of _ True] exI [of _ tvc'] exI [of _ p']) simp
next
  case False
  then show ?thesis using add_tx_refuse [OF assms(6,7) False, of cn_fast_hash T now tvc] assms(5) by auto
qed

theorem pool_admission_witness:
  "\<forall>f c. \<exists>r tvc p t. add_tx f list_tx_container open_validator c 9 9 pool_tx 5 50 no_context False 9 (pool_new []) = Some (r, tvc, p) \<and>
     m_added_to_pool tvc \<and> tc_find list_tx_container (m_transactions p) 5 = Some t \<and> td_tx t = pool_tx \<and> td_fee t = 100"
proof (intro allI)
  fix f c
  have "\<not> have_tx list_tx_container (pool_new []) 5" "\<not> m_added_to_pool no_context"
    "100 = get_outs_money_amount pool_tx \<longrightarrow> isFusionTransaction_size c pool_tx 50 \<noteq> None"
    by (simp_all add: have_tx_def pool_new_def list_find_empty no_context_def pool_tx_facts)
  from pool_admission [OF ltc.tx_multi_index_axioms pool_run_new [of f c] pool_tx_facts(1) this(1,2) pool_tx_facts(2) this(3),
      of open_validator 9 9 False] pool_tx_admissible [of c]
  show "\<exists>r tvc p t. add_tx f list_tx_container open_validator c 9 9 pool_tx 5 50 no_context False 9 (pool_new []) = Some (r, tvc, p) \<and>
     m_added_to_pool tvc \<and> tc_find list_tx_container (m_transactions p) 5 = Some t \<and> td_tx t = pool_tx \<and> td_fee t = 100"
    by (auto simp: pool_tx_facts(3,4) word_unat_eq_iff)
qed

text \<open>C40: Old transactions leave the pool, and stay out. Removing the expired transactions never fails; it keeps
  exactly those that are within their life time and whose time to live has not passed; and until a
  removed transaction is forgotten again, \<open>add_tx\<close> does not add it, unless it comes with a block.\<close>

theorem pool_expiry:
  assumes "tx_multi_index T" "pool_run cn_fast_hash T c p"
  shows "\<exists>p'. removeExpiredTransactions cn_fast_hash T c now p = Some p' \<and>
    (\<forall>h t. tc_find T (m_transactions p') h = Some t \<longleftrightarrow> tc_find T (m_transactions p) h = Some t \<and>
       \<not> ((if td_keptByBlock t then m_mempoolTxFromAltBlockLiveTime c else m_mempoolTxLiveTime c) < now - td_receiveTime t \<or>
          (\<exists>ttl. m_ttlIndex p h = Some ttl \<and> ttl \<le> now))) \<and>
    (\<forall>h. have_tx T p h \<and> \<not> have_tx T p' h \<longrightarrow> (\<forall>V clock now tx blobSize tvc height r tvc' p''.
       add_tx cn_fast_hash T V c clock now tx h blobSize tvc False height p' = Some (r, tvc', p'') \<longrightarrow> p'' = p'))"
proof -
  have inv: "pool_inv T p" using tx_multi_index.pool_run_inv [OF assms] .
  obtain q where q: "removeExpiredTransactions cn_fast_hash T c now p = Some q"
      "\<And>h t. tc_find T (m_transactions q) h = Some t \<longleftrightarrow> tc_find T (m_transactions p) h = Some t \<and> \<not> is_expired c now p t"
      "\<And>h t. tc_find T (m_transactions p) h = Some t \<Longrightarrow> is_expired c now p t \<Longrightarrow> m_recentlyDeletedTransactions q h \<noteq> None"
    using tx_multi_index.removeExpired_inv [OF assms(1) inv, of cn_fast_hash c now] by blast
  have "is_expired c now p t \<longleftrightarrow> (if td_keptByBlock t then m_mempoolTxFromAltBlockLiveTime c else m_mempoolTxLiveTime c) < now - td_receiveTime t \<or>
      (\<exists>ttl. m_ttlIndex p h = Some ttl \<and> ttl \<le> now)" if "tc_find T (m_transactions p) h = Some t" for h t
    using tx_multi_index.find_id [OF assms(1) that] by (auto simp: is_expired_def split: option.splits)
  moreover have "p'' = q" if "have_tx T p h" "\<not> have_tx T q h"
      "add_tx cn_fast_hash T V c clock now' tx h blobSize tvc False height q = Some (r, tvc', p'')" for h V clock now' tx blobSize tvc height r tvc' p''
  proof -
    obtain t where "tc_find T (m_transactions p) h = Some t" using \<open>have_tx T p h\<close> by (auto simp: have_tx_def)
    moreover have "is_expired c now p t" using \<open>\<not> have_tx T q h\<close> calculation q(2) [of h t] by (auto simp: have_tx_def)
    ultimately have "m_recentlyDeletedTransactions q h \<noteq> None" using q(3) by blast
    then show ?thesis using that(3) add_tx_deleted by blast
  qed
  ultimately show ?thesis using q(1,2) by blast
qed

theorem pool_expiry_witness:
  "\<forall>f c. \<exists>p q. pool_run f list_tx_container (c\<lparr>m_mempoolTxLiveTime := 86400\<rparr>) p \<and> have_tx list_tx_container p 5 \<and>
     removeExpiredTransactions f list_tx_container (c\<lparr>m_mempoolTxLiveTime := 86400\<rparr>) 100000 p = Some q \<and> \<not> have_tx list_tx_container q 5"
proof (intro allI)
  fix f and c :: Currency
  let ?c = "c\<lparr>m_mempoolTxLiveTime := 86400\<rparr>"
  obtain p t where p: "pool_run f list_tx_container ?c p" "tc_find list_tx_container (m_transactions p) = [5 \<mapsto> t]"
      "\<not> td_keptByBlock t" "td_receiveTime t = 9" using sample_pool by blast
  obtain q where q: "removeExpiredTransactions f list_tx_container ?c 100000 p = Some q"
      "\<And>u. tc_find list_tx_container (m_transactions q) 5 = Some u \<Longrightarrow> [5 \<mapsto> t] (5 :: Hash) = Some u \<and>
        \<not> ((if td_keptByBlock u then m_mempoolTxFromAltBlockLiveTime ?c else m_mempoolTxLiveTime ?c) < 100000 - td_receiveTime u)"
    using pool_expiry [OF ltc.tx_multi_index_axioms p(1), of 100000, unfolded p(2)] by blast
  have "\<not> have_tx list_tx_container q 5" using q(2) p(3,4) by (fastforce simp: have_tx_def)
  then show "\<exists>p q. pool_run f list_tx_container ?c p \<and> have_tx list_tx_container p 5 \<and>
     removeExpiredTransactions f list_tx_container ?c 100000 p = Some q \<and> \<not> have_tx list_tx_container q 5"
    using p(1,2) q(1) by (auto simp: have_tx_def)
qed

text \<open>C11: What a block template contains. For every pool that is reached, with sizes that do not overflow, the chosen
  transactions are in the pool, different, ready to go and without a time to live; together they spend no
  input twice; the reported size and fees are the exact sums, and the size is within the limit; every
  transaction of the pool that is left out has a time to live, is not ready, does not fit or would spend
  an input again. The choice starts from the transactions that the comparator ranks last, those with the
  smallest fee per byte.\<close>

theorem template_valid:
  assumes "tx_multi_index T" "pool_run cn_fast_hash T c p"
    and "mx = min (125 * median_size div 100 - m_minerTxBlobReservedSize c) maxCumulativeSize"
    and sizes: "\<forall>t \<in> ran (tc_find T (m_transactions p)).
      0 < td_blobSize t \<and> unat (td_blobSize t) + unat (max median_size mx) < 18446744073709551616"
  shows "\<exists>ts. fill_block_template T V c median_size maxCumulativeSize p =
      Some (map td_id ts, of_nat (block_size ts), of_nat (block_fees ts)) \<and>
    block_size ts \<le> unat (max median_size mx) \<and> distinct (map td_id ts) \<and> spends_once ts \<and>
    (\<forall>t \<in> set ts. tc_find T (m_transactions p) (td_id t) = Some t \<and> m_ttlIndex p (td_id t) = None \<and>
       is_transaction_ready_to_go V (td_tx t) t) \<and>
    (\<forall>h t. tc_find T (m_transactions p) h = Some t \<longrightarrow> t \<in> set ts \<or> left_out V p median_size mx ts t) \<and>
    sorted_wrt (\<lambda>x y. of_nat (unat (td_fee x)) / of_nat (unat (td_blobSize x)) \<le>
       (of_nat (unat (td_fee y)) / of_nat (unat (td_blobSize y)) :: rat)) ts"
proof -
  let ?items = "tc_by_fee T (m_transactions p)"
  have inv: "pool_inv T p" using tx_multi_index.pool_run_inv [OF assms(1,2)] .
  have "set ?items = set (tc_items T (m_transactions p))"
    using tx_multi_index.by_fee_items [OF assms(1)] by (metis set_mset_mset)
  then have item: "t \<in> set (rev ?items) \<longleftrightarrow> tc_find T (m_transactions p) (td_id t) = Some t" for t
    using tx_multi_index.items_find [OF assms(1)] by simp
  have ok: "inputs_differ (td_tx t) \<and> unat (td_blobSize t) + unat (max median_size mx) < 18446744073709551616" if "t \<in> set (rev ?items)" for t
    using inv that ranI sizes unfolding item by (fastforce simp: pool_inv_def Let_def)
  have "mset (map td_id ?items) = mset (map td_id (tc_items T (m_transactions p)))"
    using tx_multi_index.by_fee_items [OF assms(1)] by simp
  then have "distinct (map td_id ?items)" using tx_multi_index.items_distinct [OF assms(1)] mset_eq_imp_distinct_iff by blast
  then have ids: "sorted_wrt (\<lambda>x y. td_id x \<noteq> td_id y) (rev ?items)"
    by (simp add: distinct_map_sorted [symmetric] rev_map [symmetric])
  have pos: "0 < td_blobSize t" if "t \<in> set ?items" for t using that item [of t] ranI sizes by fastforce
  have "sorted_wrt (\<lambda>x y. \<not> TransactionPriorityComparator y x) ?items"
    using tx_multi_index.by_fee_sorted [OF assms(1)] pos \<open>set ?items = _\<close> by (auto simp: list_all_iff)
  then have order: "sorted_wrt (\<lambda>x y. of_nat (unat (td_fee x)) / of_nat (unat (td_blobSize x)) \<le>
       (of_nat (unat (td_fee y)) / of_nat (unat (td_blobSize y)) :: rat)) (rev ?items)"
    unfolding sorted_wrt_rev by (rule sorted_wrt_mono_rel [rotated]) (rule priority_fee, auto intro: pos)
  obtain ts where ts: "fill_loop V p median_size mx (rev ?items) (template_of [], of_nat (block_size []), of_nat (block_fees [])) =
        Some (template_of ([] @ ts), of_nat (block_size ([] @ ts)), of_nat (block_fees ([] @ ts)))"
      "set ts \<subseteq> set (rev ?items)" "\<And>P. sorted_wrt P (rev ?items) \<Longrightarrow> sorted_wrt P ts" "spends_once ([] @ ts)"
      "block_size ([] @ ts) \<le> unat (max median_size mx)" "\<And>t. t \<in> set ts \<Longrightarrow> chosen V p t"
      "\<And>t. t \<in> set (rev ?items) \<Longrightarrow> t \<in> set ts \<or> left_out V p median_size mx ([] @ ts) t"
    using fill_loop_spec [of "rev ?items" median_size mx "[]" V p] ok by (auto simp: spends_once_def)
  have new: "(template_of [], of_nat (block_size []), of_nat (block_fees [])) = (BlockTemplate_new, 0, 0)"
    by (simp add: template_of_def BlockTemplate_new_def)
  have "fill_block_template T V c median_size maxCumulativeSize p = Some (map td_id ts, of_nat (block_size ts), of_nat (block_fees ts))"
    using ts(1) unfolding new by (simp add: fill_block_template_def assms(3) [symmetric] template_of_def)
  moreover have "distinct (map td_id ts)" using ts(3) [OF ids] by (simp add: distinct_map_sorted)
  moreover have "t \<in> set ts \<or> left_out V p median_size mx ts t" if "tc_find T (m_transactions p) h = Some t" for h t
    using ts(7) [of t] that tx_multi_index.find_id [OF assms(1) that] unfolding item by auto
  moreover have "tc_find T (m_transactions p) (td_id t) = Some t \<and> m_ttlIndex p (td_id t) = None \<and> is_transaction_ready_to_go V (td_tx t) t"
    if "t \<in> set ts" for t
    using that ts(2) ts(6) [OF that] item [of t] by (auto simp: chosen_def)
  moreover have "spends_once ts" "block_size ts \<le> unat (max median_size mx)" using ts(4,5) by simp_all
  ultimately show ?thesis using ts(3) [OF order] by blast
qed

theorem template_valid_witness:
  "\<forall>f c. \<exists>p. pool_run f list_tx_container (c\<lparr>m_minerTxBlobReservedSize := 600\<rparr>) p \<and>
     fill_block_template list_tx_container open_validator (c\<lparr>m_minerTxBlobReservedSize := 600\<rparr>) 1000 2000 p = Some ([5], 50, 100)"
proof (intro allI)
  fix f and c :: Currency
  let ?c = "c\<lparr>m_minerTxBlobReservedSize := 600\<rparr>"
  obtain p t where p: "pool_run f list_tx_container ?c p" "tc_find list_tx_container (m_transactions p) = [5 \<mapsto> t]" "td_id t = 5"
      "td_tx t = pool_tx" "td_blobSize t = 50" "td_fee t = 100" "m_ttlIndex p 5 = None" using sample_pool by blast
  have mx: "(650 :: uint64) = min (125 * 1000 div 100 - m_minerTxBlobReservedSize ?c) 2000" by simp
  have size: "\<forall>u \<in> ran (tc_find list_tx_container (m_transactions p)).
      0 < td_blobSize u \<and> unat (td_blobSize u) + unat (max 1000 (650 :: uint64)) < 18446744073709551616"
    using p(2,5) by simp
  obtain ts where ts: "fill_block_template list_tx_container open_validator ?c 1000 2000 p =
        Some (map td_id ts, of_nat (block_size ts), of_nat (block_fees ts))" "distinct (map td_id ts)"
      "\<And>u. u \<in> set ts \<Longrightarrow> [5 \<mapsto> t] (td_id u) = Some u"
      "\<And>h u. [5 \<mapsto> t] (h :: Hash) = Some u \<Longrightarrow> u \<in> set ts \<or> left_out open_validator p 1000 650 ts u"
    using template_valid [OF ltc.tx_multi_index_axioms p(1) mx size, where V = open_validator, unfolded p(2)] by blast
  have "set ts \<subseteq> {t}" using ts(3) by (force split: if_splits)
  moreover have "\<not> left_out open_validator p 1000 650 [] t"
    by (simp add: left_out_def p(3-7) is_transaction_ready_to_go_def open_validator_def size_limit_def spends_once_def pool_tx_facts(6))
  ultimately have "ts = [t]" using ts(2) ts(4) [of 5 t] by (cases ts; cases "tl ts") auto
  then show "\<exists>p. pool_run f list_tx_container ?c p \<and> fill_block_template list_tx_container open_validator ?c 1000 2000 p = Some ([5], 50, 100)"
    using p ts(1) by auto
qed

end
