(* ===== verification/ChainProperties.thy ===== *)
theory ChainProperties
  imports ChainInvariant PoolProperties
begin

text \<open>
  Properties of the chain over its whole life: blocks are added, refused and removed in any order.
\<close>

section \<open>Rebuilding\<close>

context unique_sequence
begin

lemma rebuild_loop_eq:
  assumes f: "f = ce_fast_hash E"
    and "tables_of f n es c = Some c'" "\<forall>e \<in> set es. entry_ok f e" "m_tables bc = c\<lparr>ct_paymentIdIndex := q\<rparr>"
    and "deposit_pushes ds (m_depositIndex bc) = Some d" "length ds = length es"
    and "\<forall>i < length es. fst (ds ! i) = fold (\<lambda>e. deposit_of (te_tx e)) (be_transactions (es ! i)) 0 \<and>
      block_interest (ce_currency E) (n + i) (map te_tx (be_transactions (es ! i))) = Some (snd (ds ! i))"
    and "distinct (elems (m_blockIndex bc) @ map (block_id f) es)"
  shows "\<exists>ix. rebuild_loop E C n es bc = Inr (bc\<lparr>m_tables := c'\<lparr>ct_paymentIdIndex := q\<rparr>, m_blockIndex := ix, m_depositIndex := d\<rparr>) \<and>
    elems ix = elems (m_blockIndex bc) @ map (block_id f) es"
  using assms(2-)
proof (induction es arbitrary: n c bc ds)
  case (Cons e es)
  obtain a i ds' where ds: "ds = (a, i) # ds'" using Cons.prems(5) by (cases ds) auto
  have y: "a = fold (\<lambda>e. deposit_of (te_tx e)) (be_transactions e) 0" "block_interest (ce_currency E) n (map te_tx (be_transactions e)) = Some i"
    using spec [OF Cons.prems(6), of 0] by (simp_all add: ds)
  obtain d1 where d1: "DepositIndex_pushBlock (m_depositIndex bc) a i = Some d1" "deposit_pushes ds' d1 = Some d"
    using Cons.prems(4) by (auto simp: ds bind_eq_Some_conv)
  obtain c1 where c1: "push_all f (of_nat n) 0 (map te_tx (be_transactions e)) c = Some c1" "tables_of f (Suc n) es c1 = Some c'"
    using Cons.prems(1) by (auto simp: bind_eq_Some_conv)
  obtain ix where ix: "mi_push_back C (m_blockIndex bc) (block_id f e) = (ix, True)" "elems ix = elems (m_blockIndex bc) @ [block_id f e]"
    using push_new [of "block_id f e" "m_blockIndex bc"] Cons.prems(7) by auto
  let ?bc = "bc\<lparr>m_tables := c1\<lparr>ct_paymentIdIndex := q\<rparr>, m_blockIndex := ix, m_depositIndex := d1\<rparr>"
  have "\<exists>ix'. rebuild_loop E C (Suc n) es ?bc = Inr (?bc\<lparr>m_tables := c'\<lparr>ct_paymentIdIndex := q\<rparr>, m_blockIndex := ix', m_depositIndex := d\<rparr>) \<and>
      elems ix' = elems (m_blockIndex ?bc) @ map (block_id f) es"
  proof (rule Cons.IH [OF c1(2)])
    show "\<forall>i < length es. fst (ds' ! i) = fold (\<lambda>e. deposit_of (te_tx e)) (be_transactions (es ! i)) 0 \<and>
        block_interest (ce_currency E) (Suc n + i) (map te_tx (be_transactions (es ! i))) = Some (snd (ds' ! i))"
    proof (intro allI impI)
      fix i assume "i < length es"
      then show "fst (ds' ! i) = fold (\<lambda>e. deposit_of (te_tx e)) (be_transactions (es ! i)) 0 \<and>
          block_interest (ce_currency E) (Suc n + i) (map te_tx (be_transactions (es ! i))) = Some (snd (ds' ! i))"
        using spec [OF Cons.prems(6), of "Suc i"] by (simp add: ds)
    qed
  qed (use Cons.prems d1 ix ds in simp_all)
  moreover have "rebuild_loop E C n (e # es) bc = rebuild_loop E C (Suc n) es ?bc"
  proof -
    have "rebuild_transactions f (of_nat n) 0 (be_transactions e) (m_tables bc) = Inr (c1\<lparr>ct_paymentIdIndex := q\<rparr>)"
      using rebuild_transactions_effect [OF c1(1)] Cons.prems(3) by simp
    moreover have "add_calls (\<lambda>x. calculateTotalTransactionInterest (ce_currency E) (te_tx x) (of_nat n)) (be_transactions e) 0 = Some i"
      using y(2) by (simp add: block_interest_def add_calls_map)
    moreover have "length (be_transactions e) \<le> 65535" using Cons.prems(2) by (simp add: entry_ok_def)
    ultimately show ?thesis
      using y(1) d1(1) ix(1) by (simp add: f [symmetric] pushToDepositIndex_def BlockIndex_push_def)
  qed
  ultimately show ?case using ix(2) by auto
next
  case Nil
  then show ?case by (intro exI [of _ "m_blockIndex bc"]) (cases bc, simp)
qed

lemma rebuildCache_eq:
  assumes inv: "chain_inv E elems bc" and s: "m_blocks s = m_blocks bc" "m_depositIndex s = DepositIndex_new"
  shows "\<exists>ix. rebuildCache E C s = Inr (s\<lparr>m_blockIndex := ix,
    m_tables := (m_tables bc)\<lparr>ct_paymentIdIndex := ct_paymentIdIndex (m_tables s)\<rparr>, m_depositIndex := m_depositIndex bc\<rparr>) \<and>
    elems ix = elems (m_blockIndex bc)"
proof -
  let ?f = "ce_fast_hash E" and ?c = "ce_currency E" and ?bs = "m_blocks bc"
  note I = inv [unfolded chain_inv_def Let_def]
  obtain ds where ds: "deposit_pushes ds DepositIndex_new = Some (m_depositIndex bc)" "block_deposits ?c ?bs ds" using I by blast
  let ?b = "s\<lparr>m_blockIndex := mi_clear C (m_blockIndex s), m_tables := (m_tables s)\<lparr>m_transactionMap := Map.empty, m_spent_keys := {},
    m_outputs := Map.empty, m_multisignatureOutputs := Map.empty\<rparr>\<rparr>"
  have el: "elems (m_blockIndex bc) = map (block_id ?f) ?bs" using I by simp
  have "\<exists>ix. rebuild_loop E C 0 ?bs ?b = Inr (?b\<lparr>m_tables := (m_tables bc)\<lparr>ct_paymentIdIndex := ct_paymentIdIndex (m_tables s)\<rparr>, m_blockIndex := ix,
      m_depositIndex := m_depositIndex bc\<rparr>) \<and> elems ix = elems (m_blockIndex ?b) @ map (block_id ?f) ?bs"
  proof (rule rebuild_loop_eq [OF refl])
    show "tables_of ?f 0 ?bs chain_tables_new = Some (m_tables bc)" using I by simp
    show "\<forall>e \<in> set ?bs. entry_ok ?f e" using I by (auto simp: blocks_ok_def in_set_conv_nth)
    show "m_tables ?b = chain_tables_new\<lparr>ct_paymentIdIndex := ct_paymentIdIndex (m_tables s)\<rparr>" by (simp add: chain_tables_new_def)
    show "deposit_pushes ds (m_depositIndex ?b) = Some (m_depositIndex bc)" using ds(1) s(2) by simp
    show "distinct (elems (m_blockIndex ?b) @ map (block_id ?f) ?bs)"
      using elems_distinct [of "m_blockIndex bc"] by (simp add: clear_elems el)
  qed (use ds(2) in \<open>auto simp: block_deposits_def\<close>)
  then show ?thesis using el s(1) unfolding rebuildCache_def BlockIndex_clear_def by (cases s) (auto simp: clear_elems)
qed

end

abbreviation add_payments :: "(bytes \<Rightarrow> Hash) \<Rightarrow> Transaction list \<Rightarrow> PaymentIdIndex \<Rightarrow> PaymentIdIndex" where
  "add_payments f txs p \<equiv> fold (\<lambda>tx p. snd (PaymentIdIndex_add f tx p)) txs p"

lemma push_all_payments: "push_all f b t txs c = Some c' \<Longrightarrow> ct_paymentIdIndex c' = add_payments f txs (ct_paymentIdIndex c)"
  by (induction txs arbitrary: t c) (auto simp: push_effect_def split: if_splits prod.splits)

lemma tables_of_payments:
  "tables_of f n es c = Some c' \<Longrightarrow> ct_paymentIdIndex c' = add_payments f (chain_transactions es) (ct_paymentIdIndex c)"
  by (induction es arbitrary: n c) (auto simp: bind_eq_Some_conv push_all_payments)

lemma rebuild_indices_loop_eq:
  assumes "f = ce_fast_hash E" "blocks_ok f (bs @ es)"
    and "bc_timestampIndex bc = sort_key fst (map (\<lambda>e. (timestamp (be_bl e), block_id f e)) bs)"
    and "m_generatedTransactionsIndex bc = generated_of (map (\<lambda>e. length (transactionHashes (be_bl e)) + 1) bs)"
  shows "rebuild_indices_loop E es bc = Inr (bc\<lparr>
    m_tables := (m_tables bc)\<lparr>ct_paymentIdIndex := add_payments f (chain_transactions es) (ct_paymentIdIndex (m_tables bc))\<rparr>,
    bc_timestampIndex := sort_key fst (map (\<lambda>e. (timestamp (be_bl e), block_id f e)) (bs @ es)),
    m_generatedTransactionsIndex := generated_of (map (\<lambda>e. length (transactionHashes (be_bl e)) + 1) (bs @ es))\<rparr>)"
  using assms(2-)
proof (induction es arbitrary: bs bc)
  case Nil
  then show ?case by (cases bc, cases "m_tables bc") simp
next
  case (Cons e es)
  have ok: "blocks_ok f ((bs @ [e]) @ es)" using Cons.prems(1) by simp
  have "length bs < length (bs @ e # es)" by simp
  then have e: "entry_ok f e" "inputs (baseTransaction (be_bl e)) = [BaseInput (of_nat (length bs))]" "length bs < 2 ^ 32"
    using Cons.prems(1) by (auto simp: blocks_ok_def dest!: spec [where x = "length bs"])
  let ?g = "generated_of (map (\<lambda>e. length (transactionHashes (be_bl e)) + 1) (bs @ [e]))"
  have "unat (of_nat (length bs) :: uint32) = length bs" using e(3) by (simp add: unat_of_nat_small)
  moreover have "base_block_index (be_bl e) = Some (of_nat (length bs))" by (simp add: base_block_index_def e(2))
  ultimately have g: "GeneratedTransactionsIndex_add (be_bl e) (m_generatedTransactionsIndex bc) = Some (True, ?g)"
    using generated_add [of "be_bl e" "of_nat (length bs)" "map (\<lambda>e. length (transactionHashes (be_bl e)) + 1) bs"] Cons.prems(3) e(3) by simp
  have t: "snd (TimestampBlocksIndex_add (timestamp (be_bl e)) (block_id f e) (bc_timestampIndex bc)) =
      sort_key fst (map (\<lambda>e. (timestamp (be_bl e), block_id f e)) (bs @ [e]))"
    using Cons.prems(2) by (simp add: timestamps_snoc)
  have f: "fold (\<lambda>x p. snd (PaymentIdIndex_add f (te_tx x) p)) xs p = add_payments f (map te_tx xs) p" for xs p
    by (simp add: fold_map comp_def)
  have len: "\<not> 65535 < length (be_transactions e)" using e(1) by (simp add: entry_ok_def)
  let ?bc = "bc\<lparr>m_generatedTransactionsIndex := ?g,
    bc_timestampIndex := sort_key fst (map (\<lambda>e. (timestamp (be_bl e), block_id f e)) (bs @ [e])),
    m_tables := (m_tables bc)\<lparr>ct_paymentIdIndex := add_payments f (map te_tx (be_transactions e)) (ct_paymentIdIndex (m_tables bc))\<rparr>\<rparr>"
  have "rebuild_indices_loop E (e # es) bc = rebuild_indices_loop E es ?bc"
    using len by (simp add: assms(1) [symmetric] g t f del: map_append)
  then show ?case using Cons.IH [OF ok, of ?bc] by simp
qed

lemma rebuildIndices_eq:
  assumes "chain_inv E elems bc" "m_blocks s = m_blocks bc" "lastGeneratedTxNumber (m_generatedTransactionsIndex s) = 0"
  shows "rebuildIndices E s = Inr (s\<lparr>m_tables := (m_tables s)\<lparr>ct_paymentIdIndex := ct_paymentIdIndex (m_tables bc)\<rparr>,
    bc_timestampIndex := bc_timestampIndex bc, m_generatedTransactionsIndex := m_generatedTransactionsIndex bc\<rparr>)"
proof -
  let ?f = "ce_fast_hash E" and ?g = "m_generatedTransactionsIndex s"
  note I = assms(1) [unfolded chain_inv_def Let_def]
  have "ct_paymentIdIndex (m_tables bc) = add_payments ?f (chain_transactions (m_blocks bc)) {#}"
    using I tables_of_payments by (fastforce simp: chain_tables_new_def)
  moreover have "GeneratedTransactionsIndex_clear ?g = generated_of []" using assms(3) by (simp add: GeneratedTransactionsIndex_clear_def generated_of_def)
  moreover have "blocks_ok ?f ([] @ m_blocks bc)" using I by simp
  ultimately show ?thesis
    using rebuild_indices_loop_eq [OF refl, of E "[]" "m_blocks bc" "s\<lparr>m_tables := (m_tables s)\<lparr>ct_paymentIdIndex := {#}\<rparr>, bc_timestampIndex := [],
        m_generatedTransactionsIndex := generated_of []\<rparr>"] I assms(2)
    by (simp add: rebuildIndices_def TimestampBlocksIndex_clear_def PaymentIdIndex_clear_def)
qed

section \<open>Removing a block returns\<close>

lemma push_entry_rest:
  assumes "push_entry E C e i bc = Inr bc'"
  shows "blockPushed (ce_currency E) (map be_bl (m_blocks bc @ [e])) (m_upgradeDetectorV2 bc) = Some (m_upgradeDetectorV2 bc') \<and>
    blockPushed (ce_currency E) (map be_bl (m_blocks bc @ [e])) (m_upgradeDetectorV3 bc) = Some (m_upgradeDetectorV3 bc') \<and>
    m_orthanBlocksIndex bc' = m_orthanBlocksIndex bc \<and> m_alternative_chains bc' = m_alternative_chains bc \<and> m_checkpoints bc' = m_checkpoints bc"
  using assms by (elim push_entry_fields) simp

lemma popBlock_rest:
  assumes "popBlock E C T time now h bc p = Inr (bc', p')" "m_blocks bc = bs @ [e]"
  shows "blockPopped (ce_currency E) (map be_bl bs) (m_upgradeDetectorV2 bc) = Some (m_upgradeDetectorV2 bc') \<and>
    blockPopped (ce_currency E) (map be_bl bs) (m_upgradeDetectorV3 bc) = Some (m_upgradeDetectorV3 bc') \<and>
    m_orthanBlocksIndex bc' = m_orthanBlocksIndex bc \<and> m_alternative_chains bc' = m_alternative_chains bc \<and>
    m_checkpoints bc' = m_checkpoints bc \<and> m_current_block_cumul_sz_limit bc' = m_current_block_cumul_sz_limit bc"
  by (rule popBlock_fields [OF assms]) simp

lemma block_deposits_unique: "block_deposits c bs ds \<Longrightarrow> block_deposits c bs ds' \<Longrightarrow> ds = ds'"
  unfolding block_deposits_def by (intro nth_equalityI) (auto intro!: prod_eqI)

lemma chain_inv_unique:
  assumes "chain_inv E elems bc" "chain_inv E elems bc'" "m_blocks bc = m_blocks bc'"
  shows "m_tables bc = m_tables bc'" "bc_timestampIndex bc = bc_timestampIndex bc'" "m_depositIndex bc = m_depositIndex bc'"
    "m_generatedTransactionsIndex bc = m_generatedTransactionsIndex bc'" "elems (m_blockIndex bc) = elems (m_blockIndex bc')"
proof -
  note I = assms(1,2) [unfolded chain_inv_def Let_def]
  obtain ds where d: "deposit_pushes ds DepositIndex_new = Some (m_depositIndex bc)" "block_deposits (ce_currency E) (m_blocks bc) ds"
    using I(1) by blast
  obtain ds' where d': "deposit_pushes ds' DepositIndex_new = Some (m_depositIndex bc')" "block_deposits (ce_currency E) (m_blocks bc') ds'"
    using I(2) by blast
  have "ds = ds'" using block_deposits_unique [OF d(2)] d'(2) unfolding assms(3) .
  then show "m_depositIndex bc = m_depositIndex bc'" using d(1) d'(1) by simp
qed (use assms in \<open>simp_all add: chain_inv_def Let_def\<close>)

context unique_sequence
begin

lemma sizes_agree_iff: "length (m_blocks bc) < 2 ^ 32 \<Longrightarrow> length (elems (m_blockIndex bc)) = length (m_blocks bc) \<Longrightarrow> sizes_agree C bc"
  by (simp add: sizes_agree_def BlockIndex_size_def size_elems word_unat_eq_iff unat_ucast_up unat_of_nat_small)

lemma popBlock_returns:
  assumes inv: "chain_inv E elems bc" and bs: "m_blocks bc = bs @ [e]" and f: "f = ce_fast_hash E"
    and save: "saveTransactions E C T time now bc (map te_tx (tl (be_transactions e))) (of_nat (length (m_blocks bc))) p = Inr p'"
  shows "\<exists>bc'. popBlock E C T time now h bc p = Inr (bc', p')"
proof -
  let ?c = "ce_currency E"
  note I = inv [unfolded chain_inv_def Let_def, folded f]
  have ok: "entry_ok f e" "inputs (baseTransaction (be_bl e)) = [BaseInput (of_nat (length bs))]" "Suc (length bs) < 2 ^ 32"
    using I by (auto simp: bs blocks_ok_snoc)
  have "tables_of f 0 (bs @ [e]) chain_tables_new = Some (m_tables bc)" using I by (simp add: bs)
  then obtain t where t: "popTransactions f (be_bl e) (be_transactions e) (tx_id f (baseTransaction (be_bl e))) (m_tables bc) = Inr t"
    using ok(1) by (elim tables_pop)
  have "unat (of_nat (length bs) :: uint32) = length bs" using ok(3) by (simp add: unat_of_nat_small)
  moreover have "base_block_index (be_bl e) = Some (of_nat (length bs))" by (simp add: base_block_index_def ok(2))
  ultimately obtain x g where g: "GeneratedTransactionsIndex_remove (be_bl e) (m_generatedTransactionsIndex bc) = Some (x, g)"
    using generated_remove [of "be_bl e" "of_nat (length bs)" "map (\<lambda>e. length (transactionHashes (be_bl e)) + 1) (bs @ [e])"] I ok(3)
    by (auto simp: bs)
  obtain ds where ds': "deposit_pushes ds DepositIndex_new = Some (m_depositIndex bc)" "block_deposits ?c (bs @ [e]) ds"
    using I unfolding bs by blast
  then have ds: "deposit_pushes ds DepositIndex_new = Some (m_depositIndex bc)" "length ds = Suc (length bs)" by (simp_all add: block_deposits_def)
  then have "deposit_repr (m_depositIndex bc) ds" using deposit_pushes_repr [OF ds(1) deposit_repr_new] ok(3) by simp
  then obtain d where d: "DepositIndex_popBlock (m_depositIndex bc) = Some d" using deposit_repr_pop [of "m_depositIndex bc" ds] ds(2) by fastforce
  have pop: "\<exists>v'. blockPopped ?c (map be_bl bs) v = Some v'" if "detector_ok ?c (Suc (length bs)) v" for v
    using that by (auto simp: blockPopped_def detector_ok_def)
  have "detector_ok ?c (Suc (length bs)) (m_upgradeDetectorV2 bc)" "detector_ok ?c (Suc (length bs)) (m_upgradeDetectorV3 bc)" using I by (simp_all add: bs)
  then obtain v2 v3 where v: "blockPopped ?c (map be_bl bs) (m_upgradeDetectorV2 bc) = Some v2" "blockPopped ?c (map be_bl bs) (m_upgradeDetectorV3 bc) = Some v3"
    using pop by meson
  have "length (elems (BlockIndex_pop C (m_blockIndex bc))) = length bs" using popped_inv(3) [OF inv bs f t g] by simp
  then have agree: "sizes_agree C (bc\<lparr>m_tables := t', m_generatedTransactionsIndex := g', m_depositIndex := d', bc_timestampIndex := s,
      m_blocks := bs, m_blockIndex := BlockIndex_pop C (m_blockIndex bc)\<rparr>)" for t' g' d' s
    using ok(3) by (intro sizes_agree_iff) simp_all
  have "be_transactions e \<noteq> []" using ok(1) by (auto simp: entry_ok_def)
  then show ?thesis using save t g d v agree unfolding popBlock_def Let_def by (simp add: bs f)
qed

lemma pop_undoes_push:
  assumes inv: "chain_inv E elems bc" and push: "pushBlock E C time b txs h bvc bc = Inr (True, bvc', bc')"
    and zone: "\<not> isInCheckpointZone bc (getCurrentBlockchainHeight bc)" and offer: "offered f bc b txs" and f: "f = ce_fast_hash E"
    and h: "h = get_block_hash_value f b" and len: "Suc (length (m_blocks bc)) < 2 ^ 32"
    and save: "saveTransactions E C T time' now bc' txs (of_nat (length (m_blocks bc'))) p = Inr p'"
  shows "\<exists>ix. popBlock E C T time' now h bc' p = Inr (bc\<lparr>m_blockIndex := ix, m_current_block_cumul_sz_limit := m_current_block_cumul_sz_limit bc'\<rparr>, p') \<and>
    elems ix = elems (m_blockIndex bc)"
proof -
  let ?c = "ce_currency E"
  obtain e where e: "m_blocks bc' = m_blocks bc @ [e]" "accepted_entry f (length (m_blocks bc)) b txs e" and inv': "chain_inv E elems bc'"
    using pushBlock_inv [OF inv push zone offer f h len] by blast
  have tl: "map te_tx (tl (be_transactions e)) = txs" using e(2) by (simp add: accepted_entry_def map_tl)
  obtain bc'' where pop: "popBlock E C T time' now h bc' p = Inr (bc'', p')"
    using popBlock_returns [OF inv' e(1) f, unfolded tl, OF save] by blast
  have h': "h = block_id f e" using e(2) h by (simp add: accepted_entry_def)
  have inv'': "chain_inv E elems bc''" "m_blocks bc'' = m_blocks bc" using popBlock_inv [OF inv' pop e(1) h' f] by simp_all
  obtain d where d: "push_validated E C time b txs d bvc bc = Inr (True, bvc', bc')" using pushBlock_cases [OF push] by auto
  obtain st :: push_state and i e' where entry: "push_entry E C e' i (bc\<lparr>m_tables := ps_tables st\<rparr>) = Inr bc'"
    by (rule push_validated_True [OF d]) (rule that)
  have undo: "blockPopped ?c (map be_bl (m_blocks bc)) v' = Some v"
    if "detector_ok ?c (length (m_blocks bc)) v" "blockPushed ?c (map be_bl (m_blocks bc @ [e'])) v = Some v'" for v v'
    using blockPushed_ok [OF that(2) _ len that(1)] that(1) len
    by (intro blockPopped_undo [where n = "length (m_blocks bc)"]) (auto simp: detector_ok_def of_nat_defined)
  have v2: "m_upgradeDetectorV2 bc'' = m_upgradeDetectorV2 bc" and v3: "m_upgradeDetectorV3 bc'' = m_upgradeDetectorV3 bc"
    and rest: "m_orthanBlocksIndex bc'' = m_orthanBlocksIndex bc" "m_alternative_chains bc'' = m_alternative_chains bc" "m_checkpoints bc'' = m_checkpoints bc"
      "m_current_block_cumul_sz_limit bc'' = m_current_block_cumul_sz_limit bc'"
    using push_entry_rest [OF entry] popBlock_rest [OF pop e(1)] undo [of "m_upgradeDetectorV2 bc"] undo [of "m_upgradeDetectorV3 bc"] inv
    by (simp_all add: chain_inv_def Let_def)
  have same: "m_tables bc'' = m_tables bc" "bc_timestampIndex bc'' = bc_timestampIndex bc" "m_depositIndex bc'' = m_depositIndex bc"
      "m_generatedTransactionsIndex bc'' = m_generatedTransactionsIndex bc" "elems (m_blockIndex bc'') = elems (m_blockIndex bc)"
    using chain_inv_unique [OF inv''(1) inv inv''(2)] by simp_all
  have "bc'' = bc\<lparr>m_blockIndex := m_blockIndex bc'', m_current_block_cumul_sz_limit := m_current_block_cumul_sz_limit bc'\<rparr>"
    using v2 v3 rest same inv''(2) by (cases bc, cases bc'') simp
  then show ?thesis using pop same(5) by auto
qed

end

end
