(* ===== verification/ChainRun.thy ===== *)
theory ChainRun
  imports ChainProperties
begin

text \<open>
  The chain over its whole life: the states that blocks added, refused and removed in any order lead to,
  and what holds in all of them.
\<close>

section \<open>Histories\<close>

text \<open>Above the checkpoints, blocks come with transactions that have passed the semantic checks. A block that
  is refused for its size is not in this relation: it leaves the tables changed.\<close>

inductive chain_run :: "chain_env \<Rightarrow> 'b hash_container \<Rightarrow> 'c tx_container \<Rightarrow> 'b Blockchain \<Rightarrow> bool" for E C T where
  start: "mi_size C ix = 0 \<Longrightarrow> chain_run E C T (Blockchain_new ix)"
| setCheckpoints: "chain_run E C T bc \<Longrightarrow> chain_run E C T (bc\<lparr>m_checkpoints := cps\<rparr>)"
| alternatives: "chain_run E C T bc \<Longrightarrow> chain_run E C T (bc\<lparr>m_alternative_chains := alts, m_orthanBlocksIndex := ix\<rparr>)"
| added: "chain_run E C T bc \<Longrightarrow> \<not> isInCheckpointZone bc (getCurrentBlockchainHeight bc) \<Longrightarrow> offered (ce_fast_hash E) bc b txs \<Longrightarrow>
    Suc (length (m_blocks bc)) < 2 ^ 32 \<Longrightarrow>
    pushBlock E C time b txs (get_block_hash_value (ce_fast_hash E) b) bvc bc = Inr (True, bvc', bc') \<Longrightarrow> chain_run E C T bc'"
| refused: "chain_run E C T bc \<Longrightarrow> \<not> isInCheckpointZone bc (getCurrentBlockchainHeight bc) \<Longrightarrow> offered (ce_fast_hash E) bc b txs \<Longrightarrow>
    \<not> oversized E time b txs bc \<Longrightarrow>
    pushBlock E C time b txs (get_block_hash_value (ce_fast_hash E) b) bvc bc = Inr (False, bvc', bc') \<Longrightarrow> chain_run E C T bc'"
| removed: "chain_run E C T bc \<Longrightarrow> m_blocks bc \<noteq> [] \<Longrightarrow>
    popBlock E C T time now (block_id (ce_fast_hash E) (last (m_blocks bc))) bc p = Inr (bc', p') \<Longrightarrow> chain_run E C T bc'"

text \<open>Each block names the one before it.\<close>

definition linked :: "(bytes \<Rightarrow> Hash) \<Rightarrow> BlockEntry list \<Rightarrow> bool" where
  "linked f bs \<longleftrightarrow> (\<forall>i < length bs. previousBlockHash (be_bl (bs ! i)) = (if i = 0 then NULL_HASH else block_id f (bs ! (i - 1))))"

lemma linked_snoc:
  "linked f (bs @ [e]) \<longleftrightarrow> linked f bs \<and> previousBlockHash (be_bl e) = (if bs = [] then NULL_HASH else block_id f (last bs))"
  by (auto simp: linked_def nth_append last_conv_nth less_Suc_eq)

context unique_sequence
begin

lemma tail_id:
  assumes "elems (m_blockIndex bc) = map (block_id f) (m_blocks bc)"
  shows "Blockchain_getTailId C bc = Inr (if m_blocks bc = [] then NULL_HASH else block_id f (last (m_blocks bc)))"
  using assms by (auto simp: Blockchain_getTailId_def getTailId_def size_elems at_elems last_conv_nth)

lemma chain_run_inv: "chain_run E C T bc \<Longrightarrow> chain_inv E elems bc \<and> linked (ce_fast_hash E) (m_blocks bc)"
proof (induction rule: chain_run.induct)
  case (start ix)
  then have "elems ix = []" by (simp add: size_elems)
  then show ?case using chain_inv_new [of elems ix E] by (simp add: linked_def Blockchain_new_def)
next
  case (setCheckpoints bc cps)
  then show ?case by (simp add: chain_inv_def)
next
  case (alternatives bc alts ix)
  then show ?case by (simp add: chain_inv_def)
next
  case (added bc b txs time bvc bvc' bc')
  have inv: "chain_inv E elems bc" "linked (ce_fast_hash E) (m_blocks bc)" using added.IH by simp_all
  obtain e where e: "m_blocks bc' = m_blocks bc @ [e]" "be_bl e = b" and inv': "chain_inv E elems bc'"
    using pushBlock_inv [OF inv(1) added.hyps(5,2,3) refl refl added.hyps(4)] by (auto simp: accepted_entry_def)
  have "Blockchain_getTailId C bc = Inr (previousBlockHash b)"
    using pushBlock_cases [OF added.hyps(5)] by (auto simp: block_checks_def Let_def)
  moreover have "elems (m_blockIndex bc) = map (block_id (ce_fast_hash E)) (m_blocks bc)" using inv(1) by (simp add: chain_inv_def Let_def)
  ultimately show ?case using inv' inv(2) tail_id [of bc "ce_fast_hash E"] by (simp add: e linked_snoc)
next
  case (refused bc b txs time bvc bvc' bc')
  then have "bc' = bc"
    using pushBlock_refused [OF refused.hyps(5) refl _ _ refused.hyps(2-4)] by (simp add: chain_inv_def Let_def)
  then show ?case using refused.IH by simp
next
  case (removed bc time now p bc' p')
  obtain bs e where bs: "m_blocks bc = bs @ [e]" using removed.hyps(2) by (cases "m_blocks bc" rule: rev_exhaust) auto
  have "chain_inv E elems bc' \<and> m_blocks bc' = bs"
    using removed.IH removed.hyps(3) by (intro popBlock_inv [OF _ _ bs _ refl]) (auto simp: bs)
  then show ?case using removed.IH by (simp add: bs linked_snoc)
qed

end

section \<open>Sums over the transactions of a block\<close>

definition tx_fee :: "Currency \<Rightarrow> uint32 \<Rightarrow> Transaction \<Rightarrow> uint64 option" where
  "tx_fee c height tx = map_option (\<lambda>i. if i < getOutputAmount tx then MINIMUM_FEE else i - getOutputAmount tx) (getTransactionAllInputsAmount c tx height)"

definition tx_size :: "Transaction \<Rightarrow> uint64 option" where
  "tx_size tx = map_option (\<lambda>blob. of_nat (length blob)) (toBinaryArray out_Transaction tx)"

lemma push_loop_sums:
  "push_loop E time bc b m txs hs st = Inr (True, st') \<Longrightarrow>
   add_calls (tx_fee (ce_currency E) (of_nat (length (m_blocks bc)))) txs (ps_fee_summary st) = Some (ps_fee_summary st') \<and>
   add_calls tx_size txs (ps_cumulative_size st) = Some (ps_cumulative_size st')"
proof (induction txs arbitrary: hs st)
  case (Cons tx txs)
  then obtain h hs' where hs: "hs = h # hs'" by (cases hs) auto
  obtain es ix i c a s where a: "tx_fee (ce_currency E) (of_nat (length (m_blocks bc))) tx = Some a" "tx_size tx = Some s"
    and rest: "push_loop E time bc b m txs hs' \<lparr>ps_transactions = es, ps_transactionIndex = ix, ps_cumulative_size = ps_cumulative_size st + s,
      ps_fee_summary = ps_fee_summary st + a, ps_interestSummary = i, ps_tables = c\<rparr> = Inr (True, st')"
    using Cons.prems unfolding hs by (auto simp: Let_def ebind_Inr_iff tx_fee_def tx_size_def split: if_splits)
  show ?case using Cons.IH [OF rest] a by simp
qed simp

lemma push_transactions_sums:
  assumes "push_transactions E time b txs bc = Inr (True, st)"
  shows "add_calls (tx_fee (ce_currency E) (of_nat (length (m_blocks bc)))) txs 0 = Some (ps_fee_summary st) \<and>
    add_calls tx_size txs (snd (getObjectBinarySize out_Transaction (baseTransaction b))) = Some (ps_cumulative_size st)"
  using assms push_loop_sums by (fastforce simp: push_transactions_def Let_def ebind_Inr_iff)

lemma miner_transaction_valid:
  assumes "validate_miner_transaction c bc b height sz minted fees = Inr (True, reward, emission)"
  shows "getBlockReward c (medianValue (get_last_n_blocks_sizes bc (m_rewardBlocksWindow c))) sz minted fees height = Return (reward, emission) \<and>
    (290700 \<le> height \<longrightarrow> fold (\<lambda>out r. r + amount out) (outputs (baseTransaction b)) 0 = reward)"
  using assms by (auto simp: validate_miner_transaction_def Let_def not_less split: call.splits if_splits)

lemma block_checks_facts:
  assumes "block_checks E C time b h bc d" "c = ce_currency E" "height = getCurrentBlockchainHeight bc"
  shows "Blockchain_getTailId C bc = Inr (previousBlockHash b)" "majorVersion b = get_block_major_version_for_height c bc (ucast height)"
    and "timestamp b \<le> time + m_blockFutureTimeLimit c" "getDifficultyForNextBlock c bc = Inr d" "d \<noteq> 0"
    and "if isInCheckpointZone bc height then check_block (m_checkpoints bc) height h
      else \<exists>pow. get_block_longhash (ce_fast_hash E) (ce_slow_hashes E) b = Some pow \<and> unat pow * unat d < 2 ^ 256"
    and "inputs (baseTransaction b) = [BaseInput height]" "unlockTime (baseTransaction b) = ucast height + m_minedMoneyUnlockWindow c"
proof -
  note K = assms(1) [unfolded block_checks_def Let_def, folded assms(2,3)]
  show i: "inputs (baseTransaction b) = [BaseInput height]" "unlockTime (baseTransaction b) = ucast height + m_minedMoneyUnlockWindow c"
    using K prevalidated [of E b height] by (simp_all add: assms(2))
  show "majorVersion b = get_block_major_version_for_height c bc (ucast height)" using K i by (simp add: checkBlockVersion_def get_block_height_def)
  show "timestamp b \<le> time + m_blockFutureTimeLimit c" using K by (simp add: check_block_timestamp_main_def not_less split: if_splits)
  show "if isInCheckpointZone bc height then check_block (m_checkpoints bc) height h
      else \<exists>pow. get_block_longhash (ce_fast_hash E) (ce_slow_hashes E) b = Some pow \<and> unat pow * unat d < 2 ^ 256"
    using K by (simp add: checkProofOfWork_def check_hash_iff split: if_splits option.splits)
qed (use assms in \<open>simp_all add: block_checks_def Let_def\<close>)

lemma pushBlock_checked: "block_checks E C time b h bc d \<Longrightarrow> pushBlock E C time b txs h bvc bc = push_validated E C time b txs d bvc bc"
  by (auto simp: block_checks_def pushBlock_def Let_def hasBlock_def getBlockHeight_def)

lemma oversized_kept:
  assumes "block_checks E C time b h bc d" "oversized E time b txs bc" "pushBlock E C time b txs h bvc bc = Inr (r, bvc', bc')"
  obtains st where "push_transactions E time b txs bc = Inr (True, st)" "bc' = bc\<lparr>m_tables := ps_tables st\<rparr>"
  using assms by (auto simp: pushBlock_checked oversized_def push_validated_def Let_def)

section \<open>A chain of one block\<close>

text \<open>The default currency, primitives that accept everything and hash to zero, and a first block.\<close>

definition sample_env :: "Currency \<Rightarrow> chain_env" where
  "sample_env c = \<lparr>ce_currency = c, ce_fast_hash = (\<lambda>_. 0),
     ce_slow_hashes = \<lparr>cn_slow_hash = (\<lambda>_. 0), cn_fast_slow_hash_v1 = (\<lambda>_. 0), cn_conceal_slow_hash_v0 = (\<lambda>_. 0)\<rparr>,
     ce_check_key = (\<lambda>_. True), ce_check_signature = (\<lambda>_ _ _. True), ce_check_ring_signature = (\<lambda>_ _ _ _. True),
     ce_scalarmultKey = (\<lambda>_ _. key_I)\<rparr>"

definition first_base :: Transaction where
  "first_base = \<lparr>version = 1, unlockTime = CRYPTONOTE_MINED_MONEY_UNLOCK_WINDOW, inputs = [BaseInput 0],
     outputs = [\<lparr>amount = 7, target = KeyOutput 3\<rparr>], extra = [], signatures = [[]]\<rparr>"

definition first_block :: Block where
  "first_block = \<lparr>majorVersion = 1, minorVersion = 0, nonce = 0, timestamp = 5, previousBlockHash = 0,
     baseTransaction = first_base, transactionHashes = []\<rparr>"

abbreviation sample_chain :: "Hash dlist Blockchain" where
  "sample_chain \<equiv> Blockchain_new Dlist.empty"

lemma sample_currency:
  obtains c where "CurrencyBuilder_new = Some c" "m_upgradeHeightV2 c = ucast UPGRADE_HEIGHT_V2" "m_upgradeHeightV3 c = ucast UPGRADE_HEIGHT_V3"
    "m_minedMoneyUnlockWindow c = CRYPTONOTE_MINED_MONEY_UNLOCK_WINDOW" "m_blockFutureTimeLimit c = CRYPTONOTE_BLOCK_FUTURE_TIME_LIMIT"
    "m_timestampCheckWindow c = BLOCKCHAIN_TIMESTAMP_CHECK_WINDOW" "m_moneySupply c = MONEY_SUPPLY" "2 \<le> m_difficultyWindow c"
    "m_blockGrantedFullRewardZone c = CRYPTONOTE_BLOCK_GRANTED_FULL_REWARD_ZONE" "m_maxBlockSizeInitial c = MAX_BLOCK_SIZE_INITIAL"
    "m_maxBlockSizeGrowthSpeedNumerator c = MAX_BLOCK_SIZE_GROWTH_SPEED_NUMERATOR"
    "m_maxBlockSizeGrowthSpeedDenominator c = MAX_BLOCK_SIZE_GROWTH_SPEED_DENOMINATOR"
  by (simp add: CurrencyBuilder_new_def set_difficultyWindow_def set_upgradeVotingThreshold_def set_upgradeWindow_def
      set_numberOfDecimalPlaces_def config)

lemma first_fields:
  "version first_base = 1" "unlockTime first_base = CRYPTONOTE_MINED_MONEY_UNLOCK_WINDOW" "inputs first_base = [BaseInput 0]"
  "outputs first_base = [\<lparr>amount = 7, target = KeyOutput 3\<rparr>]" "extra first_base = []" "signatures first_base = [[]]"
  "majorVersion first_block = 1" "timestamp first_block = 5" "previousBlockHash first_block = 0" "baseTransaction first_block = first_base"
  "transactionHashes first_block = []"
  by (simp_all add: first_base_def first_block_def)

lemma sample_env_fields:
  "ce_currency (sample_env c) = c" "ce_fast_hash (sample_env c) = (\<lambda>_. 0)" "ce_check_key (sample_env c) = (\<lambda>_. True)"
  "cn_slow_hash (ce_slow_hashes (sample_env c)) = (\<lambda>_. 0)"
  by (simp_all add: sample_env_def)

lemma sample_new:
  "m_blocks sample_chain = []" "m_tables sample_chain = chain_tables_new" "m_upgradeDetectorV2 sample_chain = UpgradeDetector_new BLOCK_MAJOR_VERSION_2"
  "m_upgradeDetectorV3 sample_chain = UpgradeDetector_new BLOCK_MAJOR_VERSION_3" "getCurrentBlockchainHeight sample_chain = 0"
  "m_checkpoints sample_chain = Checkpoints_new" "m_blockIndex sample_chain = Dlist.empty" "\<not> isInCheckpointZone sample_chain h"
  by (simp_all add: Blockchain_new_def getCurrentBlockchainHeight_def isInCheckpointZone_def is_in_checkpoint_zone_def Checkpoints_new_def)

lemma first_wf: "wf_Block first_block" "wf_Transaction first_base"
  by (simp_all add: first_block_def first_base_def wf_Block_def wf_Transaction_def wf_TransactionPrefix_def
      TRANSACTION_VERSION_2_def BLOCK_MAJOR_VERSION_3_def max_container_size_def wf_TransactionInput_def wf_TransactionOutput_def getSignaturesCount_def)

lemma first_hash: "get_block_hash_value (\<lambda>_. 0) first_block = 0"
  by (auto simp: get_block_hash_value_def get_block_hash_def getObjectHash_def toBinaryArray_def getBinaryArrayHash_def NULL_HASH_def split: option.splits sum.splits)

lemma sample_checks:
  assumes "m_upgradeHeightV2 c = ucast UPGRADE_HEIGHT_V2" "m_upgradeHeightV3 c = ucast UPGRADE_HEIGHT_V3"
    "m_minedMoneyUnlockWindow c = CRYPTONOTE_MINED_MONEY_UNLOCK_WINDOW" "m_blockFutureTimeLimit c = CRYPTONOTE_BLOCK_FUTURE_TIME_LIMIT"
    "m_timestampCheckWindow c = BLOCKCHAIN_TIMESTAMP_CHECK_WINDOW" "2 \<le> m_difficultyWindow c"
  shows "block_checks (sample_env c) dlist_container 5 first_block 0 sample_chain 1"
proof -
  have "checkBlockVersion c sample_chain first_block"
    using assms by (simp add: checkBlockVersion_def first_fields get_block_height_def get_block_major_version_for_height_def
       sample_new UpgradeDetector_new_def detector_upgradeHeight_def upgradeHeight_def config)
  moreover have "getDifficultyForNextBlock c sample_chain = Inr 1"
    using assms by (simp add: getDifficultyForNextBlock_def next_difficulty_def sample_new get_block_major_version_for_height_def
       UpgradeDetector_new_def detector_upgradeHeight_def upgradeHeight_def config nextDifficulty_def UNDEF_HEIGHT_def word_le_nat_alt [of 3])
  moreover have "check_block_timestamp_main c 5 sample_chain first_block"
    using assms by (simp add: check_block_timestamp_main_def sample_new check_block_timestamp_def first_fields config)
  moreover have "checkProofOfWork (\<lambda>_. 0) (ce_slow_hashes (sample_env c)) first_block 1"
    using get_block_hashing_blob_wf [OF first_wf(1), of "\<lambda>_. 0"]
    by (auto simp: checkProofOfWork_def get_block_longhash_def first_fields sample_env_fields check_hash_iff word_le_nat_alt [of 3])
  moreover have "prevalidate_miner_transaction (sample_env c) first_block 0 = Inr True"
    using assms by (simp add: prevalidate_miner_transaction_def first_fields sample_env_fields check_outs_valid_def check_outs_overflow_def check_out_def)
  moreover have "Blockchain_getTailId dlist_container sample_chain = Inr 0" "\<not> hasBlock dlist_container Dlist.empty 0"
    by (simp_all add: Blockchain_getTailId_def sample_new NULL_HASH_def hasBlock_def dlc.find_none)
  ultimately show ?thesis by (simp add: block_checks_def sample_new sample_env_fields first_fields)
qed

lemma first_size: "snd (getObjectBinarySize out_Transaction first_base) = 41"
  by code_simp

lemma first_id: "tx_id (\<lambda>_. 0) first_base = 0"
  by (simp add: getObjectHash_def getBinaryArrayHash_def NULL_HASH_def split: option.splits)

lemma first_pushed:
  "\<exists>st :: push_state. push_transactions (sample_env c) 5 first_block [] sample_chain = Inr (True, st) \<and> ps_cumulative_size st = 41 \<and>
     ps_fee_summary st = 0 \<and> ps_interestSummary st = 0 \<and> map te_tx (ps_transactions st) = [first_base]"
  by (simp add: push_transactions_def first_fields sample_new sample_env_fields pushTransaction_def chain_tables_new_def checkMultisignatureInputsDiff_def
      first_size Let_def)

lemma first_entry:
  assumes "m_upgradeHeightV2 c = ucast UPGRADE_HEIGHT_V2" "m_upgradeHeightV3 c = ucast UPGRADE_HEIGHT_V3"
    and e: "be_bl e = first_block" "map te_tx (be_transactions e) = [first_base]"
  shows "\<exists>bc. push_entry (sample_env c) dlist_container e 0 (sample_chain\<lparr>m_tables := t\<rparr>) = Inr bc"
proof -
  obtain x where x: "be_transactions e = [x]" "te_tx x = first_base" using e(2) by auto
  have "\<exists>g. GeneratedTransactionsIndex_add first_block (generated_of []) = Some (True, g)"
    using generated_add [of first_block 0 "[]"] by (simp add: base_block_index_def first_fields)
  then obtain g where g: "GeneratedTransactionsIndex_add first_block (m_generatedTransactionsIndex sample_chain) = Some (True, g)"
    by (auto simp: Blockchain_new_def generated_of_def GeneratedTransactionsIndex_new_def)
  have index: "list_of_dlist (fst (BlockIndex_push dlist_container Dlist.empty 0)) = [0]"
    using dlc.pushed_elems [of Dlist.empty 0] by (simp add: hasBlock_def dlc.find_none)
  have agree: "sizes_agree dlist_container bc" if "m_blocks bc = [e]" "m_blockIndex bc = fst (BlockIndex_push dlist_container Dlist.empty 0)" for bc :: "Hash dlist Blockchain"
    using that index by (intro dlc.sizes_agree_iff) simp_all
  have d: "\<exists>d. DepositIndex_pushBlock (m_depositIndex sample_chain) 0 0 = Some d"
    by (simp add: Blockchain_new_def DepositIndex_pushBlock_def DepositIndex_new_def sumWillOverflow_int64_def sumWillOverflow_uint64_def)
  have v: "\<exists>v. blockPushed c [first_block] (UpgradeDetector_new BLOCK_MAJOR_VERSION_2) = Some v"
      "\<exists>v. blockPushed c [first_block] (UpgradeDetector_new BLOCK_MAJOR_VERSION_3) = Some v"
    using assms(1,2) by (auto simp: blockPushed_def UpgradeDetector_new_def upgradeHeight_def first_fields config UNDEF_HEIGHT_def)
  show ?thesis
    using g d v agree unfolding push_entry_def pushBlock_entry_def pushToDepositIndex_def
    by (auto simp: sample_new sample_env_fields e x first_hash first_fields deposit_of_def)
qed

lemma first_offered: "offered (\<lambda>_. 0) sample_chain first_block []"
  by (simp add: offered_def first_fields sample_new)

lemma sample_run: "chain_run E dlist_container T sample_chain"
  by (rule chain_run.start) (simp add: dlc.size_elems)

lemma sample_added:
  obtains c bvc bc e where "CurrencyBuilder_new = Some c"
    "pushBlock (sample_env c) dlist_container 5 first_block [] 0 bvc_new sample_chain = Inr (True, bvc, bc)"
    "m_blocks bc = [e]" "be_bl e = first_block" "map te_tx (be_transactions e) = [first_base]" "getDifficultyForNextBlock c sample_chain = Inr 1"
proof -
  obtain c where c: "CurrencyBuilder_new = Some c" "m_upgradeHeightV2 c = ucast UPGRADE_HEIGHT_V2" "m_upgradeHeightV3 c = ucast UPGRADE_HEIGHT_V3"
    "m_minedMoneyUnlockWindow c = CRYPTONOTE_MINED_MONEY_UNLOCK_WINDOW" "m_blockFutureTimeLimit c = CRYPTONOTE_BLOCK_FUTURE_TIME_LIMIT"
    "m_timestampCheckWindow c = BLOCKCHAIN_TIMESTAMP_CHECK_WINDOW" "m_moneySupply c = MONEY_SUPPLY" "2 \<le> m_difficultyWindow c"
    "m_blockGrantedFullRewardZone c = CRYPTONOTE_BLOCK_GRANTED_FULL_REWARD_ZONE" "m_maxBlockSizeInitial c = MAX_BLOCK_SIZE_INITIAL"
    "m_maxBlockSizeGrowthSpeedNumerator c = MAX_BLOCK_SIZE_GROWTH_SPEED_NUMERATOR"
    "m_maxBlockSizeGrowthSpeedDenominator c = MAX_BLOCK_SIZE_GROWTH_SPEED_DENOMINATOR"
    by (rule sample_currency)
  obtain st :: push_state where st: "push_transactions (sample_env c) 5 first_block [] sample_chain = Inr (True, st)" "ps_cumulative_size st = 41"
      "ps_fee_summary st = 0" "ps_interestSummary st = 0" "map te_tx (ps_transactions st) = [first_base]"
    using first_pushed [of c] by (elim exE conjE)
  have "checkCumulativeBlockSize c 41 0 = Inr True"
    by (simp add: checkCumulativeBlockSize_def maxBlockCumulativeSize_def c config)
  moreover have "\<exists>r em. validate_miner_transaction c sample_chain first_block 0 41 0 0 = Inr (True, r, em)"
  proof -
    have "\<exists>r em. getBlockReward c 0 41 0 0 0 = Return (r, em)"
      by (simp add: getBlockReward_def baseRewardFunction_def c config getPenalizedAmount_def REWARD_INCREASING_FACTOR_def Let_def)
    then show ?thesis by (auto simp: validate_miner_transaction_def get_last_n_blocks_sizes_def sample_new medianValue_def Let_def)
  qed
  then obtain r em where "validate_miner_transaction c sample_chain first_block 0 41 0 0 = Inr (True, r, em)" by blast
  moreover obtain bc where "push_entry (sample_env c) dlist_container \<lparr>be_bl = first_block, be_height = 0, block_cumulative_size = 41,
      cumulative_difficulty = 1, already_generated_coins = em, be_transactions = ps_transactions st\<rparr> 0 (sample_chain\<lparr>m_tables := ps_tables st\<rparr>) = Inr bc"
    using first_entry [OF c(2,3)] st(5) by fastforce
  ultimately have "push_validated (sample_env c) dlist_container 5 first_block [] 1 bvc_new sample_chain =
      Inr (True, bvc_new\<lparr>bvc_added_to_main_chain := True\<rparr>, bc)"
    using st(1-4) by (simp add: push_validated_def Let_def sample_env_fields sample_new)
  then have push: "pushBlock (sample_env c) dlist_container 5 first_block [] 0 bvc_new sample_chain =
      Inr (True, bvc_new\<lparr>bvc_added_to_main_chain := True\<rparr>, bc)"
    by (simp add: pushBlock_checked [OF sample_checks [OF c(2-6,8)]])
  have "\<exists>e. m_blocks bc = [e] \<and> be_bl e = first_block \<and> map te_tx (be_transactions e) = [first_base]"
    using dlc.pushBlock_inv [of "sample_env c", OF chain_inv_new push] first_offered first_hash
    by (auto simp: sample_new sample_env_fields first_fields accepted_entry_def)
  then obtain e where "m_blocks bc = [e]" "be_bl e = first_block" "map te_tx (be_transactions e) = [first_base]" by (elim exE conjE)
  moreover have "getDifficultyForNextBlock c sample_chain = Inr 1"
    using sample_checks [OF c(2-6,8)] by (simp add: block_checks_def Let_def sample_env_fields)
  ultimately show thesis by (rule that [OF c(1) push])
qed

lemma sample_run_added:
  assumes "pushBlock (sample_env c) dlist_container 5 first_block [] 0 bvc_new sample_chain = Inr (True, bvc, bc)"
  shows "chain_run (sample_env c) dlist_container T bc"
  using assms by (intro chain_run.added [OF sample_run, where b = first_block and txs = "[]" and time = 5 and bvc = bvc_new and bvc' = bvc]) (simp_all add: sample_env_fields sample_new first_offered first_hash)

section \<open>Properties\<close>

text \<open>C1: In every state that a chain gets to by adding blocks above the checkpoints, refusing blocks for other reasons
  than their size, and removing blocks, no output is spent twice and the tables agree with the stored blocks,
  provided that the hashes of the transactions concerned do not collide. The key images of all transactions are different and are the spent keys; the deposits claimed are different and
  are those marked as used; the map has the transactions of the blocks and no other; the index has the
  hashes of the blocks, all different, in their order; every block names the one before it, and its miner's
  transaction has its height.\<close>

theorem chain_consistent:
  assumes "unique_sequence C elems" "chain_run E C T bc" "f = ce_fast_hash E" "txs = chain_transactions (m_blocks bc)"
  shows "distinct (images_of txs) \<and> m_spent_keys (m_tables bc) = set (images_of txs) \<and>
    distinct (deposits_of txs) \<and> used_set (m_multisignatureOutputs (m_tables bc)) = ref_of ` set (deposits_of txs) \<and>
    {h. haveTransaction bc h} = tx_id f ` set txs \<and>
    elems (m_blockIndex bc) = map (block_id f) (m_blocks bc) \<and> distinct (map (block_id f) (m_blocks bc)) \<and>
    (\<forall>i < length (m_blocks bc).
      previousBlockHash (be_bl (m_blocks bc ! i)) = (if i = 0 then NULL_HASH else block_id f (m_blocks bc ! (i - 1))) \<and>
      inputs (baseTransaction (be_bl (m_blocks bc ! i))) = [BaseInput (of_nat i)])"
proof -
  note inv = unique_sequence.chain_run_inv [OF assms(1,2), folded assms(3)]
  then have I: "tables_of f 0 (m_blocks bc) chain_tables_new = Some (m_tables bc)" "blocks_ok f (m_blocks bc)" "linked f (m_blocks bc)"
      "elems (m_blockIndex bc) = map (block_id f) (m_blocks bc)"
    by (simp_all add: chain_inv_def Let_def assms(3))
  have h: "holds f txs (m_tables bc)" using holds_tables_of [OF I(1)] by (simp only: assms(4))
  have "distinct (map (block_id f) (m_blocks bc))" using unique_sequence.elems_distinct [OF assms(1), of "m_blockIndex bc"] by (simp only: I(4))
  moreover have "distinct (images_of txs)" "m_spent_keys (m_tables bc) = set (images_of txs)" "distinct (deposits_of txs)"
      "used_set (m_multisignatureOutputs (m_tables bc)) = ref_of ` set (deposits_of txs)"
    using h by (simp_all add: holds_def spends_def chain_tables_new_def used_set_def)
  moreover have "{h. haveTransaction bc h} = tx_id f ` set txs" using h by (auto simp: haveTransaction_def holds_def tx_hashes_def dom_def)
  ultimately show ?thesis using I by (simp add: linked_def blocks_ok_def)
qed

theorem chain_consistent_witness:
  "\<exists>c bvc bc. CurrencyBuilder_new = Some c \<and>
     pushBlock (sample_env c) dlist_container 5 first_block [] 0 bvc_new sample_chain = Inr (True, bvc, bc) \<and>
     {h. haveTransaction bc h} = {0} \<and> list_of_dlist (m_blockIndex bc) = [0] \<and> m_spent_keys (m_tables bc) = {}"
proof -
  obtain c bvc bc e where c: "CurrencyBuilder_new = Some c"
    and push: "pushBlock (sample_env c) dlist_container 5 first_block [] 0 bvc_new sample_chain = Inr (True, bvc, bc)"
    and e: "m_blocks bc = [e]" "be_bl e = first_block" "map te_tx (be_transactions e) = [first_base]" by (rule sample_added)
  have txs: "chain_transactions (m_blocks bc) = [first_base]" by (simp add: e chain_transactions_def)
  note claim = chain_consistent [OF dlc.unique_sequence_axioms sample_run_added [OF push] refl txs [symmetric], unfolded e(1)]
  have "{h. haveTransaction bc h} = {0} \<and> list_of_dlist (m_blockIndex bc) = [0] \<and> m_spent_keys (m_tables bc) = {}"
    using claim by (simp add: sample_env_fields first_id first_hash e(2) first_fields)
  then show ?thesis using c push by blast
qed

text \<open>C3: A node that has only the stored blocks computes everything else from them: \<open>rebuildCache\<close> and the
  computation of the indices give the tables, the indices and the deposits that adding and removing the
  blocks had given. The tables and indices may hold anything before, but for the two that are not cleared:
  the deposit index has to be new and the number of transactions counted so far 0.\<close>

theorem rebuild_restores:
  assumes "unique_sequence C elems" "chain_run E C T bc" "m_blocks s = m_blocks bc"
    and "m_depositIndex s = DepositIndex_new" "lastGeneratedTxNumber (m_generatedTransactionsIndex s) = 0"
  shows "\<exists>ix. elems ix = elems (m_blockIndex bc) \<and>
    ebind (rebuildCache E C s) (rebuildIndices E) = Inr (s\<lparr>m_blockIndex := ix, m_tables := m_tables bc, m_depositIndex := m_depositIndex bc,
      bc_timestampIndex := bc_timestampIndex bc, m_generatedTransactionsIndex := m_generatedTransactionsIndex bc\<rparr>)"
proof -
  have inv: "chain_inv E elems bc" using unique_sequence.chain_run_inv [OF assms(1,2)] by simp
  obtain ix where ix: "rebuildCache E C s = Inr (s\<lparr>m_blockIndex := ix,
      m_tables := (m_tables bc)\<lparr>ct_paymentIdIndex := ct_paymentIdIndex (m_tables s)\<rparr>, m_depositIndex := m_depositIndex bc\<rparr>)" (is "_ = Inr ?s")
      "elems ix = elems (m_blockIndex bc)"
    using unique_sequence.rebuildCache_eq [OF assms(1) inv assms(3,4)] by blast
  then show ?thesis using rebuildIndices_eq [OF inv, of ?s] assms(3,5) by (intro exI [of _ ix]) (cases s, simp)
qed

theorem rebuild_restores_witness:
  "\<exists>c bvc bc ix. CurrencyBuilder_new = Some c \<and>
     pushBlock (sample_env c) dlist_container 5 first_block [] 0 bvc_new sample_chain = Inr (True, bvc, bc) \<and>
     ebind (rebuildCache (sample_env c) dlist_container (sample_chain\<lparr>m_blocks := m_blocks bc\<rparr>)) (rebuildIndices (sample_env c)) =
       Inr (sample_chain\<lparr>m_blocks := m_blocks bc, m_blockIndex := ix, m_tables := m_tables bc, m_depositIndex := m_depositIndex bc,
         bc_timestampIndex := bc_timestampIndex bc, m_generatedTransactionsIndex := m_generatedTransactionsIndex bc\<rparr>)"
proof -
  obtain c bvc bc e where c: "CurrencyBuilder_new = Some c"
    and push: "pushBlock (sample_env c) dlist_container 5 first_block [] 0 bvc_new sample_chain = Inr (True, bvc, bc)" by (rule sample_added)
  have "m_depositIndex sample_chain = DepositIndex_new" "lastGeneratedTxNumber (m_generatedTransactionsIndex sample_chain) = 0"
    by (simp_all add: Blockchain_new_def GeneratedTransactionsIndex_new_def)
  then show ?thesis
    using rebuild_restores [OF dlc.unique_sequence_axioms sample_run_added [OF push], of "sample_chain\<lparr>m_blocks := m_blocks bc\<rparr>"] c push by auto
qed

text \<open>C5: Removing the block that was just added gives back the chain as it was before, except for the limit
  of the size of a block, which keeps its new value. The pool has the transactions of the block.\<close>

theorem pop_restores:
  assumes "unique_sequence C elems" "chain_run E C T bc" "f = ce_fast_hash E" "h = get_block_hash_value f b"
    and "\<not> isInCheckpointZone bc (getCurrentBlockchainHeight bc)" "offered f bc b txs" "Suc (length (m_blocks bc)) < 2 ^ 32"
    and "pushBlock E C time b txs h bvc bc = Inr (True, bvc', bc')"
    and "saveTransactions E C T time' now bc' txs (of_nat (length (m_blocks bc'))) p = Inr p'"
  shows "\<exists>ix. popBlock E C T time' now h bc' p = Inr (bc\<lparr>m_blockIndex := ix, m_current_block_cumul_sz_limit := m_current_block_cumul_sz_limit bc'\<rparr>, p') \<and>
    elems ix = elems (m_blockIndex bc)"
  using unique_sequence.chain_run_inv [OF assms(1,2)] assms(3-)
  by (intro unique_sequence.pop_undoes_push [OF assms(1)]) simp_all

theorem pop_restores_witness:
  "\<exists>c bvc bc ix p. CurrencyBuilder_new = Some c \<and>
     pushBlock (sample_env c) dlist_container 5 first_block [] 0 bvc_new sample_chain = Inr (True, bvc, bc) \<and>
     popBlock (sample_env c) dlist_container list_tx_container 6 6 0 bc (pool_new []) =
       Inr (sample_chain\<lparr>m_blockIndex := ix, m_current_block_cumul_sz_limit := m_current_block_cumul_sz_limit bc\<rparr>, p) \<and> list_of_dlist ix = []"
proof -
  obtain c bvc bc e where c: "CurrencyBuilder_new = Some c"
    and push: "pushBlock (sample_env c) dlist_container 5 first_block [] 0 bvc_new sample_chain = Inr (True, bvc, bc)" by (rule sample_added)
  have "saveTransactions (sample_env c) dlist_container list_tx_container 6 6 bc [] h (pool_new []) = Inr (pool_new [])" for h
    by (simp add: saveTransactions_def)
  from pop_restores [OF dlc.unique_sequence_axioms sample_run refl _ _ _ _ push this]
  have "\<exists>ix. popBlock (sample_env c) dlist_container list_tx_container 6 6 0 bc (pool_new []) =
       Inr (sample_chain\<lparr>m_blockIndex := ix, m_current_block_cumul_sz_limit := m_current_block_cumul_sz_limit bc\<rparr>, pool_new []) \<and> list_of_dlist ix = []"
    by (simp add: sample_env_fields sample_new first_offered first_hash)
  then show ?thesis using c push by blast
qed

text \<open>C2: A block is added only if it continues the chain and has the version, the time, the work and the miner's
  transaction that its height asks for. The product of its proof of work and the difficulty is below 2 to
  the 256, or a checkpoint has its hash; its size is within the limit; from height 290700 on the miner takes
  the reward of the schedule and the fees, not more and not less. The stored block adds its difficulty, the
  coins and the interest to the sums of the chain.\<close>

theorem block_accepted:
  assumes "pushBlock E C time b txs h bvc bc = Inr (True, bvc', bc')"
    and "c = ce_currency E" "height = getCurrentBlockchainHeight bc" "minted = (if m_blocks bc = [] then 0 else already_generated_coins (last (m_blocks bc)))"
  shows "\<exists>e d sz fees interest limit reward emission. m_blocks bc' = m_blocks bc @ [e] \<and> be_bl e = b \<and>
    Blockchain_getTailId C bc = Inr (previousBlockHash b) \<and> majorVersion b = get_block_major_version_for_height c bc (ucast height) \<and>
    timestamp b \<le> time + m_blockFutureTimeLimit c \<and>
    getDifficultyForNextBlock c bc = Inr d \<and> d \<noteq> 0 \<and>
    (if isInCheckpointZone bc height then check_block (m_checkpoints bc) height h
     else \<exists>pow. get_block_longhash (ce_fast_hash E) (ce_slow_hashes E) b = Some pow \<and> unat pow * unat d < 2 ^ 256) \<and>
    inputs (baseTransaction b) = [BaseInput height] \<and> unlockTime (baseTransaction b) = ucast height + m_minedMoneyUnlockWindow c \<and>
    add_calls tx_size txs (snd (getObjectBinarySize out_Transaction (baseTransaction b))) = Some sz \<and>
    maxBlockCumulativeSize c (ucast height) = Some limit \<and> sz \<le> limit \<and>
    add_calls (tx_fee c height) txs 0 = Some fees \<and>
    getBlockReward c (medianValue (get_last_n_blocks_sizes bc (m_rewardBlocksWindow c))) sz minted fees height = Return (reward, emission) \<and>
    (290700 \<le> height \<longrightarrow> fold (\<lambda>out r. r + amount out) (outputs (baseTransaction b)) 0 = reward) \<and>
    block_interest c (length (m_blocks bc)) (baseTransaction b # txs) = Some interest \<and>
    cumulative_difficulty e = d + (if m_blocks bc = [] then 0 else cumulative_difficulty (last (m_blocks bc))) \<and>
    block_cumulative_size e = sz \<and> already_generated_coins e = minted + emission + interest"
proof -
  obtain d where d: "block_checks E C time b h bc d" "push_validated E C time b txs d bvc bc = Inr (True, bvc', bc')"
    using pushBlock_cases [OF assms(1)] by auto
  have height: "of_nat (length (m_blocks bc)) = height" by (simp add: assms(3) getCurrentBlockchainHeight_def)
  from d(2) obtain st :: push_state and reward em e where st: "push_transactions E time b txs bc = Inr (True, st)"
    and size: "checkCumulativeBlockSize c (ps_cumulative_size st) (ucast height) = Inr True"
    and miner: "validate_miner_transaction c bc b height (ps_cumulative_size st) minted (ps_fee_summary st) = Inr (True, reward, em)"
    and e: "e = \<lparr>be_bl = b, be_height = height, block_cumulative_size = ps_cumulative_size st,
        cumulative_difficulty = d + (if m_blocks bc = [] then 0 else cumulative_difficulty (last (m_blocks bc))),
        already_generated_coins = minted + em + ps_interestSummary st, be_transactions = ps_transactions st\<rparr>"
    and entry: "push_entry E C e (ps_interestSummary st) (bc\<lparr>m_tables := ps_tables st\<rparr>) = Inr bc'"
    unfolding height assms(2,4) by (elim push_validated_True) (simp add: height)
  note facts = block_checks_facts [OF d(1) assms(2,3)]
  have blocks: "m_blocks bc' = m_blocks bc @ [e]" using entry by (elim push_entry_fields) simp
  obtain limit where limit: "maxBlockCumulativeSize c (ucast height) = Some limit" "ps_cumulative_size st \<le> limit"
    using size by (auto simp: checkCumulativeBlockSize_def ebind_Inr_iff or_error_def not_less split: option.splits)
  note sums = push_transactions_sums [OF st, unfolded height, folded assms(2)]
  note reward = miner_transaction_valid [OF miner]
  note interest = push_transactions_interest [OF st facts(7), folded assms(2)]
  have fields: "be_bl e = b" "block_cumulative_size e = ps_cumulative_size st" "already_generated_coins e = minted + em + ps_interestSummary st"
    "cumulative_difficulty e = d + (if m_blocks bc = [] then 0 else cumulative_difficulty (last (m_blocks bc)))" by (simp_all add: e)
  show ?thesis
    by (intro exI [of _ e] exI [of _ d] exI [of _ "ps_cumulative_size st"] exI [of _ "ps_fee_summary st"] exI [of _ "ps_interestSummary st"]
        exI [of _ limit] exI [of _ reward] exI [of _ em] conjI)
      (rule blocks facts limit interest fields sums [THEN conjunct1] sums [THEN conjunct2] reward [THEN conjunct1] reward [THEN conjunct2])+
qed

theorem block_accepted_witness:
  "\<exists>c bvc bc e. CurrencyBuilder_new = Some c \<and>
     pushBlock (sample_env c) dlist_container 5 first_block [] 0 bvc_new sample_chain = Inr (True, bvc, bc) \<and>
     m_blocks bc = [e] \<and> cumulative_difficulty e = 1 \<and> block_cumulative_size e = 41"
proof -
  obtain c bvc bc e where c: "CurrencyBuilder_new = Some c"
    and push: "pushBlock (sample_env c) dlist_container 5 first_block [] 0 bvc_new sample_chain = Inr (True, bvc, bc)"
    and d: "getDifficultyForNextBlock c sample_chain = Inr 1" by (rule sample_added)
  obtain e d where "m_blocks bc = [e]" "getDifficultyForNextBlock c sample_chain = Inr d" "cumulative_difficulty e = d" "block_cumulative_size e = 41"
    using block_accepted [OF push refl refl refl] by (auto simp: sample_new first_fields first_size sample_env_fields)
  then show ?thesis using c push d by auto
qed

text \<open>C6: A block that is refused leaves the chain as it was, with one exception: if its transactions are valid and
  only their total size is over the limit, the chain has the same blocks but the tables keep the block's
  transactions, so that its miner's transaction and the key images count as known.\<close>

theorem refused_block:
  assumes "unique_sequence C elems" "chain_run E C T bc" "f = ce_fast_hash E" "h = get_block_hash_value f b"
    and "\<not> isInCheckpointZone bc (getCurrentBlockchainHeight bc)" "offered f bc b txs"
    and "pushBlock E C time b txs h bvc bc = Inr (False, bvc', bc')"
  shows "if (\<exists>d. block_checks E C time b h bc d) \<and> oversized E time b txs bc
    then m_blocks bc' = m_blocks bc \<and> haveTransaction bc' (tx_id f (baseTransaction b)) \<and> \<not> haveTransaction bc (tx_id f (baseTransaction b)) \<and>
      m_spent_keys (m_tables bc') = m_spent_keys (m_tables bc) \<union> set (images_of txs)
    else bc' = bc"
proof (cases "(\<exists>d. block_checks E C time b h bc d) \<and> oversized E time b txs bc")
  case False
  have "bc' = bc"
  proof (cases "oversized E time b txs bc")
    case True
    then show ?thesis using False pushBlock_cases [OF assms(7)] by auto
  next
    case False
    have "tables_of f 0 (m_blocks bc) chain_tables_new = Some (m_tables bc)" "blocks_ok f (m_blocks bc)"
      using unique_sequence.chain_run_inv [OF assms(1,2)] by (simp_all add: chain_inv_def Let_def assms(3))
    then show ?thesis by (rule pushBlock_refused [OF assms(7,3) _ _ assms(5,6) False])
  qed
  then show ?thesis unfolding if_not_P [OF False] .
next
  case True
  then obtain d where d: "block_checks E C time b h bc d" and big: "oversized E time b txs bc" by blast
  obtain st :: push_state where st: "push_transactions E time b txs bc = Inr (True, st)" "bc' = bc\<lparr>m_tables := ps_tables st\<rparr>"
    using oversized_kept [OF d big assms(7)] by blast
  have base: "inputs (baseTransaction b) = [BaseInput (of_nat (length (m_blocks bc)))]"
    using block_checks_facts(7) [OF d refl refl] by (simp add: getCurrentBlockchainHeight_def)
  have "loop_inv f bc b txs st"
    using push_transactions_spec [OF st(1) assms(3) _ _ base assms(5,6)] unique_sequence.chain_run_inv [OF assms(1,2)]
    by (simp add: chain_inv_def Let_def assms(3))
  then have push: "push_all f (of_nat (length (m_blocks bc))) 0 (baseTransaction b # txs) (m_tables bc) = Some (ps_tables st)"
    by (simp only: loop_inv_def)
  have "m_spent_keys (ps_tables st) = m_spent_keys (m_tables bc) \<union> set (images_of txs)"
    using push_all_spends [OF push] by (simp add: spends_def base)
  moreover have "tx_id f (baseTransaction b) \<in> dom (m_transactionMap (ps_tables st))"
    using push_all_dom [OF push] by (simp add: tx_hashes_def)
  moreover have "m_transactionMap (m_tables bc) (tx_id f (baseTransaction b)) = None" using push by (auto simp: push_ok_def split: if_splits)
  ultimately have "m_blocks bc' = m_blocks bc \<and> haveTransaction bc' (tx_id f (baseTransaction b)) \<and> \<not> haveTransaction bc (tx_id f (baseTransaction b)) \<and>
      m_spent_keys (m_tables bc') = m_spent_keys (m_tables bc) \<union> set (images_of txs)"
    by (simp add: st(2) haveTransaction_def dom_def)
  then show ?thesis unfolding if_P [OF True] .
qed

theorem refused_block_witness:
  "\<exists>c bvc bc. CurrencyBuilder_new = Some c \<and>
     pushBlock (sample_env (c\<lparr>m_maxBlockSizeInitial := 0\<rparr>)) dlist_container 5 first_block [] 0 bvc_new sample_chain = Inr (False, bvc, bc) \<and>
     m_blocks bc = [] \<and> haveTransaction bc 0 \<and> \<not> haveTransaction sample_chain 0"
proof -
  obtain c where c: "CurrencyBuilder_new = Some c" "m_upgradeHeightV2 c = ucast UPGRADE_HEIGHT_V2" "m_upgradeHeightV3 c = ucast UPGRADE_HEIGHT_V3"
    "m_minedMoneyUnlockWindow c = CRYPTONOTE_MINED_MONEY_UNLOCK_WINDOW" "m_blockFutureTimeLimit c = CRYPTONOTE_BLOCK_FUTURE_TIME_LIMIT"
    "m_timestampCheckWindow c = BLOCKCHAIN_TIMESTAMP_CHECK_WINDOW" "2 \<le> m_difficultyWindow c"
    "m_maxBlockSizeGrowthSpeedNumerator c = MAX_BLOCK_SIZE_GROWTH_SPEED_NUMERATOR"
    "m_maxBlockSizeGrowthSpeedDenominator c = MAX_BLOCK_SIZE_GROWTH_SPEED_DENOMINATOR"
    by (rule sample_currency)
  let ?c = "c\<lparr>m_maxBlockSizeInitial := 0\<rparr>"
  have checks: "block_checks (sample_env ?c) dlist_container 5 first_block 0 sample_chain 1" by (rule sample_checks) (simp_all add: c)
  obtain st :: push_state where st: "push_transactions (sample_env ?c) 5 first_block [] sample_chain = Inr (True, st)" "ps_cumulative_size st = 41"
    using first_pushed [of ?c] by (elim exE conjE)
  have large: "checkCumulativeBlockSize ?c 41 0 = Inr False"
    by (simp add: checkCumulativeBlockSize_def maxBlockCumulativeSize_def c config)
  have push: "pushBlock (sample_env ?c) dlist_container 5 first_block [] 0 bvc_new sample_chain =
      Inr (False, bvc_new\<lparr>bvc_verification_failed := True\<rparr>, sample_chain\<lparr>m_tables := ps_tables st\<rparr>)" (is "_ = Inr (False, _, ?bc)")
    using st large by (simp add: pushBlock_checked [OF checks] push_validated_def Let_def sample_env_fields sample_new)
  have "oversized (sample_env ?c) 5 first_block [] sample_chain" using st large by (simp add: oversized_def sample_new sample_env_fields)
  then have P: "(\<exists>d. block_checks (sample_env ?c) dlist_container 5 first_block 0 sample_chain d) \<and> oversized (sample_env ?c) 5 first_block [] sample_chain"
    using checks by blast
  have f: "(\<lambda>_. 0) = ce_fast_hash (sample_env ?c)" by (simp add: sample_env_fields)
  have "m_blocks ?bc = [] \<and> haveTransaction ?bc 0 \<and> \<not> haveTransaction sample_chain 0"
    using refused_block [OF dlc.unique_sequence_axioms sample_run f first_hash [symmetric] sample_new(8) first_offered push, unfolded if_P [OF P]]
    by (simp add: sample_new(1) first_fields first_id)
  then show ?thesis using c(1) push by blast
qed

end
