(* ===== verification/Spec2Isabelle.thy ===== *)
theory Spec2Isabelle
  imports InvestmentIndex Fusion CurrencyAmount NextDifficulty BlockIndex Checkpoints UpgradeDetector ChainRun
begin

text \<open>
  A model of the consensus code of Lithe, a CryptoNote node and wallet in C++, with proofs of its
  properties. File names below are relative to the directory \<^verbatim>\<open>src\<close> of the repository.

  \<^bold>\<open>The program.\<close> A node receives transactions and blocks as bytes. Transactions wait in the pool; a block
  takes its transactions from the pool and is added to the chain if it passes all checks; a block that is
  removed gives them back. The chain keeps tables of what is spent and where outputs are, an index of its
  blocks, an index of deposits, detectors of protocol upgrades, and indices for queries. The rules of the
  currency (rewards, difficulty, interest on deposits, fees) are in one class, constants in a header.

  \<^bold>\<open>Representation.\<close> Unsigned integers are words of their width, so that arithmetic wraps around as in the
  source; signed 64-bit values are words that are read with \<open>sint\<close>. Bytes are lists of 8-bit words, hashes
  and keys words of 256 bits. Structs are records, variants datatypes. A failed assertion is \<open>None\<close> or the
  constructor of an error type; exceptions are values of sum types. An operation on an object takes the
  object and returns it changed. Cryptographic primitives, the clock, files and DNS answers are arguments;
  a container of boost is a record of its operations, with the laws that its documentation gives as the
  assumptions of a locale (\<open>unique_sequence\<close>, \<open>tx_multi_index\<close>) and an interpretation by an executable
  container. Log messages, console output, observers and locks are left out: operations are atomic.

  \<^bold>\<open>Theories\<close>, from the bottom up:

  \<^item> \<open>Prelude\<close> has the names of the machine types and the general lemmas. \<open>IntUtil\<close>
    (\<^verbatim>\<open>Common/int-util.h\<close>) has the product and quotient of 128 bits, proved exact.

  \<^item> \<open>StreamTools\<close>, \<open>BinarySerializer\<close>, \<open>CryptoNoteSerialization\<close> and \<open>CryptoNoteTools\<close>
    (\<^verbatim>\<open>Common/StreamTools.cpp\<close>, \<^verbatim>\<open>Serialization/Binary*\<close>, \<^verbatim>\<open>CryptoNoteCore/CryptoNoteSerialization.cpp\<close>) have the binary
    format in both directions. The locale \<open>codec\<close> states that reading inverts writing and that nothing else
    is accepted; its interpretations lead from integers to transactions and blocks, so that bytes and
    well-formed objects correspond one to one. \<open>CryptoTypes\<close> has the data (\<^verbatim>\<open>include/CryptoNote.h\<close>).

  \<^item> \<open>StringTools\<close>, \<open>Varint\<close>, \<open>Base58\<close>, \<open>BasicImpl\<close>, \<open>TransactionExtra\<close>: hexadecimal and decimal text, the
    other variable-length integers, addresses as text, the reward penalty, and the extra field of a
    transaction, with round trips.

  \<^item> \<open>TreeHash\<close>, \<open>BlockHashing\<close>, \<open>Difficulty\<close>: the Merkle tree of \<^verbatim>\<open>crypto/tree-hash.c\<close>, the hashes of blocks and
    transactions, and the proof-of-work check. The loops compute the root of the tree, two blocks with one
    hash give a collision of the hash function, and the check is exact.

  \<^item> \<open>Config\<close>, \<open>Currency\<close>, \<open>CurrencyAmount\<close>, \<open>Fusion\<close>, \<open>FloatArith\<close>, \<open>Interest\<close>, \<open>NextDifficulty\<close> and
    \<open>FormatUtils\<close>: \<^verbatim>\<open>CryptoNoteConfig.h\<close>, \<^verbatim>\<open>CryptoNoteCore/Currency.cpp\<close> and the stateless checks of
    \<^verbatim>\<open>CryptoNoteFormatUtils.cpp\<close>. Rewards follow the formula of the penalty and emission stays within the money
    supply, the difficulty and the interest are compared with their formulas over the integers and the
    rationals, fees are exact, amounts are read from text exactly.

  \<^item> \<open>DepositIndex\<close>, \<open>InvestmentIndex\<close>, \<open>BlockIndex\<close>, \<open>BlockchainIndices\<close>, \<open>Checkpoints\<close>, \<open>UpgradeDetector\<close>: the
    components of the chain of the same names, each with what it keeps and what it refines.

  \<^item> \<open>TransactionPool\<close> and \<open>PoolProperties\<close> (\<^verbatim>\<open>CryptoNoteCore/TransactionPool.cpp\<close>): the pool, its invariant over all
    histories (\<open>pool_run\<close>), admission, expiry and block templates.

  \<^item> \<open>ChainState\<close>, \<open>ChainTables\<close>, \<open>ChainChecks\<close>, \<open>Blockchain\<close> (\<^verbatim>\<open>CryptoNoteCore/Blockchain.cpp\<close>): the tables of the chain
    and their operations, the checks, and adding, removing and rebuilding. \<open>ChainInvariant\<close> proves that
    every component of the chain is the one computed from its blocks (\<open>chain_inv\<close>); \<open>ChainProperties\<close> and \<open>ChainRun\<close>
    prove the properties of all histories (\<open>chain_run\<close>): no double spend, rebuilding, undoing a block, what
    an accepted block satisfies and what a refused one leaves behind.

  \<^bold>\<open>Bounds.\<close> Loops of the source are structural recursions or functions with a termination proof; no fuel is
  used. A loop whose counter is narrower than what it counts to does not end in the source and is the
  error \<open>Endless\<close> of the model. Chains are shorter than 2 to the 32, where heights wrap. The collision
  resistance of the hash function is assumed only of the transactions concerned, in the form that they have
  different hashes (\<open>offered\<close>), or a collision is the conclusion. Above the last checkpoint the source checks
  all inputs; below it trusts the hash of the block, and the properties of histories are about blocks above.

  \<^bold>\<open>Not modelled.\<close> Switching to an alternative chain and the start from files in \<^verbatim>\<open>Blockchain.cpp\<close>, the
  queries for the RPC server, and the dispatching of \<^verbatim>\<open>Core.cpp\<close>. The cryptographic primitives of
  \<^verbatim>\<open>crypto\<close>, which are arguments. Network, RPC and HTTP servers, wallets, the payment gate, miners, the
  explorer, logging, platform code and command line programs: input and output, threads and user
  interfaces around the code modelled here. The text formats for RPC messages, which the chain does not use.
  Keys that the sparse hash tables of the chain reserve for deletion (a zero key image, a zero amount).
\<close>

end
